(* ===== verification/Prelude.thy ===== *)
theory Prelude
  imports Main "HOL-Library.Word" "HOL-Library.Monad_Syntax"
begin

text \<open>
  What every component shares: how a C++ run that aborts is represented, checked
  array accesses, and the generic facts on lists and machine words that the
  component proofs use.

  A run of a C++ function is a value of an option type. The value None stands for
  every run that does not return normally: an \<open>assert\<close> that fails, an access out of
  the bounds of an array, and (for the loops defined with \<open>partial_function\<close>) a loop
  that never ends. A theorem that an operation yields \<open>Some\<close> therefore says at once
  that no assertion fires, that no access is out of bounds and that all loops end.
\<close>

unbundle bit_operations_syntax

type_synonym size_t = "64 word"

named_theorems run_simps \<open>how the primitive steps of a run evaluate\<close>

subsection \<open>Assertions and checked accesses\<close>

definition assert_that :: "bool \<Rightarrow> unit option" where
  "assert_that P = (if P then Some () else None)"

definition read_at :: "'a list \<Rightarrow> nat \<Rightarrow> 'a option" where
  "read_at xs i = (if i < length xs then Some (xs ! i) else None)"

definition write_at :: "'a list \<Rightarrow> nat \<Rightarrow> 'a \<Rightarrow> 'a list option" where
  "write_at xs i v = (if i < length xs then Some (xs[i := v]) else None)"

lemma assert_that_True [simp, run_simps]: "P \<Longrightarrow> assert_that P = Some ()"
  by (simp add: assert_that_def)

lemma assert_that_False [simp, run_simps]: "\<not> P \<Longrightarrow> assert_that P = None"
  by (simp add: assert_that_def)

lemma assert_that_eq_Some [simp]: "assert_that P = Some u \<longleftrightarrow> P"
  by (simp add: assert_that_def)

lemma read_at_in [simp, run_simps]: "i < length xs \<Longrightarrow> read_at xs i = Some (xs ! i)"
  by (simp add: read_at_def)

lemma read_at_eq_Some: "read_at xs i = Some x \<longleftrightarrow> i < length xs \<and> x = xs ! i"
  by (auto simp: read_at_def)

lemma write_at_in [simp, run_simps]: "i < length xs \<Longrightarrow> write_at xs i v = Some (xs[i := v])"
  by (simp add: write_at_def)

lemma map_option_do: "map_option f (do { x \<leftarrow> m; g x }) = do { x \<leftarrow> m; map_option f (g x) }"
  by (cases m) simp_all

subsection \<open>Lists: the first and last element with a default\<close>

definition hd_or :: "'a \<Rightarrow> 'a list \<Rightarrow> 'a" where
  "hd_or d xs = (case xs of [] \<Rightarrow> d | x # _ \<Rightarrow> x)"

definition last_or :: "'a \<Rightarrow> 'a list \<Rightarrow> 'a" where
  "last_or d xs = (if xs = [] then d else last xs)"

lemma hd_or_simps [simp]: "hd_or d [] = d" "hd_or d (x # xs) = x"
  by (simp_all add: hd_or_def)

lemma last_or_simps [simp]: "last_or d [] = d" "last_or d (xs @ [x]) = x"
  by (simp_all add: last_or_def)

lemma last_or_Cons [simp]: "last_or d (x # xs) = last_or x xs"
  by (simp add: last_or_def)

lemma hd_or_append: "hd_or d (xs @ ys) = hd_or (hd_or d ys) xs"
  by (cases xs) auto

lemma last_or_append: "last_or d (xs @ ys) = last_or (last_or d xs) ys"
  by (simp add: last_or_def)

lemma hd_or_nonempty: "xs \<noteq> [] \<Longrightarrow> hd_or d xs = hd xs"
  by (cases xs) auto

lemma last_or_nonempty: "xs \<noteq> [] \<Longrightarrow> last_or d xs = last xs"
  by (simp add: last_or_def)

lemma hd_or_in: "xs \<noteq> [] \<Longrightarrow> hd_or d xs \<in> set xs"
  by (cases xs) auto

lemma last_or_in: "xs \<noteq> [] \<Longrightarrow> last_or d xs \<in> set xs"
  by (simp add: last_or_def)

lemma last_notin_butlast: "distinct xs \<Longrightarrow> xs \<noteq> [] \<Longrightarrow> last xs \<notin> set (butlast xs)"
  by (induction xs rule: rev_induct) auto

lemma concat_map_upt_split:
  assumes "i < n"
  shows "concat (map f [0..<n]) = concat (map f [0..<i]) @ f i @ concat (map f [Suc i..<n])"
proof -
  have "[0..<n] = [0..<i] @ i # [Suc i..<n]"
    using assms upt_add_eq_append [of 0 i "n - i"] by (simp add: upt_conv_Cons)
  then show ?thesis by simp
qed

lemma concat_map_Nil: "(\<And>x. x \<in> set xs \<Longrightarrow> f x = []) \<Longrightarrow> concat (map f xs) = []"
  by (induction xs) auto

lemma distinct_concat_map:
  assumes "distinct xs" and "\<And>x. x \<in> set xs \<Longrightarrow> distinct (f x)"
    and "\<And>x y. x \<in> set xs \<Longrightarrow> y \<in> set xs \<Longrightarrow> x \<noteq> y \<Longrightarrow> set (f x) \<inter> set (f y) = {}"
  shows "distinct (concat (map f xs))"
  using assms by (induction xs) fastforce+

lemma sorted_wrt_concat_map:
  assumes "sorted_wrt R is" and "\<And>i. i \<in> set is \<Longrightarrow> sorted_wrt P (f i)"
    and "\<And>i j x y. R i j \<Longrightarrow> i \<in> set is \<Longrightarrow> j \<in> set is \<Longrightarrow> x \<in> set (f i) \<Longrightarrow> y \<in> set (f j) \<Longrightarrow> P x y"
  shows "sorted_wrt P (concat (map f is))"
  using assms by (induction "is") (auto simp: sorted_wrt_append)

lemma takeWhile_dropWhile_split:
  assumes "\<And>x. x \<in> set xs \<Longrightarrow> P x" and "\<And>y. y \<in> set ys \<Longrightarrow> \<not> P y"
  shows "takeWhile P (xs @ ys) = xs" and "dropWhile P (xs @ ys) = ys"
proof -
  have "takeWhile P ys = []" and "dropWhile P ys = ys" using assms(2) by (cases ys; simp)+
  then show "takeWhile P (xs @ ys) = xs" and "dropWhile P (xs @ ys) = ys"
    using assms(1) by (simp_all add: takeWhile_append2 dropWhile_append2)
qed

subsection \<open>Machine words\<close>

lemma unat_ucast_32_64 [simp]: "unat (ucast (x :: 32 word) :: 64 word) = unat x"
  by (simp add: unsigned_ucast_eq take_bit_nat_eq_self order_less_trans [OF unsigned_less])

lemma unat_less_2p32: "unat (x :: 32 word) < 4294967296"
  using unsigned_less [of x] by simp

lemma unat_less_2p64: "unat (x :: 64 word) < 18446744073709551616"
  using unsigned_less [of x] by simp

lemma unat_inject [simp]: "unat (x :: 'a::len word) = unat y \<longleftrightarrow> x = y"
  by (auto intro: unsigned_word_eqI)

lemma unat_dec: "(x :: 'a::len word) \<noteq> 0 \<Longrightarrow> unat (x - 1) = unat x - 1"
  by (rule unat_minus_one)

lemma unat_inc: "(x :: 'a::len word) < y \<Longrightarrow> unat (x + 1) = Suc (unat x)"
proof -
  assume "x < y"
  then have "unat x < unat y" by (simp add: word_less_nat_alt)
  moreover have "unat y < 2 ^ LENGTH('a)" by (rule unsigned_less)
  ultimately have "Suc (unat x) < 2 ^ LENGTH('a)" by linarith
  then show ?thesis by (subst unat_plus_if') (simp add: unat_1)
qed

lemma unat_of_nat_less: "n < 2 ^ LENGTH('a) \<Longrightarrow> unat (word_of_nat n :: 'a::len word) = n"
  by (simp add: unsigned_of_nat take_bit_nat_eq_self)

text \<open>A power of two as \<open>std::has_single_bit\<close> tests it, and reduction by its mask.\<close>

definition has_single_bit :: "size_t \<Rightarrow> bool" where
  "has_single_bit c \<longleftrightarrow> (\<exists>k < 64. c = 2 ^ k)"

lemma unat_single_bit:
  assumes "k < 64"
  shows "unat ((2 :: size_t) ^ k) = 2 ^ k"
proof -
  have "(2 :: nat) ^ k < 2 ^ LENGTH(64)" using assms by (intro power_strict_increasing) auto
  then have "unat (word_of_nat (2 ^ k) :: size_t) = 2 ^ k" by (rule unat_of_nat_less)
  then show ?thesis by simp
qed

lemma has_single_bit_dvd: "has_single_bit c \<Longrightarrow> unat c dvd 2 ^ 64"
  by (auto simp only: has_single_bit_def unat_single_bit intro!: le_imp_power_dvd)

lemma has_single_bit_pos [simp]: "has_single_bit c \<Longrightarrow> 0 < unat c"
  by (auto simp: has_single_bit_def unat_single_bit)

lemma unat_and_mask:
  assumes "has_single_bit c"
  shows "unat (x AND (c - 1)) = unat x mod unat c"
proof -
  obtain k where k: "k < 64" and c: "c = 2 ^ k"
    using assms by (auto simp: has_single_bit_def)
  have "x AND (c - 1) = take_bit k x"
    by (simp add: c take_bit_eq_mask mask_eq_exp_minus_1)
  then have "unat (x AND (c - 1)) = take_bit k (unat x)"
    by (simp add: unsigned_take_bit_eq)
  with k show ?thesis by (simp add: c unat_single_bit take_bit_eq_mod)
qed

lemma unat_add_mod:
  fixes x y :: size_t
  assumes "has_single_bit c"
  shows "unat (x + y) mod unat c = (unat x + unat y) mod unat c"
  using has_single_bit_dvd [OF assms] by (simp add: unat_word_ariths mod_mod_cancel)

end
