(* ===== verification/Clob_Types.thy ===== *)
theory Clob_Types
  imports Prelude
begin

text \<open>
  The value types of the engine: \<open>types.hpp\<close> (ids, prices, quantities, slot indices,
  sides), \<open>order.hpp\<close> (a resting order with its intrusive links), \<open>price_level.hpp\<close>
  (the metadata of one FIFO queue), \<open>order_command.hpp\<close> and \<open>execution.hpp\<close>.
  All integers keep the width of the source.
\<close>

subsection \<open>types.hpp\<close>

type_synonym OrderId = "64 word"
type_synonym Price = "64 word"
type_synonym Quantity = "64 word"
type_synonym OrderIndex = "32 word"

datatype Side = Buy | Sell

definition null_order_index :: OrderIndex where
  "null_order_index = - 1"

lemma unat_null_order_index: "unat null_order_index = 4294967295"
  by (simp add: null_order_index_def unsigned_minus_1_eq_mask mask_eq_exp_minus_1)

text \<open>The side an incoming order trades against.\<close>

fun opposite :: "Side \<Rightarrow> Side" where
  "opposite Buy = Sell"
| "opposite Sell = Buy"

lemma opposite_neq [simp]: "opposite s \<noteq> s" "s \<noteq> opposite s"
  by (cases s; simp)+

lemma side_cases_opposite: "t = s \<or> t = opposite s"
  by (cases s; cases t) auto

subsection \<open>order.hpp and price_level.hpp\<close>

record Order =
  order_id :: OrderId
  price :: Price
  qty :: Quantity
  next_idx :: OrderIndex
  prev_idx :: OrderIndex
  side :: Side

definition default_order :: Order where
  "default_order = \<lparr>order_id = 0, price = 0, qty = 0,
     next_idx = null_order_index, prev_idx = null_order_index, side = Buy\<rparr>"

record PriceLevel =
  head_idx :: OrderIndex
  tail_idx :: OrderIndex
  total_qty :: Quantity
  order_count :: size_t

definition default_level :: PriceLevel where
  "default_level = \<lparr>head_idx = null_order_index, tail_idx = null_order_index,
     total_qty = 0, order_count = 0\<rparr>"

definition level_empty :: "PriceLevel \<Rightarrow> bool" where
  "level_empty l \<longleftrightarrow> order_count l = 0"

subsection \<open>order_command.hpp and execution.hpp\<close>

datatype CommandType = AddLimit | Cancel

record OrderCommand =
  cmd_order_id :: OrderId
  cmd_price :: Price
  cmd_qty :: Quantity
  cmd_type :: CommandType
  cmd_side :: Side

record Execution =
  incoming_order_id :: OrderId
  resting_order_id :: OrderId
  exec_price :: Price
  exec_qty :: Quantity

text \<open>The aggregate initialisation \<open>Execution{a, b, c, d}\<close>.\<close>

definition mk_execution :: "OrderId \<Rightarrow> OrderId \<Rightarrow> Price \<Rightarrow> Quantity \<Rightarrow> Execution" where
  "mk_execution i r p q = \<lparr>incoming_order_id = i, resting_order_id = r,
     exec_price = p, exec_qty = q\<rparr>"

lemma mk_execution_sel [simp]:
  "incoming_order_id (mk_execution i r p q) = i"
  "resting_order_id (mk_execution i r p q) = r"
  "exec_price (mk_execution i r p q) = p"
  "exec_qty (mk_execution i r p q) = q"
  by (simp_all add: mk_execution_def)

end
