(* ===== verification/Order_Pool.thy ===== *)
theory Order_Pool
  imports Clob_Types
begin

text \<open>
  \<open>order_pool.hpp\<close>: the preallocated storage of resting orders. A slot is named by an
  \<open>OrderIndex\<close>; the free slots form a stack, of which \<open>free_top\<close> (the code's \<open>top_\<close>)
  entries are live. The template parameter \<open>MaxOrders\<close> is the field \<open>max_orders\<close>, set
  by the constructor and never changed.

  The allocator's contract is the locale \<open>slot_allocator\<close>: a slot handed out was
  free, is no longer free, and comes back only by a release. The pool interprets it.
\<close>

record OrderPool =
  max_orders :: size_t
  orders :: "Order list"
  free_stack :: "OrderIndex list"
  free_top :: size_t

definition order_pool_new :: "size_t \<Rightarrow> OrderPool" where
  "order_pool_new n = \<lparr>max_orders = n,
     orders = replicate (unat n) default_order,
     free_stack = map word_of_nat [0..<unat n],
     free_top = n\<rparr>"

definition allocate :: "OrderPool \<Rightarrow> (OrderIndex option \<times> OrderPool) option" where
  "allocate p =
     (if free_top p = 0 then Some (None, p)
      else do {
        let t = free_top p - 1;
        idx \<leftarrow> read_at (free_stack p) (unat t);
        Some (Some idx, p\<lparr>free_top := t\<rparr>)
      })"

definition release :: "OrderPool \<Rightarrow> OrderIndex \<Rightarrow> OrderPool option" where
  "release p idx = do {
     assert_that (ucast idx < max_orders p);
     assert_that (free_top p < max_orders p);
     fs \<leftarrow> write_at (free_stack p) (unat (free_top p)) idx;
     Some (p\<lparr>free_stack := fs, free_top := free_top p + 1\<rparr>)
   }"

text \<open>
  \<open>get\<close> yields a reference. Reading through it is \<open>pool_get\<close>; assigning fields
  through it is \<open>pool_modify\<close>, with the assignment as a function on the order.
\<close>

definition pool_get :: "OrderPool \<Rightarrow> OrderIndex \<Rightarrow> Order option" where
  "pool_get p idx = do {
     assert_that (ucast idx < max_orders p);
     read_at (orders p) (unat idx)
   }"

definition pool_modify :: "OrderPool \<Rightarrow> OrderIndex \<Rightarrow> (Order \<Rightarrow> Order) \<Rightarrow> OrderPool option" where
  "pool_modify p idx f = do {
     ord \<leftarrow> pool_get p idx;
     Some (p\<lparr>orders := (orders p)[unat idx := f ord]\<rparr>)
   }"

definition pool_capacity :: "OrderPool \<Rightarrow> size_t" where
  "pool_capacity p = max_orders p"

definition available :: "OrderPool \<Rightarrow> size_t" where
  "available p = free_top p"

definition used :: "OrderPool \<Rightarrow> size_t" where
  "used p = max_orders p - free_top p"

definition pool_full :: "OrderPool \<Rightarrow> bool" where
  "pool_full p \<longleftrightarrow> free_top p = 0"

definition pool_empty :: "OrderPool \<Rightarrow> bool" where
  "pool_empty p \<longleftrightarrow> free_top p = max_orders p"

subsection \<open>Well-formed pools\<close>

definition free_slots :: "OrderPool \<Rightarrow> OrderIndex set" where
  "free_slots p = set (take (unat (free_top p)) (free_stack p))"

definition all_slots :: "OrderPool \<Rightarrow> OrderIndex set" where
  "all_slots p = {x. unat x < unat (max_orders p)}"

definition pool_inv :: "OrderPool \<Rightarrow> bool" where
  "pool_inv p \<longleftrightarrow>
     unat (max_orders p) < 2 ^ 32 \<and>
     length (orders p) = unat (max_orders p) \<and>
     length (free_stack p) = unat (max_orders p) \<and>
     unat (free_top p) \<le> unat (max_orders p) \<and>
     distinct (take (unat (free_top p)) (free_stack p)) \<and>
     free_slots p \<subseteq> all_slots p"

lemma all_slots_finite [simp, intro]: "finite (all_slots p)"
  by (rule finite_subset [OF subset_UNIV]) simp

lemma free_slots_finite [simp, intro]: "finite (free_slots p)"
  by (simp add: free_slots_def)

lemma null_not_slot: "pool_inv p \<Longrightarrow> null_order_index \<notin> all_slots p"
  by (simp add: pool_inv_def all_slots_def unat_null_order_index)

lemma card_free_slots: "pool_inv p \<Longrightarrow> card (free_slots p) = unat (free_top p)"
  by (simp add: pool_inv_def free_slots_def distinct_card)

lemma all_slots_eq:
  assumes "unat (max_orders p) < 2 ^ 32"
  shows "all_slots p = word_of_nat ` {..<unat (max_orders p)}"
proof -
  have "x \<in> word_of_nat ` {..<unat (max_orders p)}" if "unat x < unat (max_orders p)"
    for x :: OrderIndex
    using that by (intro image_eqI [of _ _ "unat x"]) auto
  moreover have "unat (word_of_nat n :: OrderIndex) < unat (max_orders p)"
    if "n < unat (max_orders p)" for n
    using that assms by (subst unat_of_nat_less) auto
  ultimately show ?thesis by (auto simp: all_slots_def)
qed

lemma inj_on_slot: "n \<le> 2 ^ 32 \<Longrightarrow> inj_on (word_of_nat :: nat \<Rightarrow> OrderIndex) {..<n}"
  by (rule inj_on_subset [OF inj_on_word_of_nat]) auto

lemma card_all_slots:
  "unat (max_orders p) < 2 ^ 32 \<Longrightarrow> card (all_slots p) = unat (max_orders p)"
  by (simp add: all_slots_eq card_image inj_on_slot)

lemma pool_inv_new:
  assumes "unat n < 2 ^ 32"
  shows "pool_inv (order_pool_new n)" and "free_slots (order_pool_new n) = all_slots (order_pool_new n)"
proof -
  have fs: "free_slots (order_pool_new n) = word_of_nat ` {..<unat n}"
    by (simp add: free_slots_def order_pool_new_def lessThan_atLeast0)
  also have "\<dots> = all_slots (order_pool_new n)"
    using assms by (subst all_slots_eq) (simp_all add: order_pool_new_def)
  finally show eq: "free_slots (order_pool_new n) = all_slots (order_pool_new n)" .
  have "inj_on (word_of_nat :: nat \<Rightarrow> OrderIndex) {0..<unat n}"
    using assms inj_on_slot [of "unat n"] by (simp add: lessThan_atLeast0)
  then show "pool_inv (order_pool_new n)"
    using assms eq by (simp add: pool_inv_def order_pool_new_def distinct_map)
qed

subsection \<open>What the operations do on a well-formed pool\<close>

lemma slot_in_bounds:
  assumes "pool_inv p" and "x \<in> all_slots p"
  shows "unat x < length (orders p)" and "ucast x < max_orders p"
  using assms by (simp_all add: pool_inv_def all_slots_def word_less_nat_alt)

lemma pool_get_slot [run_simps]:
  "pool_inv p \<Longrightarrow> x \<in> all_slots p \<Longrightarrow> pool_get p x = Some (orders p ! unat x)"
  by (simp add: pool_get_def slot_in_bounds)

lemma pool_modify_slot [run_simps]:
  "pool_inv p \<Longrightarrow> x \<in> all_slots p \<Longrightarrow>
   pool_modify p x f = Some (p\<lparr>orders := (orders p)[unat x := f (orders p ! unat x)]\<rparr>)"
  by (simp add: pool_modify_def pool_get_slot)

lemma pool_orders_update [simp]:
  "free_slots (p\<lparr>orders := os\<rparr>) = free_slots p" "all_slots (p\<lparr>orders := os\<rparr>) = all_slots p"
  by (simp_all add: free_slots_def all_slots_def)

lemma pool_inv_orders_update:
  "pool_inv p \<Longrightarrow> length os = length (orders p) \<Longrightarrow> pool_inv (p\<lparr>orders := os\<rparr>)"
  by (simp add: pool_inv_def)

lemma free_top_zero_iff: "pool_inv p \<Longrightarrow> free_top p = 0 \<longleftrightarrow> free_slots p = {}"
  using card_free_slots [of p] by (auto simp: unat_0_iff)

lemma take_Suc_nth_distinct:
  assumes "distinct (take (Suc n) xs)" and "n < length xs"
  shows "set (take n xs) = set (take (Suc n) xs) - {xs ! n}" and "xs ! n \<in> set (take (Suc n) xs)"
  using assms by (auto simp: take_Suc_conv_app_nth)

lemma allocate_none: "pool_inv p \<Longrightarrow> free_slots p = {} \<Longrightarrow> allocate p = Some (None, p)"
  by (simp add: allocate_def free_top_zero_iff)

lemma allocate_some:
  assumes inv: "pool_inv p" and free: "free_slots p \<noteq> {}"
  obtains i p' where "allocate p = Some (Some i, p')" "i \<in> free_slots p" "pool_inv p'"
    "free_slots p' = free_slots p - {i}" "orders p' = orders p" "max_orders p' = max_orders p"
proof -
  let ?t = "free_top p - 1" and ?n = "unat (free_top p) - 1"
  have nz: "free_top p \<noteq> 0" using free_top_zero_iff [OF inv] free by simp
  then have t: "unat ?t = ?n" and pos: "0 < unat (free_top p)" by (simp_all add: unat_dec unat_gt_0)
  have len: "?n < length (free_stack p)" using inv pos unfolding pool_inv_def by linarith
  have S: "unat (free_top p) = Suc ?n" using pos by simp
  have d: "distinct (take (Suc ?n) (free_stack p))" using inv S by (simp add: pool_inv_def)
  have d': "distinct (take ?n (free_stack p))"
    using distinct_take [OF d, of ?n] by (simp add: min_def)
  let ?i = "free_stack p ! ?n" and ?p = "p\<lparr>free_top := ?t\<rparr>"
  have run: "allocate p = Some (Some ?i, ?p)"
    using nz len t by (simp add: allocate_def)
  have fs: "free_slots ?p = free_slots p - {?i}" and mem: "?i \<in> free_slots p"
    using take_Suc_nth_distinct [OF d len] S t by (simp_all add: free_slots_def)
  have "pool_inv ?p"
    using inv d' t fs by (auto simp: pool_inv_def all_slots_def)
  with run mem fs show ?thesis by (intro that [of ?i ?p]) simp_all
qed

lemma release_slot:
  assumes inv: "pool_inv p" and x: "x \<in> all_slots p" "x \<notin> free_slots p"
  obtains p' where "release p x = Some p'" "pool_inv p'" "free_slots p' = insert x (free_slots p)"
    "orders p' = orders p" "max_orders p' = max_orders p"
proof -
  let ?t = "unat (free_top p)" and ?p = "p\<lparr>free_stack := (free_stack p)[unat (free_top p) := x],
    free_top := free_top p + 1\<rparr>"
  have "free_slots p \<subset> all_slots p" using inv x by (auto simp: pool_inv_def)
  then have "card (free_slots p) < card (all_slots p)" by (rule psubset_card_mono [OF all_slots_finite])
  then have lt: "?t < unat (max_orders p)"
    using inv by (simp add: card_free_slots card_all_slots pool_inv_def)
  then have ltw: "free_top p < max_orders p" by (simp add: word_less_nat_alt)
  have len: "?t < length (free_stack p)" using inv lt by (simp add: pool_inv_def)
  have t': "unat (free_top p + 1) = Suc ?t" by (rule unat_inc [OF ltw])
  have tk: "take (Suc ?t) ((free_stack p)[?t := x]) = take ?t (free_stack p) @ [x]"
    using len by (simp add: take_Suc_conv_app_nth)
  have run: "release p x = Some ?p"
    using slot_in_bounds [OF inv x(1)] ltw len by (simp add: release_def)
  have fs: "free_slots ?p = insert x (free_slots p)"
    by (simp add: free_slots_def t' tk)
  have "pool_inv ?p"
    using inv x lt fs by (auto simp: pool_inv_def t' tk all_slots_def free_slots_def)
  with run fs show ?thesis by (intro that [of ?p]) simp_all
qed

subsection \<open>The allocator's contract\<close>

text \<open>
  What a client of the pool relies on. \<open>cells\<close> is the storage that allocation and
  release leave alone; the slots in use are those that are not free.
\<close>

locale slot_allocator =
  fixes alloc :: "'p \<Rightarrow> ('i option \<times> 'p) option"
    and free_slot :: "'p \<Rightarrow> 'i \<Rightarrow> 'p option"
    and inv :: "'p \<Rightarrow> bool"
    and free :: "'p \<Rightarrow> 'i set"
    and slots :: "'p \<Rightarrow> 'i set"
    and cells :: "'p \<Rightarrow> 'c"
  assumes alloc_none: "inv p \<Longrightarrow> free p = {} \<Longrightarrow> alloc p = Some (None, p)"
    and alloc_some: "inv p \<Longrightarrow> free p \<noteq> {} \<Longrightarrow>
      \<exists>i p'. alloc p = Some (Some i, p') \<and> inv p' \<and> i \<in> free p \<and> free p' = free p - {i} \<and>
             slots p' = slots p \<and> cells p' = cells p"
    and release_some: "inv p \<Longrightarrow> i \<in> slots p - free p \<Longrightarrow>
      \<exists>p'. free_slot p i = Some p' \<and> inv p' \<and> free p' = insert i (free p) \<and>
           slots p' = slots p \<and> cells p' = cells p"
    and free_sub: "inv p \<Longrightarrow> free p \<subseteq> slots p"
begin

lemma alloc_live:
  assumes "inv p" and "free p \<noteq> {}"
  obtains i p' where "alloc p = Some (Some i, p')" "inv p'" "i \<in> slots p" "i \<notin> slots p - free p"
    "slots p' - free p' = insert i (slots p - free p)" "slots p' = slots p" "cells p' = cells p"
proof -
  from alloc_some [OF assms] obtain i p' where
    *: "alloc p = Some (Some i, p')" "inv p'" "i \<in> free p" "free p' = free p - {i}"
       "slots p' = slots p" "cells p' = cells p" by blast
  moreover have "i \<in> slots p" using free_sub assms(1) *(3) by blast
  ultimately show ?thesis by (intro that [of i p']) auto
qed

lemma release_live:
  assumes "inv p" and "i \<in> slots p - free p"
  obtains p' where "free_slot p i = Some p'" "inv p'" "slots p' - free p' = slots p - free p - {i}"
    "slots p' = slots p" "cells p' = cells p"
proof -
  from release_some [OF assms] obtain p' where
    "free_slot p i = Some p'" "inv p'" "free p' = insert i (free p)"
    "slots p' = slots p" "cells p' = cells p" by blast
  then show ?thesis by (intro that [of p']) auto
qed

lemma alloc_outcome:
  assumes "inv p" and "alloc p = Some (r, p')"
  shows "inv p' \<and> cells p' = cells p \<and>
    (case r of None \<Rightarrow> free p = {} \<and> p' = p | Some i \<Rightarrow> i \<in> free p \<and> i \<notin> free p')"
proof (cases "free p = {}")
  case True
  then show ?thesis using alloc_none [OF assms(1)] assms by auto
next
  case False
  then show ?thesis using alloc_some [OF assms(1)] assms(2) by auto
qed

end

interpretation pool: slot_allocator allocate release pool_inv free_slots all_slots orders
proof unfold_locales
  show "allocate p = Some (None, p)" if "pool_inv p" "free_slots p = {}" for p
    using that by (rule allocate_none)
  show "\<exists>i p'. allocate p = Some (Some i, p') \<and> pool_inv p' \<and> i \<in> free_slots p \<and>
      free_slots p' = free_slots p - {i} \<and> all_slots p' = all_slots p \<and> orders p' = orders p"
    if "pool_inv p" "free_slots p \<noteq> {}" for p
    by (rule allocate_some [OF that]) (auto simp: all_slots_def)
  show "\<exists>p'. release p i = Some p' \<and> pool_inv p' \<and> free_slots p' = insert i (free_slots p) \<and>
      all_slots p' = all_slots p \<and> orders p' = orders p"
    if "pool_inv p" "i \<in> all_slots p - free_slots p" for p i
    by (rule release_slot [of p i]) (use that in \<open>simp_all add: all_slots_def\<close>)
  show "free_slots p \<subseteq> all_slots p" if "pool_inv p" for p
    using that by (simp add: pool_inv_def)
qed

text \<open>The slots in use, and the counters the class reports about them.\<close>

definition live_slots :: "OrderPool \<Rightarrow> OrderIndex set" where
  "live_slots p = all_slots p - free_slots p"

lemma unat_used:
  assumes "pool_inv p"
  shows "unat (used p) = card (live_slots p)"
proof -
  have "card (live_slots p) = card (all_slots p) - card (free_slots p)"
    using assms by (simp add: live_slots_def card_Diff_subset pool_inv_def)
  also have "\<dots> = unat (max_orders p) - unat (free_top p)"
    using assms by (simp add: card_all_slots card_free_slots pool_inv_def)
  also have "\<dots> = unat (used p)"
    using assms by (simp add: used_def unat_sub word_le_nat_alt pool_inv_def)
  finally show ?thesis ..
qed

lemma pool_empty_iff: "pool_inv p \<Longrightarrow> pool_empty p \<longleftrightarrow> live_slots p = {}"
proof -
  assume inv: "pool_inv p"
  have "live_slots p = {} \<longleftrightarrow> card (live_slots p) = 0" by (simp add: live_slots_def)
  also have "\<dots> \<longleftrightarrow> used p = 0"
    by (simp only: unat_used [OF inv, symmetric] unat_0_iff)
  finally show ?thesis by (auto simp: pool_empty_def used_def)
qed

lemma release_allocate:
  assumes "pool_inv p" and "x \<in> live_slots p" and "release p x = Some p'"
  shows "\<exists>p''. allocate p' = Some (Some x, p'') \<and> free_slots p'' = free_slots p"
proof -
  have lt: "free_top p < max_orders p" and len: "unat (free_top p) < length (free_stack p)"
    and p': "p' = p\<lparr>free_stack := (free_stack p)[unat (free_top p) := x], free_top := free_top p + 1\<rparr>"
    using assms by (auto simp: release_def write_at_def bind_eq_Some_conv assert_that_def split: if_splits)
  have "free_top p + 1 \<noteq> 0" using unat_inc [OF lt] by (metis Zero_not_Suc unat_0)
  then show ?thesis using len by (simp add: allocate_def p' free_slots_def)
qed

text \<open>Giving back the slot just handed out restores the pool exactly.\<close>

lemma allocate_release:
  assumes "pool_inv p" and "allocate p = Some (Some i, p')"
  shows "release p' i = Some p"
proof -
  let ?t = "free_top p - 1"
  have nz: "free_top p \<noteq> 0" and i: "unat ?t < length (free_stack p)" "i = free_stack p ! unat ?t"
      and p': "p' = p\<lparr>free_top := ?t\<rparr>"
    using assms(2) by (auto simp: allocate_def read_at_def Let_def bind_eq_Some_conv split: if_splits)
  have t: "unat ?t = unat (free_top p) - 1" by (rule unat_dec [OF nz])
  have "unat ?t < unat (free_top p)" using nz t by (simp add: unat_gt_0)
  then have "?t < max_orders p"
    using assms(1) by (simp add: word_less_nat_alt pool_inv_def)
  moreover have "i \<in> free_slots p"
    using pool.alloc_outcome [OF assms] by simp
  then have "ucast i < max_orders p"
    using assms(1) slot_in_bounds(2) [OF assms(1)] by (auto simp: pool_inv_def)
  ultimately show ?thesis
    using i by (simp add: release_def p')
qed

lemma live_slots_le: "pool_inv p \<Longrightarrow> card (live_slots p) \<le> unat (max_orders p)"
  using card_mono [of "all_slots p" "live_slots p"]
  by (auto simp: live_slots_def card_all_slots pool_inv_def)

subsection \<open>What the pool promises\<close>

text \<open>Allocating up to \<open>k\<close> slots, as a caller that keeps asking would.\<close>

fun allocate_many :: "OrderPool \<Rightarrow> nat \<Rightarrow> (OrderIndex list \<times> OrderPool) option" where
  "allocate_many p 0 = Some ([], p)"
| "allocate_many p (Suc k) = do {
     (idx, p) \<leftarrow> allocate p;
     case idx of
       None \<Rightarrow> Some ([], p)
     | Some i \<Rightarrow> do { (is, p) \<leftarrow> allocate_many p k; Some (i # is, p) }
   }"

lemma allocate_many_run:
  "pool_inv p \<Longrightarrow> \<exists>is p'. allocate_many p k = Some (is, p') \<and> pool_inv p' \<and> distinct is \<and>
     set is \<subseteq> free_slots p \<and> free_slots p' = free_slots p - set is \<and> length is = min k (card (free_slots p))"
proof (induction k arbitrary: p)
  case (Suc k)
  show ?case
  proof (cases "free_slots p = {}")
    case True
    then show ?thesis using Suc.prems by (simp add: allocate_none)
  next
    case False
    obtain i p1 where a: "allocate p = Some (Some i, p1)" "i \<in> free_slots p" "pool_inv p1"
        "free_slots p1 = free_slots p - {i}"
      by (rule allocate_some [OF Suc.prems False])
    obtain "is" p' where b: "allocate_many p1 k = Some (is, p')" "pool_inv p'" "distinct is"
        "set is \<subseteq> free_slots p1" "free_slots p' = free_slots p1 - set is" "length is = min k (card (free_slots p1))"
      using Suc.IH [OF a(3)] by blast
    have "card (free_slots p) = Suc (card (free_slots p1))"
      unfolding a(4) by (rule card.remove [OF free_slots_finite a(2)])
    moreover have "allocate_many p (Suc k) = Some (i # is, p')" using a(1) b(1) by simp
    moreover have "distinct (i # is)" "set (i # is) \<subseteq> free_slots p"
      using a(2,4) b(3,4) by auto
    moreover have "free_slots p' = free_slots p - set (i # is)" using a(4) b(5) by auto
    ultimately show ?thesis using b(2,6)
      by (intro exI [of _ "i # is"] exI [of _ p'] conjI) simp_all
  qed
qed auto

text \<open>A pool of two slots, for the examples below.\<close>

lemma pool_of_two:
  "order_pool_new 2 = \<lparr>max_orders = 2, orders = replicate 2 default_order, free_stack = [0, 1], free_top = 2\<rparr>"
proof -
  have "[0..<2] = [0, 1::nat]" by (simp add: upt_conv_Cons)
  then show ?thesis by (simp add: order_pool_new_def)
qed

lemma allocate_from_two:
  "allocate (order_pool_new 2) = Some (Some 1, (order_pool_new 2)\<lparr>free_top := 1\<rparr>)"
  by (simp add: allocate_def pool_of_two read_at_def)

text \<open>C23: allocating takes a free slot, which becomes live and was not, and leaves every
  stored order alone; the pool refuses only when no slot is free, and then nothing changes.\<close>

theorem pool_allocate_fresh:
  assumes "pool_inv p"
  shows "\<exists>r p'. allocate p = Some (r, p') \<and> pool_inv p' \<and> orders p' = orders p \<and>
    (case r of
       None \<Rightarrow> p' = p \<and> live_slots p = all_slots p
     | Some i \<Rightarrow> i \<in> all_slots p \<and> i \<notin> live_slots p \<and> live_slots p' = insert i (live_slots p))"
proof (cases "free_slots p = {}")
  case True
  then show ?thesis using assms allocate_none by (auto simp: live_slots_def)
next
  case False
  obtain i p' where *: "allocate p = Some (Some i, p')" "pool_inv p'" "orders p' = orders p"
      "i \<in> all_slots p" "i \<notin> live_slots p" "live_slots p' = insert i (live_slots p)"
  proof (rule pool.alloc_live [OF assms False])
    fix j q
    assume "allocate p = Some (Some j, q)" "pool_inv q" "orders q = orders p" "j \<in> all_slots p"
      "j \<notin> all_slots p - free_slots p"
      "all_slots q - free_slots q = insert j (all_slots p - free_slots p)"
    then show thesis unfolding live_slots_def [symmetric] by (intro that [of j q])
  qed
  then show ?thesis by (intro exI [of _ "Some i"] exI [of _ p']) simp
qed

theorem pool_allocate_fresh_witness:
  "\<exists>p'. allocate (order_pool_new 2) = Some (Some 1, p') \<and> pool_inv p' \<and> 1 \<in> live_slots p'"
proof -
  have inv: "pool_inv (order_pool_new 2)" by (rule pool_inv_new) simp
  show ?thesis using pool_allocate_fresh [OF inv] allocate_from_two by auto
qed

text \<open>C24: a new pool hands out its slots one by one, each once, exactly as many as it
  was made for, however many are asked for.\<close>

theorem pool_allocates_each_once:
  assumes "unat n < 2 ^ 32"
  shows "\<exists>is p'. allocate_many (order_pool_new n) k = Some (is, p') \<and> distinct is \<and>
    length is = min k (unat n) \<and> set is = live_slots p' \<and> unat (used p') = length is"
proof -
  note new = pool_inv_new [OF assms]
  have live0: "live_slots (order_pool_new n) = {}" using new by (simp add: live_slots_def)
  have free0: "free_slots (order_pool_new n) = all_slots (order_pool_new n)" using new by simp
  have "card (free_slots (order_pool_new n)) = unat n"
    using new(1) by (simp add: card_free_slots) (simp add: order_pool_new_def)
  then obtain "is" p' where r: "allocate_many (order_pool_new n) k = Some (is, p')" "pool_inv p'" "distinct is"
      "set is \<subseteq> free_slots (order_pool_new n)" "free_slots p' = free_slots (order_pool_new n) - set is"
      "length is = min k (unat n)"
    using allocate_many_run [OF new(1), of k] by auto
  have mx: "allocate_many p j = Some (js, q) \<Longrightarrow> max_orders q = max_orders p" for p j js q
  proof (induction j arbitrary: p js)
    case (Suc j)
    then show ?case
      by (auto simp: bind_eq_Some_conv allocate_def Let_def split: if_splits option.splits)
  qed simp
  have "all_slots p' = all_slots (order_pool_new n)" using mx [OF r(1)] by (simp add: all_slots_def)
  then have "live_slots p' = set is" using r(4,5) free0 by (auto simp: live_slots_def)
  moreover from this have "unat (used p') = length is"
    using unat_used [OF r(2)] r(3) by (simp add: distinct_card)
  ultimately show ?thesis using r by blast
qed

theorem pool_allocates_each_once_witness:
  "\<exists>is p'. allocate_many (order_pool_new 3) 5 = Some (is, p') \<and> distinct is \<and> length is = 3"
  using pool_allocates_each_once [of 3 5] by auto

text \<open>C25: a released slot is the next one handed out, and giving back the slot just
  handed out restores the pool.\<close>

theorem pool_reuses_last_released:
  assumes "pool_inv p"
  shows "(\<forall>x p'. x \<in> live_slots p \<and> release p x = Some p' \<longrightarrow>
      (\<exists>p''. allocate p' = Some (Some x, p'') \<and> free_slots p'' = free_slots p)) \<and>
    (\<forall>i p'. allocate p = Some (Some i, p') \<longrightarrow> release p' i = Some p)"
  using release_allocate [OF assms] allocate_release [OF assms] by blast

theorem pool_reuses_last_released_witness:
  "release ((order_pool_new 2)\<lparr>free_top := 1\<rparr>) 1 = Some (order_pool_new 2)"
proof -
  have "pool_inv (order_pool_new 2)" by (rule pool_inv_new) simp
  then show ?thesis using pool_reuses_last_released allocate_from_two by blast
qed

end
