(* ===== verification/Price_Queue.thy ===== *)
theory Price_Queue
  imports Order_Pool
begin

text \<open>
  The FIFO queue of one price level: the private members \<open>append_to_level\<close>,
  \<open>unlink_from_level\<close> and \<open>reduce_order_quantity\<close> of \<open>FixedClob\<close>. A level is a doubly
  linked list threaded through the orders of the pool by \<open>next_idx\<close> and \<open>prev_idx\<close>;
  the level holds its ends, its length and its total quantity.

  The functions take references to a level and to the pool, which do not overlap, so
  the model passes both and returns both. \<open>level_inv os l q\<close> says that the level \<open>l\<close>
  over the pool's orders \<open>os\<close> represents the list of slots \<open>q\<close>; the lemmas show that
  the three operations append to, remove from, and keep that list.
\<close>

definition append_to_level ::
    "OrderPool \<Rightarrow> PriceLevel \<Rightarrow> OrderIndex \<Rightarrow> (OrderPool \<times> PriceLevel) option" where
  "append_to_level p l idx = do {
     pool_get p idx;
     (p, l) \<leftarrow>
       (if level_empty l then do {
          p \<leftarrow> pool_modify p idx
             (\<lambda>ord. ord\<lparr>prev_idx := null_order_index, next_idx := null_order_index\<rparr>);
          Some (p, l\<lparr>head_idx := idx, tail_idx := idx\<rparr>)
        } else do {
          p \<leftarrow> pool_modify p (tail_idx l) (\<lambda>ord. ord\<lparr>next_idx := idx\<rparr>);
          p \<leftarrow> pool_modify p idx
             (\<lambda>ord. ord\<lparr>prev_idx := tail_idx l, next_idx := null_order_index\<rparr>);
          Some (p, l\<lparr>tail_idx := idx\<rparr>)
        });
     ord \<leftarrow> pool_get p idx;
     Some (p, l\<lparr>total_qty := total_qty l + qty ord, order_count := order_count l + 1\<rparr>)
   }"

definition unlink_from_level ::
    "OrderPool \<Rightarrow> PriceLevel \<Rightarrow> OrderIndex \<Rightarrow> (OrderPool \<times> PriceLevel) option" where
  "unlink_from_level p l idx = do {
     ord \<leftarrow> pool_get p idx;
     let prev = prev_idx ord;
     let next = next_idx ord;
     (p, l) \<leftarrow>
       (if prev \<noteq> null_order_index then do {
          p \<leftarrow> pool_modify p prev (\<lambda>ord. ord\<lparr>next_idx := next\<rparr>);
          Some (p, l)
        } else Some (p, l\<lparr>head_idx := next\<rparr>));
     (p, l) \<leftarrow>
       (if next \<noteq> null_order_index then do {
          p \<leftarrow> pool_modify p next (\<lambda>ord. ord\<lparr>prev_idx := prev\<rparr>);
          Some (p, l)
        } else Some (p, l\<lparr>tail_idx := prev\<rparr>));
     p \<leftarrow> pool_modify p idx
        (\<lambda>ord. ord\<lparr>prev_idx := null_order_index, next_idx := null_order_index\<rparr>);
     ord \<leftarrow> pool_get p idx;
     Some (p, l\<lparr>total_qty := total_qty l - qty ord, order_count := order_count l - 1\<rparr>)
   }"

definition reduce_order_quantity ::
    "OrderPool \<Rightarrow> PriceLevel \<Rightarrow> OrderIndex \<Rightarrow> Quantity \<Rightarrow> (OrderPool \<times> PriceLevel) option" where
  "reduce_order_quantity p l idx traded_qty = do {
     ord \<leftarrow> pool_get p idx;
     assert_that (qty ord > traded_qty);
     p \<leftarrow> pool_modify p idx (\<lambda>ord. ord\<lparr>qty := qty ord - traded_qty\<rparr>);
     Some (p, l\<lparr>total_qty := total_qty l - traded_qty\<rparr>)
   }"

subsection \<open>Orders by slot\<close>

definition ord_at :: "Order list \<Rightarrow> OrderIndex \<Rightarrow> Order" where
  "ord_at os x = os ! unat x"

lemma ord_at_update [simp]:
  "unat x < length os \<Longrightarrow> ord_at (os[unat x := v]) y = (if y = x then v else ord_at os y)"
  by (auto simp: ord_at_def nth_list_update)

text \<open>The fields that the queue operations on links never touch.\<close>

definition same_data :: "Order \<Rightarrow> Order \<Rightarrow> bool" where
  "same_data a b \<longleftrightarrow> order_id a = order_id b \<and> price a = price b \<and> qty a = qty b \<and> side a = side b"

lemma same_data_simps [simp]:
  "same_data a a"
  "same_data (a\<lparr>next_idx := n\<rparr>) b = same_data a b"
  "same_data (a\<lparr>prev_idx := n\<rparr>) b = same_data a b"
  by (auto simp: same_data_def)

subsection \<open>Linked segments\<close>

fun seg :: "Order list \<Rightarrow> OrderIndex \<Rightarrow> OrderIndex list \<Rightarrow> OrderIndex \<Rightarrow> bool" where
  "seg os p [] n \<longleftrightarrow> True"
| "seg os p (x # xs) n \<longleftrightarrow> prev_idx (ord_at os x) = p \<and> next_idx (ord_at os x) = hd_or n xs \<and>
     seg os x xs n"

lemma seg_append:
  "seg os p (xs @ ys) n \<longleftrightarrow> seg os p xs (hd_or n ys) \<and> seg os (last_or p xs) ys n"
  by (induction xs arbitrary: p) (auto simp: hd_or_append)

lemma seg_cong:
  "(\<And>x. x \<in> set xs \<Longrightarrow> ord_at os' x = ord_at os x) \<Longrightarrow> seg os' p xs n \<longleftrightarrow> seg os p xs n"
  by (induction xs arbitrary: p) auto

lemma seg_relink_last:
  assumes "seg os p xs m"
    and "\<And>x. x \<in> set xs \<Longrightarrow> prev_idx (ord_at os' x) = prev_idx (ord_at os x)"
    and "\<And>x. x \<in> set (butlast xs) \<Longrightarrow> next_idx (ord_at os' x) = next_idx (ord_at os x)"
    and "xs \<noteq> [] \<Longrightarrow> next_idx (ord_at os' (last xs)) = m'"
  shows "seg os' p xs m'"
  using assms
proof (induction xs arbitrary: p)
  case (Cons x xs)
  then show ?case by (cases xs) auto
qed simp

lemma seg_relink_first:
  assumes "seg os p xs n"
    and "\<And>x. x \<in> set xs \<Longrightarrow> next_idx (ord_at os' x) = next_idx (ord_at os x)"
    and "\<And>x. x \<in> set (tl xs) \<Longrightarrow> prev_idx (ord_at os' x) = prev_idx (ord_at os x)"
    and "xs \<noteq> [] \<Longrightarrow> prev_idx (ord_at os' (hd xs)) = p'"
  shows "seg os' p' xs n"
proof (cases xs)
  case (Cons x ys)
  have "seg os' q ys n" if "seg os q ys n" for q
    using that assms(2,3) unfolding Cons by (induction ys arbitrary: q) auto
  with assms Cons show ?thesis by auto
qed simp

subsection \<open>Levels\<close>

definition level_inv :: "Order list \<Rightarrow> PriceLevel \<Rightarrow> OrderIndex list \<Rightarrow> bool" where
  "level_inv os l q \<longleftrightarrow>
     distinct q \<and>
     head_idx l = hd_or null_order_index q \<and>
     tail_idx l = last_or null_order_index q \<and>
     seg os null_order_index q null_order_index \<and>
     order_count l = word_of_nat (length q) \<and>
     total_qty l = (\<Sum>x\<leftarrow>q. qty (ord_at os x))"

lemma level_inv_default: "level_inv os default_level []"
  by (simp add: level_inv_def default_level_def)

lemma level_inv_cong:
  assumes "\<And>x. x \<in> set q \<Longrightarrow> ord_at os' x = ord_at os x"
  shows "level_inv os' l q \<longleftrightarrow> level_inv os l q"
proof -
  have "map (\<lambda>x. qty (ord_at os' x)) q = map (\<lambda>x. qty (ord_at os x)) q"
    using assms by simp
  then show ?thesis using seg_cong [OF assms] by (simp add: level_inv_def cong: map_cong)
qed

lemma distinct_slots_length:
  assumes "distinct (q :: OrderIndex list)"
  shows "length q \<le> 2 ^ 32"
proof -
  have "length q = card (set q)" using assms by (simp add: distinct_card)
  also have "\<dots> \<le> card (UNIV :: OrderIndex set)" by (rule card_mono) auto
  also have "\<dots> = 2 ^ 32" by (simp add: card_word)
  finally show ?thesis .
qed

lemma level_count: "level_inv os l q \<Longrightarrow> unat (order_count l) = length q"
  using distinct_slots_length [of q] by (auto simp: level_inv_def unat_of_nat_less)

lemma level_empty_iff: "level_inv os l q \<Longrightarrow> level_empty l \<longleftrightarrow> q = []"
  using level_count [of os l q] unat_0_iff [of "order_count l"] by (auto simp: level_empty_def)

lemma level_nonempty_pos: "level_inv os l q \<Longrightarrow> 0 < order_count l \<longleftrightarrow> q \<noteq> []"
  using level_empty_iff [of os l q] by (simp add: level_empty_def word_neq_0_conv [symmetric])

subsection \<open>The three operations on a level\<close>

text \<open>
  How the orders of the pool may differ after an operation on the queue of the slots
  \<open>A\<close>: the same number of slots, nothing outside \<open>A\<close> touched.
\<close>

definition touches :: "OrderIndex set \<Rightarrow> Order list \<Rightarrow> Order list \<Rightarrow> bool" where
  "touches A os os' \<longleftrightarrow> length os' = length os \<and> (\<forall>x. x \<notin> A \<longrightarrow> ord_at os' x = ord_at os x)"

lemma touches_mono: "touches A os os' \<Longrightarrow> A \<subseteq> B \<Longrightarrow> touches B os os'"
  by (auto simp: touches_def)

lemma sum_qty_same_data:
  assumes "\<And>x. x \<in> set q \<Longrightarrow> same_data (ord_at os' x) (ord_at os x)"
  shows "(\<Sum>x\<leftarrow>q. qty (ord_at os' x)) = (\<Sum>x\<leftarrow>q. qty (ord_at os x))"
proof -
  have "map (\<lambda>x. qty (ord_at os' x)) q = map (\<lambda>x. qty (ord_at os x)) q"
    using assms by (simp add: same_data_def)
  then show ?thesis by (rule arg_cong)
qed

lemma append_to_level_run:
  assumes p: "pool_inv p" and q: "set q \<subseteq> all_slots p" and idx: "idx \<in> all_slots p" "idx \<notin> set q"
    and l: "level_inv (orders p) l q"
  obtains os' l' where
    "append_to_level p l idx = Some (p\<lparr>orders := os'\<rparr>, l')"
    "touches (insert idx (set q)) (orders p) os'"
    "\<And>x. same_data (ord_at os' x) (ord_at (orders p) x)"
    "level_inv os' l' (q @ [idx])"
proof (cases "q = []")
  case True
  let ?os = "(orders p)[unat idx := ord_at (orders p) idx
      \<lparr>prev_idx := null_order_index, next_idx := null_order_index\<rparr>]"
  let ?l = "l\<lparr>head_idx := idx, tail_idx := idx, total_qty := total_qty l + qty (ord_at (orders p) idx),
     order_count := order_count l + 1\<rparr>"
  have len: "unat idx < length (orders p)" using slot_in_bounds [OF p idx(1)] by simp
  have "append_to_level p l idx = Some (p\<lparr>orders := ?os\<rparr>, ?l)"
    using True p idx level_empty_iff [OF l] len
    by (simp add: append_to_level_def run_simps pool_inv_orders_update ord_at_def)
  moreover have "level_inv ?os ?l (q @ [idx])"
    using True len l by (simp add: level_inv_def)
  ultimately show ?thesis
    using len by (intro that [of ?os ?l]) (auto simp: touches_def)
next
  case False
  let ?z = "last q"
  have tail: "tail_idx l = ?z" using l False by (simp add: level_inv_def last_or_nonempty)
  have z: "?z \<in> set q" "?z \<noteq> idx" using False idx(2) by auto
  then have zs: "?z \<in> all_slots p" using q by auto
  let ?os1 = "(orders p)[unat ?z := ord_at (orders p) ?z\<lparr>next_idx := idx\<rparr>]"
  let ?os = "?os1[unat idx := ord_at (orders p) idx\<lparr>prev_idx := ?z, next_idx := null_order_index\<rparr>]"
  let ?l = "l\<lparr>tail_idx := idx, total_qty := total_qty l + qty (ord_at (orders p) idx),
     order_count := order_count l + 1\<rparr>"
  have len: "unat idx < length (orders p)" "unat ?z < length (orders p)"
    using slot_in_bounds [OF p] idx(1) zs by simp_all
  have nth: "(orders p)[unat ?z := v] ! unat idx = ord_at (orders p) idx" for v
    using z(2) by (simp add: ord_at_def)
  have run: "append_to_level p l idx = Some (p\<lparr>orders := ?os\<rparr>, ?l)"
    using False p idx zs level_empty_iff [OF l] len
    by (simp add: append_to_level_def run_simps pool_inv_orders_update tail nth)
       (simp add: ord_at_def)
  have data: "same_data (ord_at ?os x) (ord_at (orders p) x)" for x
    using len z(2) by auto
  have at: "ord_at ?os x = ord_at (orders p) x" if "x \<noteq> idx" "x \<noteq> ?z" for x
    using len that by simp
  have "seg ?os null_order_index (q @ [idx]) null_order_index"
  proof -
    have "seg ?os null_order_index q idx"
    proof (rule seg_relink_last)
      show "seg (orders p) null_order_index q null_order_index" using l by (simp add: level_inv_def)
      show "next_idx (ord_at ?os (last q)) = idx" using len z(2) by simp
      show "prev_idx (ord_at ?os x) = prev_idx (ord_at (orders p) x)" if "x \<in> set q" for x
        using that idx(2) len by auto
      show "next_idx (ord_at ?os x) = next_idx (ord_at (orders p) x)" if "x \<in> set (butlast q)" for x
      proof -
        have "x \<noteq> ?z" using that last_notin_butlast [of q] l False by (auto simp: level_inv_def)
        moreover have "x \<noteq> idx" using that idx(2) in_set_butlastD by metis
        ultimately show ?thesis using at by simp
      qed
    qed
    then show ?thesis using len False by (simp add: seg_append last_or_nonempty)
  qed
  moreover have "(\<Sum>x\<leftarrow>q @ [idx]. qty (ord_at ?os x)) = total_qty l + qty (ord_at (orders p) idx)"
    using sum_qty_same_data [of "q @ [idx]" ?os "orders p"] data l by (simp add: level_inv_def)
  ultimately have "level_inv ?os ?l (q @ [idx])"
    using l False idx(2) by (simp add: level_inv_def hd_or_append) (cases q; simp)
  with run show ?thesis
    using data at z by (intro that [of ?os ?l]) (auto simp: touches_def)
qed

lemma unlink_from_level_run:
  assumes p: "pool_inv p" and q: "set (xs @ x # ys) \<subseteq> all_slots p"
    and l: "level_inv (orders p) l (xs @ x # ys)"
  obtains os' l' where
    "unlink_from_level p l x = Some (p\<lparr>orders := os'\<rparr>, l')"
    "touches (set (xs @ x # ys)) (orders p) os'"
    "\<And>y. same_data (ord_at os' y) (ord_at (orders p) y)"
    "level_inv os' l' (xs @ ys)"
proof -
  let ?N = null_order_index and ?os = "orders p"
  let ?pr = "last_or ?N xs" and ?nx = "hd_or ?N ys"
  have N: "?N \<notin> all_slots p" using null_not_slot [OF p] .
  have slots: "x \<in> all_slots p" "set xs \<subseteq> all_slots p" "set ys \<subseteq> all_slots p" using q by auto
  have dist: "distinct xs" "distinct ys" "x \<notin> set xs" "x \<notin> set ys" "set xs \<inter> set ys = {}"
    using l by (auto simp: level_inv_def)
  have segs: "seg ?os ?N xs x" "prev_idx (ord_at ?os x) = ?pr" "next_idx (ord_at ?os x) = ?nx"
      "seg ?os x ys ?N"
    using l by (simp_all add: level_inv_def seg_append)
  have pr: "?pr \<noteq> ?N \<longleftrightarrow> xs \<noteq> []" using N slots(2) last_or_in [of xs ?N]
    by (cases "xs = []") (auto dest: subsetD)
  have nx: "?nx \<noteq> ?N \<longleftrightarrow> ys \<noteq> []" using N slots(3) hd_or_in [of ys ?N]
    by (cases "ys = []") (auto dest: subsetD)
  have prs: "?pr \<in> set xs" if "xs \<noteq> []" using last_or_in [OF that] .
  have nxs: "?nx \<in> set ys" if "ys \<noteq> []" using hd_or_in [OF that] .
  define os1 where "os1 = (if xs \<noteq> [] then ?os[unat ?pr := ord_at ?os ?pr\<lparr>next_idx := ?nx\<rparr>] else ?os)"
  define os2 where "os2 = (if ys \<noteq> [] then os1[unat ?nx := ord_at os1 ?nx\<lparr>prev_idx := ?pr\<rparr>] else os1)"
  define os3 where "os3 = os2[unat x := ord_at os2 x\<lparr>prev_idx := ?N, next_idx := ?N\<rparr>]"
  let ?l1 = "if xs \<noteq> [] then l else l\<lparr>head_idx := ?nx\<rparr>"
  let ?l2 = "if ys \<noteq> [] then ?l1 else ?l1\<lparr>tail_idx := ?pr\<rparr>"
  let ?l3 = "?l2\<lparr>total_qty := total_qty l - qty (ord_at ?os x), order_count := order_count l - 1\<rparr>"
  have len: "unat y < length ?os" if "y \<in> all_slots p" for y using slot_in_bounds [OF p that] by simp
  have lens: "length os1 = length ?os" "length os2 = length ?os" "length os3 = length ?os"
    by (simp_all add: os1_def os2_def os3_def)
  have at1: "ord_at os1 y = (if xs \<noteq> [] \<and> y = ?pr then ord_at ?os y\<lparr>next_idx := ?nx\<rparr> else ord_at ?os y)" for y
    using len prs slots by (auto simp: os1_def)
  have at2: "ord_at os2 y = (if ys \<noteq> [] \<and> y = ?nx then ord_at os1 y\<lparr>prev_idx := ?pr\<rparr> else ord_at os1 y)" for y
    using len nxs slots lens by (auto simp: os2_def)
  have at3: "ord_at os3 y = (if y = x then ord_at os2 y\<lparr>prev_idx := ?N, next_idx := ?N\<rparr> else ord_at os2 y)" for y
    using len slots lens by (auto simp: os3_def)
  have data: "same_data (ord_at os3 y) (ord_at ?os y)" for y by (simp add: at1 at2 at3)
  have inv: "pool_inv (p\<lparr>orders := os1\<rparr>)" "pool_inv (p\<lparr>orders := os2\<rparr>)" "pool_inv (p\<lparr>orders := os3\<rparr>)"
    using p lens by (simp_all add: pool_inv_orders_update)
  have step1: "(if ?pr \<noteq> ?N then do { p \<leftarrow> pool_modify p ?pr (\<lambda>ord. ord\<lparr>next_idx := ?nx\<rparr>); Some (p, l) }
      else Some (p, l\<lparr>head_idx := ?nx\<rparr>)) = Some (p\<lparr>orders := os1\<rparr>, ?l1)"
    using p prs slots by (auto simp: pr os1_def run_simps ord_at_def)
  have step2: "(if ?nx \<noteq> ?N then do { p \<leftarrow> pool_modify (p\<lparr>orders := os1\<rparr>) ?nx (\<lambda>ord. ord\<lparr>prev_idx := ?pr\<rparr>);
        Some (p, ?l1) }
      else Some (p\<lparr>orders := os1\<rparr>, ?l1\<lparr>tail_idx := ?pr\<rparr>)) = Some (p\<lparr>orders := os2\<rparr>, ?l2)"
    using inv nxs slots by (auto simp: nx os2_def run_simps ord_at_def)
  have get: "pool_get p x = Some (ord_at ?os x)" using p slots by (simp add: run_simps ord_at_def)
  have step3: "pool_modify (p\<lparr>orders := os2\<rparr>) x (\<lambda>ord. ord\<lparr>prev_idx := ?N, next_idx := ?N\<rparr>) =
      Some (p\<lparr>orders := os3\<rparr>)" and get3: "pool_get (p\<lparr>orders := os3\<rparr>) x = Some (ord_at os3 x)"
    using inv slots by (simp_all add: run_simps os3_def ord_at_def)
  have "qty (ord_at os3 x) = qty (ord_at ?os x)" using data [of x] by (simp add: same_data_def)
  then have run: "unlink_from_level p l x = Some (p\<lparr>orders := os3\<rparr>, ?l3)"
    unfolding unlink_from_level_def get bind.bind_lunit segs(2,3) Let_def step1 prod.case step2 step3 get3
    by simp
  have outside: "ord_at os3 y = ord_at ?os y" if "y \<notin> set (xs @ x # ys)" for y
    using that prs nxs by (auto simp: at1 at2 at3)
  have "seg os3 ?N xs ?nx"
  proof (rule seg_relink_last [OF segs(1)])
    fix y assume "y \<in> set xs"
    then show "prev_idx (ord_at os3 y) = prev_idx (ord_at ?os y)"
      using dist nxs by (auto simp: at1 at2 at3)
  next
    fix y assume y: "y \<in> set (butlast xs)"
    then have "y \<noteq> ?pr" using last_notin_butlast [OF dist(1)]
      by (cases "xs = []") (auto simp: last_or_nonempty)
    moreover have "y \<in> set xs" using y by (rule in_set_butlastD)
    ultimately show "next_idx (ord_at os3 y) = next_idx (ord_at ?os y)"
      using dist nxs by (auto simp: at1 at2 at3)
  next
    assume xs: "xs \<noteq> []"
    then have "last xs = ?pr" "last xs \<in> set xs" by (simp_all add: last_or_nonempty)
    then show "next_idx (ord_at os3 (last xs)) = ?nx"
      using xs dist nxs by (auto simp: at1 at2 at3)
  qed
  moreover have "seg os3 ?pr ys ?N"
  proof (rule seg_relink_first [OF segs(4)])
    fix y assume "y \<in> set ys"
    then show "next_idx (ord_at os3 y) = next_idx (ord_at ?os y)"
      using dist prs by (auto simp: at1 at2 at3)
  next
    fix y assume y: "y \<in> set (tl ys)"
    then have "y \<noteq> ?nx" "y \<in> set ys" using dist(2) by (cases ys; auto)+
    then show "prev_idx (ord_at os3 y) = prev_idx (ord_at ?os y)"
      using dist prs by (auto simp: at1 at2 at3)
  next
    assume ys: "ys \<noteq> []"
    then have "hd ys = ?nx" "hd ys \<in> set ys" by (simp_all add: hd_or_nonempty)
    then show "prev_idx (ord_at os3 (hd ys)) = ?pr"
      using ys dist prs by (auto simp: at1 at2 at3)
  qed
  ultimately have "seg os3 ?N (xs @ ys) ?N" by (simp add: seg_append)
  moreover have "(\<Sum>y\<leftarrow>xs @ ys. qty (ord_at os3 y)) = total_qty l - qty (ord_at ?os x)"
    using sum_qty_same_data [of "xs @ ys" os3 ?os] data l by (simp add: level_inv_def)
  moreover have "head_idx ?l3 = hd_or ?N (xs @ ys)" "tail_idx ?l3 = last_or ?N (xs @ ys)"
    using l by (auto simp: level_inv_def hd_or_append last_or_append hd_or_nonempty last_or_nonempty)
  ultimately have "level_inv os3 ?l3 (xs @ ys)"
    using l by (simp add: level_inv_def)
  then show ?thesis
    using run data outside lens by (intro that [of os3 ?l3]) (auto simp: touches_def)
qed

lemma reduce_order_quantity_run:
  assumes p: "pool_inv p" and q: "set (xs @ x # ys) \<subseteq> all_slots p"
    and l: "level_inv (orders p) l (xs @ x # ys)" and lt: "t < qty (ord_at (orders p) x)"
  obtains os' l' where
    "reduce_order_quantity p l x t = Some (p\<lparr>orders := os'\<rparr>, l')"
    "os' = (orders p)[unat x := ord_at (orders p) x\<lparr>qty := qty (ord_at (orders p) x) - t\<rparr>]"
    "touches {x} (orders p) os'"
    "level_inv os' l' (xs @ x # ys)"
proof -
  let ?os = "(orders p)[unat x := ord_at (orders p) x\<lparr>qty := qty (ord_at (orders p) x) - t\<rparr>]"
  let ?l = "l\<lparr>total_qty := total_qty l - t\<rparr>"
  have x: "x \<in> all_slots p" using q by simp
  have len: "unat x < length (orders p)" using slot_in_bounds [OF p x] by simp
  have run: "reduce_order_quantity p l x t = Some (p\<lparr>orders := ?os\<rparr>, ?l)"
    using p x lt by (simp add: reduce_order_quantity_def run_simps ord_at_def)
  have at: "ord_at ?os y = ord_at (orders p) y" if "y \<noteq> x" for y using len that by simp
  have links: "seg ?os a zs b \<longleftrightarrow> seg (orders p) a zs b" for a zs b
    using len by (induction zs arbitrary: a) auto
  have same: "(\<Sum>y\<leftarrow>zs. qty (ord_at ?os y)) = (\<Sum>y\<leftarrow>zs. qty (ord_at (orders p) y))"
    if "x \<notin> set zs" for zs
  proof -
    have "map (\<lambda>y. qty (ord_at ?os y)) zs = map (\<lambda>y. qty (ord_at (orders p) y)) zs"
      using that len by auto
    then show ?thesis by (rule arg_cong)
  qed
  have "x \<notin> set xs" "x \<notin> set ys" using l by (auto simp: level_inv_def)
  then have "(\<Sum>y\<leftarrow>xs @ x # ys. qty (ord_at ?os y)) = total_qty l - t"
    using l len same [of xs] same [of ys] by (simp add: level_inv_def)
  then have "level_inv ?os ?l (xs @ x # ys)"
    using l links by (simp add: level_inv_def)
  then show ?thesis
    using run len by (intro that [of ?os ?l]) (auto simp: touches_def)
qed

subsection \<open>What a price level promises\<close>

text \<open>C22: the linked orders of a level are a queue. Appending a slot puts it last, to the empty
  level too; unlinking any member, the only one included, removes just that one and keeps the
  others in order; and a partial fill lowers the quantity of one member in place. Links, count
  and total quantity agree with the queue afterwards, no order loses its data, and no slot
  outside the level is touched.\<close>

theorem level_is_a_queue:
  assumes "pool_inv p" and "set zs \<subseteq> all_slots p" and "level_inv (orders p) l zs"
  shows "(\<forall>z. z \<in> all_slots p \<and> z \<notin> set zs \<longrightarrow>
      (\<exists>os l'. append_to_level p l z = Some (p\<lparr>orders := os\<rparr>, l') \<and> level_inv os l' (zs @ [z]) \<and>
        touches (insert z (set zs)) (orders p) os \<and>
        (\<forall>y. same_data (ord_at os y) (ord_at (orders p) y)))) \<and>
    (\<forall>xs x ys. zs = xs @ x # ys \<longrightarrow>
      (\<exists>os l'. unlink_from_level p l x = Some (p\<lparr>orders := os\<rparr>, l') \<and> level_inv os l' (xs @ ys) \<and>
        touches (set zs) (orders p) os \<and> (\<forall>y. same_data (ord_at os y) (ord_at (orders p) y)))) \<and>
    (\<forall>x t. x \<in> set zs \<and> t < qty (ord_at (orders p) x) \<longrightarrow>
      (\<exists>os l'. reduce_order_quantity p l x t = Some (p\<lparr>orders := os\<rparr>, l') \<and> level_inv os l' zs \<and>
        os = (orders p)[unat x := ord_at (orders p) x\<lparr>qty := qty (ord_at (orders p) x) - t\<rparr>]))"
proof (intro conjI allI impI)
  fix z assume z: "z \<in> all_slots p \<and> z \<notin> set zs"
  show "\<exists>os l'. append_to_level p l z = Some (p\<lparr>orders := os\<rparr>, l') \<and> level_inv os l' (zs @ [z]) \<and>
      touches (insert z (set zs)) (orders p) os \<and> (\<forall>y. same_data (ord_at os y) (ord_at (orders p) y))"
    by (rule append_to_level_run [OF assms(1,2) _ _ assms(3), of z]) (use z in blast)+
next
  fix xs x ys assume zs: "zs = xs @ x # ys"
  show "\<exists>os l'. unlink_from_level p l x = Some (p\<lparr>orders := os\<rparr>, l') \<and> level_inv os l' (xs @ ys) \<and>
      touches (set zs) (orders p) os \<and> (\<forall>y. same_data (ord_at os y) (ord_at (orders p) y))"
    by (rule unlink_from_level_run [OF assms [unfolded zs]]) (unfold zs, blast)
next
  fix x t assume x: "x \<in> set zs \<and> t < qty (ord_at (orders p) x)"
  then obtain xs ys where zs: "zs = xs @ x # ys" by (meson split_list)
  show "\<exists>os l'. reduce_order_quantity p l x t = Some (p\<lparr>orders := os\<rparr>, l') \<and> level_inv os l' zs \<and>
      os = (orders p)[unat x := ord_at (orders p) x\<lparr>qty := qty (ord_at (orders p) x) - t\<rparr>]"
    by (rule reduce_order_quantity_run [OF assms [unfolded zs]]) (use x in \<open>unfold zs, blast\<close>)+
qed

text \<open>A slot goes into the empty level, another behind it, and the first is taken out again.\<close>

theorem level_is_a_queue_witness:
  "\<exists>p1 l1 p2 l2 p3 l3.
    append_to_level (order_pool_new 2) \<lparr>head_idx = null_order_index, tail_idx = null_order_index, total_qty = 0, order_count = 0\<rparr> 1 =
      Some (p1, l1) \<and> level_inv (orders p1) l1 [1] \<and>
    append_to_level p1 l1 0 = Some (p2, l2) \<and> level_inv (orders p2) l2 [1, 0] \<and>
    unlink_from_level p2 l2 1 = Some (p3, l3) \<and> level_inv (orders p3) l3 [0]"
proof -
  let ?p = "order_pool_new 2" and ?l = "\<lparr>head_idx = null_order_index, tail_idx = null_order_index, total_qty = 0, order_count = 0\<rparr>"
  have inv: "pool_inv ?p" by (rule pool_inv_new) simp
  have in_range: "0 \<in> all_slots ?p" "1 \<in> all_slots ?p" by (simp_all add: all_slots_def order_pool_new_def)
  have "level_inv (orders ?p) ?l []" by (simp add: level_inv_def)
  then obtain os1 l1 where 1: "append_to_level ?p ?l 1 = Some (?p\<lparr>orders := os1\<rparr>, l1)" "level_inv os1 l1 [1]"
      "length os1 = length (orders ?p)"
    using level_is_a_queue [OF inv _, of "[]" ?l] in_range by (auto simp: touches_def)
  let ?p1 = "?p\<lparr>orders := os1\<rparr>"
  have inv1: "pool_inv ?p1" and slots: "all_slots ?p1 = all_slots ?p" using inv 1(3) by (simp_all add: pool_inv_orders_update all_slots_def)
  obtain os2 l2 where 2: "append_to_level ?p1 l1 0 = Some (?p1\<lparr>orders := os2\<rparr>, l2)" "level_inv os2 l2 [1, 0]"
      "length os2 = length os1"
    using level_is_a_queue [OF inv1 _, of "[1]" l1] 1(2) in_range slots by (auto simp: touches_def)
  let ?p2 = "?p1\<lparr>orders := os2\<rparr>"
  have inv2: "pool_inv ?p2" "all_slots ?p2 = all_slots ?p" using inv 1(3) 2(3) slots by (simp_all add: pool_inv_orders_update all_slots_def)
  have members: "set [1, 0] \<subseteq> all_slots ?p2" "level_inv (orders ?p2) l2 [1, 0]"
    using in_range inv2(2) 2(2) by simp_all
  have "[1, 0] = [] @ 1 # [0 :: OrderIndex]" by simp
  from level_is_a_queue [OF inv2(1) members, THEN conjunct2, THEN conjunct1, rule_format, OF this]
  have "\<exists>os l'. unlink_from_level ?p2 l2 1 = Some (?p2\<lparr>orders := os\<rparr>, l') \<and> level_inv os l' [0]"
    unfolding append_Nil by blast
  then show ?thesis using 1(1,2) 2(1,2) by force
qed

end
