(* ===== verification/Order_Index.thy ===== *)
theory Order_Index
  imports Clob_Types
begin

text \<open>
  \<open>order_index.hpp\<close>: the open-addressing table from order ids to pool slots, with
  linear probing and deletion marks, and its two hash policies. The hash is a
  parameter of every operation, as it is a template parameter of the class.

  The \<open>for\<close> loops run over \<open>step < Capacity\<close>; the model counts the iterations that
  are left. The constructor does not initialise the key and value arrays, so their
  contents are arguments of \<open>order_index_new\<close>.

  The client's contract is the locale \<open>id_map\<close>: on well-formed tables the operations
  are those of a finite map with bounded domain. The table interprets it for any hash.
\<close>

type_synonym hash_fn = "OrderId \<Rightarrow> size_t"

definition FastOrderIdHash :: hash_fn where
  "FastOrderIdHash x = x XOR (drop_bit 32 x)"

definition RobustOrderIdHash :: hash_fn where
  "RobustOrderIdHash x0 = (
     let x1 = x0 XOR drop_bit 33 x0;
         x2 = x1 * 0xff51afd7ed558ccd;
         x3 = x2 XOR drop_bit 33 x2;
         x4 = x3 * 0xc4ceb9fe1a85ec53
     in x4 XOR drop_bit 33 x4)"

datatype State = Empty | Occupied | Deleted

record FixedOrderIndex =
  capacity :: size_t
  slot_keys :: "OrderId list"
  slot_vals :: "OrderIndex list"
  slot_states :: "State list"
  idx_size :: size_t

definition mask_of :: "FixedOrderIndex \<Rightarrow> size_t" where
  "mask_of t = capacity t - 1"

definition index_clear :: "FixedOrderIndex \<Rightarrow> FixedOrderIndex" where
  "index_clear t = t\<lparr>slot_states := replicate (unat (capacity t)) Empty, idx_size := 0\<rparr>"

definition order_index_new ::
    "(nat \<Rightarrow> OrderId) \<Rightarrow> (nat \<Rightarrow> OrderIndex) \<Rightarrow> size_t \<Rightarrow> FixedOrderIndex" where
  "order_index_new junk_keys junk_vals cap = index_clear
     \<lparr>capacity = cap, slot_keys = map junk_keys [0..<unat cap],
      slot_vals = map junk_vals [0..<unat cap], slot_states = [], idx_size = 0\<rparr>"

text \<open>
  The loop of \<open>insert\<close>: \<open>Some None\<close> is its \<open>return false\<close> on a duplicate key, and
  \<open>Some (Some f)\<close> is falling out of the loop with \<open>first_deleted = f\<close>.
\<close>

fun insert_loop ::
    "FixedOrderIndex \<Rightarrow> OrderId \<Rightarrow> nat \<Rightarrow> size_t \<Rightarrow> size_t \<Rightarrow> size_t option option" where
  "insert_loop t k 0 pos first_deleted = Some (Some first_deleted)"
| "insert_loop t k (Suc n) pos first_deleted = do {
     st \<leftarrow> read_at (slot_states t) (unat pos);
     if st = Empty then
       Some (Some (if first_deleted = capacity t then pos else first_deleted))
     else if st = Deleted then
       insert_loop t k n ((pos + 1) AND mask_of t)
         (if first_deleted = capacity t then pos else first_deleted)
     else do {
       key \<leftarrow> read_at (slot_keys t) (unat pos);
       if key = k then Some None
       else insert_loop t k n ((pos + 1) AND mask_of t) first_deleted
     }
   }"

definition index_insert ::
    "hash_fn \<Rightarrow> FixedOrderIndex \<Rightarrow> OrderId \<Rightarrow> OrderIndex \<Rightarrow> (bool \<times> FixedOrderIndex) option" where
  "index_insert hash t k v = do {
     assert_that (k \<noteq> 0);
     r \<leftarrow> insert_loop t k (unat (capacity t)) (hash k AND mask_of t) (capacity t);
     case r of
       None \<Rightarrow> Some (False, t)
     | Some f \<Rightarrow>
         if f = capacity t then Some (False, t)
         else do {
           ks \<leftarrow> write_at (slot_keys t) (unat f) k;
           vs \<leftarrow> write_at (slot_vals t) (unat f) v;
           sts \<leftarrow> write_at (slot_states t) (unat f) Occupied;
           Some (True, t\<lparr>slot_keys := ks, slot_vals := vs, slot_states := sts,
                         idx_size := idx_size t + 1\<rparr>)
         }
   }"

text \<open>The test \<open>states_[pos] == State::Occupied && keys_[pos] == order_id\<close>.\<close>

definition slot_hit :: "FixedOrderIndex \<Rightarrow> OrderId \<Rightarrow> size_t \<Rightarrow> State \<Rightarrow> bool option" where
  "slot_hit t k pos st =
     (if st = Occupied then do { key \<leftarrow> read_at (slot_keys t) (unat pos); Some (key = k) }
      else Some False)"

fun find_loop :: "FixedOrderIndex \<Rightarrow> OrderId \<Rightarrow> nat \<Rightarrow> size_t \<Rightarrow> OrderIndex option option" where
  "find_loop t k 0 pos = Some None"
| "find_loop t k (Suc n) pos = do {
     st \<leftarrow> read_at (slot_states t) (unat pos);
     if st = Empty then Some None
     else do {
       hit \<leftarrow> slot_hit t k pos st;
       if hit then do { v \<leftarrow> read_at (slot_vals t) (unat pos); Some (Some v) }
       else find_loop t k n ((pos + 1) AND mask_of t)
     }
   }"

definition index_find :: "hash_fn \<Rightarrow> FixedOrderIndex \<Rightarrow> OrderId \<Rightarrow> OrderIndex option option" where
  "index_find hash t k = do {
     assert_that (k \<noteq> 0);
     find_loop t k (unat (capacity t)) (hash k AND mask_of t)
   }"

fun erase_loop :: "FixedOrderIndex \<Rightarrow> OrderId \<Rightarrow> nat \<Rightarrow> size_t \<Rightarrow> (bool \<times> FixedOrderIndex) option" where
  "erase_loop t k 0 pos = Some (False, t)"
| "erase_loop t k (Suc n) pos = do {
     st \<leftarrow> read_at (slot_states t) (unat pos);
     if st = Empty then Some (False, t)
     else do {
       hit \<leftarrow> slot_hit t k pos st;
       if hit then do {
         sts \<leftarrow> write_at (slot_states t) (unat pos) Deleted;
         Some (True, t\<lparr>slot_states := sts, idx_size := idx_size t - 1\<rparr>)
       }
       else erase_loop t k n ((pos + 1) AND mask_of t)
     }
   }"

definition index_erase :: "hash_fn \<Rightarrow> FixedOrderIndex \<Rightarrow> OrderId \<Rightarrow> (bool \<times> FixedOrderIndex) option" where
  "index_erase hash t k = do {
     assert_that (k \<noteq> 0);
     erase_loop t k (unat (capacity t)) (hash k AND mask_of t)
   }"

definition index_contains :: "hash_fn \<Rightarrow> FixedOrderIndex \<Rightarrow> OrderId \<Rightarrow> bool option" where
  "index_contains hash t k = do {
     r \<leftarrow> index_find hash t k;
     Some (r \<noteq> None)
   }"

definition index_capacity :: "FixedOrderIndex \<Rightarrow> size_t" where
  "index_capacity t = capacity t"

definition index_size :: "FixedOrderIndex \<Rightarrow> size_t" where
  "index_size t = idx_size t"

definition index_empty :: "FixedOrderIndex \<Rightarrow> bool" where
  "index_empty t \<longleftrightarrow> idx_size t = 0"

definition index_full :: "FixedOrderIndex \<Rightarrow> bool" where
  "index_full t \<longleftrightarrow> idx_size t = capacity t"

subsection \<open>Well-formed tables and the map they represent\<close>

definition probe :: "hash_fn \<Rightarrow> FixedOrderIndex \<Rightarrow> OrderId \<Rightarrow> nat \<Rightarrow> nat" where
  "probe hash t k j = (unat (hash k) + j) mod unat (capacity t)"

definition holds :: "FixedOrderIndex \<Rightarrow> OrderId \<Rightarrow> nat \<Rightarrow> bool" where
  "holds t k i \<longleftrightarrow> slot_states t ! i = Occupied \<and> slot_keys t ! i = k"

definition occupied :: "FixedOrderIndex \<Rightarrow> nat set" where
  "occupied t = {i. i < unat (capacity t) \<and> slot_states t ! i = Occupied}"

definition index_map :: "FixedOrderIndex \<Rightarrow> OrderId \<rightharpoonup> OrderIndex" where
  "index_map t = map_of (map (\<lambda>i. (slot_keys t ! i, slot_vals t ! i))
     (filter (\<lambda>i. slot_states t ! i = Occupied) [0..<unat (capacity t)]))"

definition index_shape :: "FixedOrderIndex \<Rightarrow> bool" where
  "index_shape t \<longleftrightarrow>
     has_single_bit (capacity t) \<and> 1 < unat (capacity t) \<and>
     length (slot_keys t) = unat (capacity t) \<and>
     length (slot_vals t) = unat (capacity t) \<and>
     length (slot_states t) = unat (capacity t)"

text \<open>
  Every entry can be reached from its hash without meeting an empty slot, keys are
  stored once, and \<open>size_\<close> counts the entries.
\<close>

definition reachable_key :: "hash_fn \<Rightarrow> FixedOrderIndex \<Rightarrow> nat \<Rightarrow> bool" where
  "reachable_key hash t i \<longleftrightarrow> (\<exists>j < unat (capacity t). probe hash t (slot_keys t ! i) j = i \<and>
     (\<forall>j' < j. slot_states t ! probe hash t (slot_keys t ! i) j' \<noteq> Empty))"

definition index_inv :: "hash_fn \<Rightarrow> FixedOrderIndex \<Rightarrow> bool" where
  "index_inv hash t \<longleftrightarrow> index_shape t \<and>
     (\<forall>i \<in> occupied t. reachable_key hash t i) \<and>
     inj_on (\<lambda>i. slot_keys t ! i) (occupied t) \<and>
     unat (idx_size t) = card (occupied t)"

lemma occupied_finite [simp, intro]: "finite (occupied t)"
  by (simp add: occupied_def)

lemma holds_iff: "i < unat (capacity t) \<Longrightarrow> holds t k i \<longleftrightarrow> i \<in> occupied t \<and> slot_keys t ! i = k"
  by (simp add: holds_def occupied_def)

lemma index_map_Some_iff:
  assumes "inj_on (\<lambda>i. slot_keys t ! i) (occupied t)"
  shows "index_map t k = Some v \<longleftrightarrow> (\<exists>i \<in> occupied t. slot_keys t ! i = k \<and> slot_vals t ! i = v)"
proof -
  let ?is = "filter (\<lambda>i. slot_states t ! i = Occupied) [0..<unat (capacity t)]"
  have set_is: "set ?is = occupied t" by (auto simp: occupied_def)
  have "distinct (map fst (map (\<lambda>i. (slot_keys t ! i, slot_vals t ! i)) ?is))"
    using assms by (simp add: comp_def distinct_map occupied_def)
  then show ?thesis
    by (auto simp: index_map_def map_of_eq_Some_iff occupied_def)
qed

lemma index_map_None_iff:
  "index_map t k = None \<longleftrightarrow> (\<forall>i \<in> occupied t. slot_keys t ! i \<noteq> k)"
  by (force simp: index_map_def map_of_eq_None_iff occupied_def)

lemma dom_index_map: "dom (index_map t) = (\<lambda>i. slot_keys t ! i) ` occupied t"
proof -
  have "k \<in> dom (index_map t) \<longleftrightarrow> k \<in> (\<lambda>i. slot_keys t ! i) ` occupied t" for k
    using index_map_None_iff [of t k] by (auto simp: domIff)
  then show ?thesis by blast
qed

lemma card_dom_index_map: "index_inv hash t \<Longrightarrow> card (dom (index_map t)) = card (occupied t)"
  by (simp add: dom_index_map index_inv_def card_image)

lemma occupied_le: "card (occupied t) \<le> unat (capacity t)"
proof -
  have "card (occupied t) \<le> card {..<unat (capacity t)}"
    by (rule card_mono) (auto simp: occupied_def)
  then show ?thesis by simp
qed

lemma index_inv_new:
  assumes "has_single_bit cap" and "1 < unat cap"
  shows "index_inv hash (order_index_new ks vs cap)"
    and "index_map (order_index_new ks vs cap) = Map.empty"
    and "capacity (order_index_new ks vs cap) = cap"
proof -
  have "occupied (order_index_new ks vs cap) = {}"
    by (auto simp: occupied_def order_index_new_def index_clear_def)
  then show "index_inv hash (order_index_new ks vs cap)"
      and "index_map (order_index_new ks vs cap) = Map.empty"
    using assms index_map_None_iff [of "order_index_new ks vs cap"]
    by (auto simp: index_inv_def index_shape_def fun_eq_iff)
       (simp_all add: order_index_new_def index_clear_def)
  show "capacity (order_index_new ks vs cap) = cap"
    by (simp add: order_index_new_def index_clear_def)
qed

subsection \<open>The probe sequence\<close>

lemma probe_less [simp]: "index_shape t \<Longrightarrow> probe hash t k j < unat (capacity t)"
  by (simp add: probe_def index_shape_def)

lemma probe_start: "index_shape t \<Longrightarrow> unat (hash k AND mask_of t) = probe hash t k 0"
  by (simp add: index_shape_def mask_of_def unat_and_mask probe_def)

lemma probe_step:
  assumes "index_shape t" and "unat pos = probe hash t k j"
  shows "unat ((pos + 1) AND mask_of t) = probe hash t k (Suc j)"
proof -
  have sb: "has_single_bit (capacity t)" using assms by (simp add: index_shape_def)
  have "unat ((pos + 1) AND mask_of t) = (unat pos + 1) mod unat (capacity t)"
    using unat_add_mod [OF sb, of pos 1] by (simp add: mask_of_def unat_and_mask [OF sb] unat_1)
  also have "\<dots> = probe hash t k (Suc j)"
    by (simp add: assms(2) probe_def mod_Suc_eq)
  finally show ?thesis .
qed

lemma probe_covers:
  assumes "index_shape t" and "i < unat (capacity t)"
  shows "\<exists>j < unat (capacity t). probe hash t k j = i"
proof -
  let ?n = "unat (capacity t)" and ?h = "unat (hash k) mod unat (capacity t)"
  have n: "0 < ?n" using assms(2) by simp
  have h: "?h < ?n" using n by simp
  let ?j = "(i + (?n - ?h)) mod ?n"
  have "probe hash t k ?j = (?h + (i + (?n - ?h))) mod ?n"
    by (simp add: probe_def mod_add_right_eq mod_add_left_eq)
  also have "?h + (i + (?n - ?h)) = i + ?n" using h by simp
  finally have "probe hash t k ?j = i" using assms(2) by simp
  then show ?thesis using n by (intro exI [of _ ?j]) simp
qed

text \<open>A slot a probe for \<open>k\<close> walks past.\<close>

definition passes :: "FixedOrderIndex \<Rightarrow> OrderId \<Rightarrow> nat \<Rightarrow> bool" where
  "passes t k i \<longleftrightarrow> slot_states t ! i \<noteq> Empty \<and> \<not> holds t k i"

lemma hit_at:
  assumes inv: "index_inv hash t" and "index_map t k \<noteq> None"
  obtains j where "j < unat (capacity t)" "holds t k (probe hash t k j)"
    "index_map t k = Some (slot_vals t ! probe hash t k j)"
    "\<And>j'. j' < j \<Longrightarrow> passes t k (probe hash t k j')"
proof -
  have shape: "index_shape t" using inv by (simp add: index_inv_def)
  obtain v where v: "index_map t k = Some v" using assms(2) by blast
  then obtain i where i: "i \<in> occupied t" "slot_keys t ! i = k" "slot_vals t ! i = v"
    using inv by (auto simp: index_inv_def index_map_Some_iff)
  then obtain j where j: "j < unat (capacity t)" "probe hash t k j = i"
      and ne: "\<And>j'. j' < j \<Longrightarrow> slot_states t ! probe hash t k j' \<noteq> Empty"
    using inv by (auto simp: index_inv_def reachable_key_def)
  have inj: "i' = i" if "holds t k i'" "i' < unat (capacity t)" for i'
    using that i inv by (auto simp: holds_iff index_inv_def inj_on_def)
  define j0 where "j0 = (LEAST j. holds t k (probe hash t k j))"
  have hj: "holds t k (probe hash t k j)"
    using i j by (auto simp: holds_iff occupied_def)
  have j0: "holds t k (probe hash t k j0)" "j0 \<le> j"
    unfolding j0_def using hj by (rule LeastI, rule Least_le)
  have "probe hash t k j0 = i" using inj [OF j0(1)] shape by simp
  moreover have "passes t k (probe hash t k j')" if "j' < j0" for j'
    using that ne [of j'] j0(2) not_less_Least [of j' "\<lambda>j. holds t k (probe hash t k j)"]
    by (auto simp: passes_def j0_def)
  ultimately show ?thesis using that [of j0] j0 j(1) v i(3) by auto
qed

lemma miss_at_empty:
  assumes inv: "index_inv hash t" and "slot_states t ! probe hash t k j = Empty"
    and "\<And>j'. j' < j \<Longrightarrow> passes t k (probe hash t k j')"
  shows "index_map t k = None"
proof (rule ccontr)
  assume "index_map t k \<noteq> None"
  then obtain j' where j': "holds t k (probe hash t k j')"
      "\<And>j''. j'' < j' \<Longrightarrow> passes t k (probe hash t k j'')"
    using hit_at [OF inv] by metis
  show False
    using assms(2,3) j' by (cases j' j rule: linorder_cases) (auto simp: passes_def holds_def)
qed

subsection \<open>The loops\<close>

lemma find_loop_pass:
  assumes "index_shape t" and "unat pos = probe hash t k j" and "passes t k (probe hash t k j)"
  shows "find_loop t k (Suc n) pos = find_loop t k n ((pos + 1) AND mask_of t)"
    and "erase_loop t k (Suc n) pos = erase_loop t k n ((pos + 1) AND mask_of t)"
proof -
  have "probe hash t k j < unat (capacity t)" using assms(1) by simp
  then show "find_loop t k (Suc n) pos = find_loop t k n ((pos + 1) AND mask_of t)"
    and "erase_loop t k (Suc n) pos = erase_loop t k n ((pos + 1) AND mask_of t)"
    using assms by (auto simp: index_shape_def slot_hit_def passes_def holds_def)
qed

lemma loop_skip:
  assumes "index_shape t" and "\<And>j'. j' < j \<Longrightarrow> passes t k (probe hash t k j')"
  shows "\<exists>pos. unat pos = probe hash t k j \<and>
     find_loop t k (j + n) (hash k AND mask_of t) = find_loop t k n pos \<and>
     erase_loop t k (j + n) (hash k AND mask_of t) = erase_loop t k n pos"
  using assms(2)
proof (induction j arbitrary: n)
  case 0
  then show ?case using probe_start [OF assms(1)] by auto
next
  case (Suc j)
  then obtain pos where pos: "unat pos = probe hash t k j"
      "find_loop t k (j + Suc n) (hash k AND mask_of t) = find_loop t k (Suc n) pos"
      "erase_loop t k (j + Suc n) (hash k AND mask_of t) = erase_loop t k (Suc n) pos"
    by (metis less_Suc_eq)
  show ?case
    using find_loop_pass [OF assms(1) pos(1)] pos Suc.prems [of j]
    by (intro exI [of _ "(pos + 1) AND mask_of t"]) (simp add: probe_step [OF assms(1) pos(1)])
qed

lemma find_erase_hit:
  assumes inv: "index_inv hash t" and "index_map t k = Some v" and "k \<noteq> 0"
  obtains i where "i < unat (capacity t)" "holds t k i" "v = slot_vals t ! i"
    "index_find hash t k = Some (Some v)"
    "index_erase hash t k = Some (True, t\<lparr>slot_states := (slot_states t)[i := Deleted],
       idx_size := idx_size t - 1\<rparr>)"
proof -
  have shape: "index_shape t" using inv by (simp add: index_inv_def)
  from hit_at [OF inv, of k] assms(2) obtain j where j: "j < unat (capacity t)"
      "holds t k (probe hash t k j)" "v = slot_vals t ! probe hash t k j"
      "\<And>j'. j' < j \<Longrightarrow> passes t k (probe hash t k j')"
    by (metis option.distinct(1) option.inject)
  define n where "n = unat (capacity t) - Suc j"
  have n: "unat (capacity t) = j + Suc n" using j(1) by (simp add: n_def)
  obtain pos where pos: "unat pos = probe hash t k j"
      "find_loop t k (j + Suc n) (hash k AND mask_of t) = find_loop t k (Suc n) pos"
      "erase_loop t k (j + Suc n) (hash k AND mask_of t) = erase_loop t k (Suc n) pos"
    using loop_skip [OF shape j(4), where n = "Suc n"] by blast
  have b: "probe hash t k j < length (slot_states t)" "probe hash t k j < length (slot_keys t)"
      "probe hash t k j < length (slot_vals t)"
    using shape probe_less [OF shape] by (simp_all add: index_shape_def)
  have "find_loop t k (Suc n) pos = Some (Some v)"
    and "erase_loop t k (Suc n) pos = Some (True, t\<lparr>slot_states :=
          (slot_states t)[probe hash t k j := Deleted], idx_size := idx_size t - 1\<rparr>)"
    using b j(2,3) pos(1) by (simp_all add: holds_def slot_hit_def)
  then have "index_find hash t k = Some (Some v)"
    and "index_erase hash t k = Some (True, t\<lparr>slot_states :=
          (slot_states t)[probe hash t k j := Deleted], idx_size := idx_size t - 1\<rparr>)"
    using \<open>k \<noteq> 0\<close> pos(2,3)
    by (simp_all add: index_find_def index_erase_def n del: find_loop.simps erase_loop.simps)
  then show ?thesis
    using j(2,3) probe_less [OF shape] by (intro that [of "probe hash t k j"])
qed

lemma find_erase_miss:
  assumes inv: "index_inv hash t" and none: "index_map t k = None" and "k \<noteq> 0"
  shows "index_find hash t k = Some None" and "index_erase hash t k = Some (False, t)"
proof -
  have shape: "index_shape t" using inv by (simp add: index_inv_def)
  have no_hit: "\<not> holds t k (probe hash t k j)" for j
    using none shape by (auto simp: index_map_None_iff holds_iff)
  have loops: "find_loop t k n pos = Some None \<and> erase_loop t k n pos = Some (False, t)"
    if "unat pos = probe hash t k j" for n j pos
    using that
  proof (induction n arbitrary: pos j)
    case (Suc n)
    show ?case
    proof (cases "slot_states t ! probe hash t k j = Empty")
      case True
      then show ?thesis using Suc.prems shape probe_less [OF shape] by (simp add: index_shape_def)
    next
      case False
      then have "passes t k (probe hash t k j)" using no_hit by (simp add: passes_def)
      from find_loop_pass [OF shape Suc.prems this]
        Suc.IH [OF probe_step [OF shape Suc.prems]]
      show ?thesis by simp
    qed
  qed simp
  then show "index_find hash t k = Some None" and "index_erase hash t k = Some (False, t)"
    using probe_start [OF shape] \<open>k \<noteq> 0\<close> by (simp_all add: index_find_def index_erase_def)
qed

lemma insert_loop_pass:
  assumes "index_shape t" and "unat pos = probe hash t k j" and "passes t k (probe hash t k j)"
  shows "insert_loop t k (Suc n) pos f = insert_loop t k n ((pos + 1) AND mask_of t)
    (if slot_states t ! probe hash t k j = Deleted \<and> f = capacity t then pos else f)"
proof -
  have "probe hash t k j < unat (capacity t)" using assms(1) by simp
  then show ?thesis
    using assms by (cases "slot_states t ! probe hash t k j")
      (auto simp: index_shape_def passes_def holds_def)
qed

lemma insert_loop_dup:
  assumes inv: "index_inv hash t" and "index_map t k \<noteq> None"
  shows "insert_loop t k (unat (capacity t)) (hash k AND mask_of t) f = Some None"
proof -
  have shape: "index_shape t" using inv by (simp add: index_inv_def)
  from hit_at [OF assms] obtain j where j: "j < unat (capacity t)"
      "holds t k (probe hash t k j)" "\<And>j'. j' < j \<Longrightarrow> passes t k (probe hash t k j')"
    by metis
  have "insert_loop t k (Suc n) pos f = Some None"
    if "unat pos = probe hash t k i" "j \<le> i + n" "i \<le> j" for n pos i f
    using that
  proof (induction n arbitrary: pos i f)
    case 0
    then show ?case using j(2) shape probe_less [OF shape] by (simp add: index_shape_def holds_def)
  next
    case (Suc n)
    show ?case
    proof (cases "i = j")
      case True
      then show ?thesis
        using Suc.prems j(2) shape probe_less [OF shape] by (simp add: index_shape_def holds_def)
    next
      case False
      then have "passes t k (probe hash t k i)" using j(3) Suc.prems by simp
      with Suc.prems False Suc.IH [OF probe_step [OF shape Suc.prems(1)]] show ?thesis
        by (simp add: insert_loop_pass [OF shape Suc.prems(1)] del: insert_loop.simps)
    qed
  qed
  from this [OF probe_start [OF shape], of "unat (capacity t) - 1"] j(1)
  show ?thesis by simp
qed

text \<open>
  For a new key the loop ends with the first deleted or empty slot of the probe
  sequence, or with \<open>Capacity\<close> when every slot is occupied.
\<close>

definition insert_target :: "hash_fn \<Rightarrow> FixedOrderIndex \<Rightarrow> OrderId \<Rightarrow> size_t \<Rightarrow> bool" where
  "insert_target hash t k f \<longleftrightarrow> (\<exists>j < unat (capacity t). unat f = probe hash t k j \<and>
     slot_states t ! probe hash t k j \<noteq> Occupied \<and>
     (\<forall>j' < j. slot_states t ! probe hash t k j' \<noteq> Empty))"

lemma insert_target_neq: "index_shape t \<Longrightarrow> insert_target hash t k f \<Longrightarrow> f \<noteq> capacity t"
  by (metis insert_target_def probe_less less_irrefl)

lemma insert_loop_new:
  assumes inv: "index_inv hash t" and none: "index_map t k = None"
    and "unat pos = probe hash t k j" and "j + n = unat (capacity t)"
    and "\<And>j'. j' < j \<Longrightarrow> slot_states t ! probe hash t k j' \<noteq> Empty"
    and "insert_target hash t k f \<or>
         (f = capacity t \<and> (\<forall>j' < j. slot_states t ! probe hash t k j' = Occupied))"
  shows "\<exists>f'. insert_loop t k n pos f = Some (Some f') \<and> (insert_target hash t k f' \<or>
         (f' = capacity t \<and> (\<forall>j' < unat (capacity t). slot_states t ! probe hash t k j' = Occupied)))"
  using assms(3-)
proof (induction n arbitrary: pos j f)
  case 0
  then show ?case by auto
next
  case (Suc n)
  have shape: "index_shape t" using inv by (simp add: index_inv_def)
  let ?st = "slot_states t ! probe hash t k j"
  have no_hit: "\<not> holds t k (probe hash t k j)"
    using none shape by (auto simp: index_map_None_iff holds_iff)
  have jl: "j < unat (capacity t)" using Suc.prems(2) by simp
  have here: "insert_target hash t k pos" if "?st \<noteq> Occupied"
    using that Suc.prems(1,3) jl by (auto simp: insert_target_def)
  show ?case
  proof (cases "?st = Empty")
    case True
    then have "insert_loop t k (Suc n) pos f = Some (Some (if f = capacity t then pos else f))"
      using Suc.prems(1) shape probe_less [OF shape] by (simp add: index_shape_def)
    then show ?thesis
      using here True Suc.prems(4) insert_target_neq [OF shape] by auto
  next
    case False
    then have pass: "passes t k (probe hash t k j)" using no_hit by (simp add: passes_def)
    let ?f = "if ?st = Deleted \<and> f = capacity t then pos else f"
    have "insert_target hash t k ?f \<or>
          (?f = capacity t \<and> (\<forall>j' < Suc j. slot_states t ! probe hash t k j' = Occupied))"
      using here Suc.prems(4) False insert_target_neq [OF shape]
      by (cases ?st) (auto simp: less_Suc_eq)
    with Suc.prems(2,3) False show ?thesis
      unfolding insert_loop_pass [OF shape Suc.prems(1) pass]
      by (intro Suc.IH [OF probe_step [OF shape Suc.prems(1)]]) (auto simp: less_Suc_eq)
  qed
qed

subsection \<open>The operations on a well-formed table\<close>

lemma index_erase_hit:
  assumes inv: "index_inv hash t" and "index_map t k = Some v" and "k \<noteq> 0"
  obtains t' where "index_erase hash t k = Some (True, t')" "index_inv hash t'"
    "index_map t' = (index_map t)(k := None)" "capacity t' = capacity t"
proof -
  from find_erase_hit [OF assms] obtain i where i: "i < unat (capacity t)" "holds t k i"
      and run: "index_erase hash t k = Some (True, t\<lparr>slot_states := (slot_states t)[i := Deleted],
       idx_size := idx_size t - 1\<rparr>)" by metis
  let ?t = "t\<lparr>slot_states := (slot_states t)[i := Deleted], idx_size := idx_size t - 1\<rparr>"
  have shape: "index_shape t" and inj: "inj_on (\<lambda>i. slot_keys t ! i) (occupied t)"
    using inv by (simp_all add: index_inv_def)
  have io: "i \<in> occupied t" "slot_keys t ! i = k" using i by (simp_all add: holds_iff)
  have len: "i < length (slot_states t)" using shape i by (simp add: index_shape_def)
  have occ: "occupied ?t = occupied t - {i}"
    using len by (auto simp: occupied_def nth_list_update)
  have inj': "inj_on (\<lambda>i. slot_keys ?t ! i) (occupied ?t)"
    using inj by (simp add: occ inj_on_diff)
  have keep: "slot_states ?t ! j \<noteq> Empty" if "slot_states t ! j \<noteq> Empty" for j
    using that len by (auto simp: nth_list_update)
  have "index_inv hash ?t"
  proof -
    have "reachable_key hash ?t j" if "j \<in> occupied ?t" for j
    proof -
      have "reachable_key hash t j" using that inv by (auto simp: index_inv_def occ)
      then show ?thesis
        using keep by (auto simp: reachable_key_def probe_def elim!: ex_forward)
    qed
    moreover have "unat (idx_size t - 1) = card (occupied t - {i})"
    proof -
      have "unat (idx_size t) = card (occupied t)" using inv by (simp add: index_inv_def)
      moreover have "0 < card (occupied t)" using io by (auto simp: card_gt_0_iff)
      ultimately show ?thesis using io by (subst unat_dec) (auto simp: unat_gt_0 [symmetric])
    qed
    ultimately show ?thesis
      using shape inj' by (simp add: index_inv_def occ index_shape_def)
  qed
  moreover have "index_map ?t = (index_map t)(k := None)"
  proof
    fix k'
    have "index_map ?t k' = Some v' \<longleftrightarrow> ((index_map t)(k := None)) k' = Some v'" for v'
      using io inj by (auto simp: index_map_Some_iff [OF inj] index_map_Some_iff [OF inj'] occ inj_on_def)
    then show "index_map ?t k' = ((index_map t)(k := None)) k'" by (metis option.exhaust)
  qed
  ultimately show ?thesis using run by (intro that [of ?t]) simp_all
qed

lemma index_insert_dup:
  assumes "index_inv hash t" and "index_map t k \<noteq> None" and "k \<noteq> 0"
  shows "index_insert hash t k v = Some (False, t)"
  using insert_loop_dup [OF assms(1,2)] assms(3) by (simp add: index_insert_def)

lemma index_insert_full:
  assumes inv: "index_inv hash t" and none: "index_map t k = None" and "k \<noteq> 0"
    and full: "card (dom (index_map t)) = unat (capacity t)"
  shows "index_insert hash t k v = Some (False, t)"
proof -
  have shape: "index_shape t" using inv by (simp add: index_inv_def)
  have "occupied t = {..<unat (capacity t)}"
    using full card_dom_index_map [OF inv] by (intro card_subset_eq) (auto simp: occupied_def)
  then have "slot_states t ! i = Occupied" if "i < unat (capacity t)" for i
    using that by (auto simp: occupied_def)
  then have "\<not> insert_target hash t k f" for f
    using probe_less [OF shape] by (auto simp: insert_target_def)
  with insert_loop_new [OF inv none probe_start [OF shape], of "unat (capacity t)" "capacity t"] \<open>k \<noteq> 0\<close>
  show ?thesis by (auto simp: index_insert_def)
qed

lemma index_insert_new:
  assumes inv: "index_inv hash t" and none: "index_map t k = None" and "k \<noteq> 0"
    and room: "card (dom (index_map t)) < unat (capacity t)"
  obtains t' where "index_insert hash t k v = Some (True, t')" "index_inv hash t'"
    "index_map t' = (index_map t)(k \<mapsto> v)" "capacity t' = capacity t"
proof -
  have shape: "index_shape t" and inj: "inj_on (\<lambda>i. slot_keys t ! i) (occupied t)"
    using inv by (simp_all add: index_inv_def)
  obtain f where loop: "insert_loop t k (unat (capacity t)) (hash k AND mask_of t) (capacity t) = Some (Some f)"
      and "insert_target hash t k f \<or>
         (f = capacity t \<and> (\<forall>j < unat (capacity t). slot_states t ! probe hash t k j = Occupied))"
    using insert_loop_new [OF inv none probe_start [OF shape], of "unat (capacity t)" "capacity t"] by auto
  moreover have "\<exists>j < unat (capacity t). slot_states t ! probe hash t k j \<noteq> Occupied"
  proof (rule ccontr)
    assume a: "\<not> ?thesis"
    have "slot_states t ! i = Occupied" if "i < unat (capacity t)" for i
      using probe_covers [OF shape that, of hash k] a by auto
    then have "occupied t = {..<unat (capacity t)}" by (auto simp: occupied_def)
    then show False using room card_dom_index_map [OF inv] by simp
  qed
  ultimately have target: "insert_target hash t k f" by auto
  then obtain j where j: "j < unat (capacity t)" "unat f = probe hash t k j"
      "slot_states t ! unat f \<noteq> Occupied" "\<And>j'. j' < j \<Longrightarrow> slot_states t ! probe hash t k j' \<noteq> Empty"
    by (auto simp: insert_target_def)
  let ?i = "unat f"
  let ?t = "t\<lparr>slot_keys := (slot_keys t)[?i := k], slot_vals := (slot_vals t)[?i := v],
     slot_states := (slot_states t)[?i := Occupied], idx_size := idx_size t + 1\<rparr>"
  have fi: "?i < unat (capacity t)" using j(2) shape by simp
  have len: "?i < length (slot_keys t)" "?i < length (slot_vals t)" "?i < length (slot_states t)"
    using shape fi by (simp_all add: index_shape_def)
  have run: "index_insert hash t k v = Some (True, ?t)"
    using loop len insert_target_neq [OF shape target] \<open>k \<noteq> 0\<close> by (simp add: index_insert_def)
  have new: "?i \<notin> occupied t" using j(3) by (simp add: occupied_def)
  have occ: "occupied ?t = insert ?i (occupied t)"
    using len fi by (auto simp: occupied_def nth_list_update)
  have key: "slot_keys ?t ! i = (if i = ?i then k else slot_keys t ! i)" for i
    using len by (simp add: nth_list_update)
  have val: "slot_vals ?t ! i = (if i = ?i then v else slot_vals t ! i)" for i
    using len by (simp add: nth_list_update)
  have fresh: "slot_keys t ! i \<noteq> k" if "i \<in> occupied t" for i
    using none that by (simp add: index_map_None_iff)
  have inj': "inj_on (\<lambda>i. slot_keys ?t ! i) (occupied ?t)"
    using inj fresh new unfolding occ key by (auto simp: inj_on_def)
  have keep: "slot_states ?t ! i \<noteq> Empty" if "slot_states t ! i \<noteq> Empty" for i
    using that len by (auto simp: nth_list_update)
  have "index_inv hash ?t"
  proof -
    have "reachable_key hash ?t i" if "i \<in> occupied ?t" for i
    proof (cases "i = ?i")
      case True
      then show ?thesis
        using j keep unfolding reachable_key_def key
        by (intro exI [of _ j]) (simp add: probe_def)
    next
      case False
      then have "reachable_key hash t i" using that inv by (auto simp: index_inv_def occ)
      then show ?thesis
        using False keep unfolding reachable_key_def key
        by (auto simp: probe_def elim!: ex_forward)
    qed
    moreover have "unat (idx_size t + 1) = card (insert ?i (occupied t))"
    proof -
      have "unat (idx_size t) = card (occupied t)" using inv by (simp add: index_inv_def)
      moreover from this have "idx_size t < capacity t"
        using room card_dom_index_map [OF inv] by (simp add: word_less_nat_alt)
      ultimately show ?thesis using new by (simp add: unat_inc)
    qed
    ultimately show ?thesis
      using shape inj' by (simp add: index_inv_def occ index_shape_def)
  qed
  moreover have "index_map ?t = (index_map t)(k \<mapsto> v)"
  proof
    fix k'
    have "(\<exists>i \<in> occupied t. (if i = ?i then k else slot_keys t ! i) = k' \<and>
             (if i = ?i then v else slot_vals t ! i) = v') \<longleftrightarrow>
          (\<exists>i \<in> occupied t. slot_keys t ! i = k' \<and> slot_vals t ! i = v')" for v'
      using new by (intro bex_cong) auto
    then have "index_map ?t k' = Some v' \<longleftrightarrow> ((index_map t)(k \<mapsto> v)) k' = Some v'" for v'
      unfolding index_map_Some_iff [OF inj'] occ key val
      using fresh by (auto simp: index_map_Some_iff [OF inj])
    then show "index_map ?t k' = ((index_map t)(k \<mapsto> v)) k'" by (metis option.exhaust)
  qed
  ultimately show ?thesis using run by (intro that [of ?t]) simp_all
qed

lemma index_contains_iff:
  assumes "index_inv hash t" and "k \<noteq> 0"
  shows "index_find hash t k = Some (index_map t k)"
    and "index_contains hash t k = Some (index_map t k \<noteq> None)"
proof -
  show "index_find hash t k = Some (index_map t k)"
  proof (cases "index_map t k")
    case None
    then show ?thesis using find_erase_miss [OF assms(1) None assms(2)] by simp
  next
    case (Some v)
    from find_erase_hit [OF assms(1) Some assms(2)] show ?thesis by (metis Some)
  qed
  then show "index_contains hash t k = Some (index_map t k \<noteq> None)"
    by (simp add: index_contains_def)
qed

subsection \<open>The contract of the table\<close>

text \<open>
  A bounded finite map from ids to slots, with \<open>ok\<close> the keys its assertions allow.
  \<open>indexes m S f\<close> says that the map finds exactly the elements of \<open>S\<close> by their key \<open>f\<close>:
  it is how the order book uses the table.
\<close>

definition indexes :: "('k \<rightharpoonup> 'v) \<Rightarrow> 'v set \<Rightarrow> ('v \<Rightarrow> 'k) \<Rightarrow> bool" where
  "indexes m S f \<longleftrightarrow> (\<forall>k v. m k = Some v \<longleftrightarrow> v \<in> S \<and> f v = k)"

lemma indexes_inj: "indexes m S f \<Longrightarrow> inj_on f S"
  by (rule inj_onI) (metis indexes_def option.inject)

lemma indexes_dom: "indexes m S f \<Longrightarrow> dom m = f ` S"
  by (auto simp: indexes_def)

lemma indexes_card: "indexes m S f \<Longrightarrow> card (dom m) = card S"
  by (simp add: indexes_dom indexes_inj card_image)

lemma indexes_None: "indexes m S f \<Longrightarrow> m k = None \<longleftrightarrow> k \<notin> f ` S"
  by (auto simp: indexes_dom [symmetric])

lemma indexes_cong: "(\<And>v. v \<in> S \<Longrightarrow> f v = g v) \<Longrightarrow> indexes m S f = indexes m S g"
  by (auto simp: indexes_def)

locale id_map =
  fixes ins :: "'t \<Rightarrow> 'k \<Rightarrow> 'v \<Rightarrow> (bool \<times> 't) option"
    and find :: "'t \<Rightarrow> 'k \<Rightarrow> 'v option option"
    and del :: "'t \<Rightarrow> 'k \<Rightarrow> (bool \<times> 't) option"
    and inv :: "'t \<Rightarrow> bool"
    and lookup :: "'t \<Rightarrow> 'k \<rightharpoonup> 'v"
    and room :: "'t \<Rightarrow> nat"
    and ok :: "'k \<Rightarrow> bool"
  assumes find_lookup: "inv t \<Longrightarrow> ok k \<Longrightarrow> find t k = Some (lookup t k)"
    and ins_dup: "inv t \<Longrightarrow> ok k \<Longrightarrow> lookup t k \<noteq> None \<Longrightarrow> ins t k v = Some (False, t)"
    and ins_full: "inv t \<Longrightarrow> ok k \<Longrightarrow> lookup t k = None \<Longrightarrow> card (dom (lookup t)) = room t \<Longrightarrow>
      ins t k v = Some (False, t)"
    and ins_new: "inv t \<Longrightarrow> ok k \<Longrightarrow> lookup t k = None \<Longrightarrow> card (dom (lookup t)) < room t \<Longrightarrow>
      \<exists>t'. ins t k v = Some (True, t') \<and> inv t' \<and> lookup t' = (lookup t)(k \<mapsto> v) \<and> room t' = room t"
    and del_hit: "inv t \<Longrightarrow> ok k \<Longrightarrow> lookup t k \<noteq> None \<Longrightarrow>
      \<exists>t'. del t k = Some (True, t') \<and> inv t' \<and> lookup t' = (lookup t)(k := None) \<and> room t' = room t"
    and del_miss: "inv t \<Longrightarrow> ok k \<Longrightarrow> lookup t k = None \<Longrightarrow> del t k = Some (False, t)"
    and bounded: "inv t \<Longrightarrow> card (dom (lookup t)) \<le> room t"
begin

lemma ins_find:
  assumes "inv t" "ok k" "ok k'" "ins t k v = Some (True, t')"
  shows "find t' k' = (if k' = k then Some (Some v) else find t k')"
proof -
  have "lookup t k = None" using assms ins_dup by fastforce
  moreover have "card (dom (lookup t)) < room t"
    using bounded [OF assms(1)] ins_full [OF assms(1,2) \<open>lookup t k = None\<close>] assms(4)
    by (cases "card (dom (lookup t)) = room t") auto
  ultimately obtain t'' where "ins t k v = Some (True, t'')" "inv t''" "lookup t'' = (lookup t)(k \<mapsto> v)"
    using ins_new assms(1,2) by blast
  with assms show ?thesis by (simp add: find_lookup)
qed

lemma ins_del:
  assumes "inv t" "ok k" "ins t k v = Some (True, t')"
  shows "\<exists>t''. del t' k = Some (True, t'') \<and> inv t'' \<and> lookup t'' = lookup t"
proof -
  have none: "lookup t k = None" using assms ins_dup by fastforce
  moreover have "card (dom (lookup t)) < room t"
    using bounded [OF assms(1)] ins_full [OF assms(1,2) none] assms(3)
    by (cases "card (dom (lookup t)) = room t") auto
  ultimately obtain t1 where "ins t k v = Some (True, t1)" "inv t1" "lookup t1 = (lookup t)(k \<mapsto> v)"
    using ins_new assms(1,2) by blast
  with assms del_hit [of t' k] none show ?thesis by (fastforce simp: fun_upd_idem_iff)
qed

lemma ins_indexes:
  assumes "inv t" "ok k" "indexes (lookup t) S f" "k \<notin> f ` S" "v \<notin> S" "f v = k"
    "card S < room t"
  obtains t' where "ins t k v = Some (True, t')" "inv t'" "indexes (lookup t') (insert v S) f"
    "room t' = room t"
proof -
  have "lookup t k = None" using assms(3,4) by (simp add: indexes_None)
  then obtain t' where "ins t k v = Some (True, t')" "inv t'" "lookup t' = (lookup t)(k \<mapsto> v)" "room t' = room t"
    using ins_new [of t k v] assms by (auto simp: indexes_card)
  moreover from this have "indexes (lookup t') (insert v S) f"
    using assms(3-6) by (auto simp: indexes_def image_iff)
  ultimately show ?thesis by (intro that [of t'])
qed

lemma del_indexes:
  assumes "inv t" "ok k" "indexes (lookup t) S f" "v \<in> S" "f v = k"
  obtains t' where "del t k = Some (True, t')" "inv t'" "indexes (lookup t') (S - {v}) f"
    "room t' = room t"
proof -
  have "lookup t k = Some v" using assms(3-5) by (simp add: indexes_def)
  then obtain t' where t': "del t k = Some (True, t')" "inv t'" "lookup t' = (lookup t)(k := None)" "room t' = room t"
    using del_hit [of t k] assms by auto
  moreover have "indexes (lookup t') (S - {v}) f"
    using assms(3-5) indexes_inj [OF assms(3)] unfolding indexes_def t'(3)
    by (auto simp: inj_on_def)
  ultimately show ?thesis by (intro that [of t'])
qed

end

interpretation foi: id_map "index_insert hash" "index_find hash" "index_erase hash"
    "index_inv hash" index_map "\<lambda>t. unat (capacity t)" "\<lambda>k. k \<noteq> 0" for hash
proof unfold_locales
  fix t and k :: OrderId and v :: OrderIndex
  assume inv: "index_inv hash t"
  show "card (dom (index_map t)) \<le> unat (capacity t)"
    using card_dom_index_map [OF inv] occupied_le by simp
  assume k: "k \<noteq> 0"
  show "index_find hash t k = Some (index_map t k)"
    using inv k by (rule index_contains_iff)
  show "index_insert hash t k v = Some (False, t)" if "index_map t k \<noteq> None"
    using inv that k by (rule index_insert_dup)
  show "index_insert hash t k v = Some (False, t)"
    if "index_map t k = None" "card (dom (index_map t)) = unat (capacity t)"
    using inv that(1) k that(2) by (rule index_insert_full)
  show "\<exists>t'. index_insert hash t k v = Some (True, t') \<and> index_inv hash t' \<and>
      index_map t' = (index_map t)(k \<mapsto> v) \<and> unat (capacity t') = unat (capacity t)"
    if "index_map t k = None" "card (dom (index_map t)) < unat (capacity t)"
    by (rule index_insert_new [OF inv that(1) k that(2)]) auto
  show "\<exists>t'. index_erase hash t k = Some (True, t') \<and> index_inv hash t' \<and>
      index_map t' = (index_map t)(k := None) \<and> unat (capacity t') = unat (capacity t)"
    if "index_map t k \<noteq> None"
    using that by (auto intro: index_erase_hit [OF inv _ k])
  show "index_erase hash t k = Some (False, t)" if "index_map t k = None"
    using inv that k by (rule find_erase_miss)
qed

end
