(* ===== verification/Execution_Sink.thy ===== *)
theory Execution_Sink
  imports Clob_Types
begin

text \<open>
  \<open>execution_sink.hpp\<close>: where the matching engine reports its trades. The engine is a
  template over the sink; here a sink is a state type with the function \<open>emplace_back\<close>
  on it. The three sinks of the repository are the raw \<open>ExecutionBuffer\<close>, the
  \<open>NullExecutionSink\<close> and \<open>std::vector<Execution>\<close>.

  The contract is the locale \<open>execution_sink\<close> (reports are accepted while they fit),
  extended by \<open>recording_sink\<close> for the sinks that keep what they are given, in order.
\<close>

type_synonym 's emplace = "'s \<Rightarrow> OrderId \<Rightarrow> OrderId \<Rightarrow> Price \<Rightarrow> Quantity \<Rightarrow> 's option"

subsection \<open>ExecutionBuffer\<close>

text \<open>\<open>data_\<close> is a null pointer (None) until the first \<open>reserve\<close>.\<close>

record ExecutionBuffer =
  buf_data :: "Execution list option"
  buf_capacity :: size_t
  buf_size :: size_t

definition buffer_new :: ExecutionBuffer where
  "buffer_new = \<lparr>buf_data = None, buf_capacity = 0, buf_size = 0\<rparr>"

definition buffer_reserve :: "ExecutionBuffer \<Rightarrow> size_t \<Rightarrow> ExecutionBuffer" where
  "buffer_reserve s new_capacity =
     (if new_capacity \<le> buf_capacity s then s
      else let new_data = replicate (unat new_capacity) (mk_execution 0 0 0 0);
               new_data = (case buf_data s of
                   None \<Rightarrow> new_data
                 | Some d \<Rightarrow> take (unat (buf_size s)) d @ drop (unat (buf_size s)) new_data)
           in s\<lparr>buf_data := Some new_data, buf_capacity := new_capacity\<rparr>)"

definition buffer_emplace_back :: "ExecutionBuffer emplace" where
  "buffer_emplace_back s incoming resting prc quantity = do {
     assert_that (buf_size s < buf_capacity s);
     d \<leftarrow> buf_data s;
     d' \<leftarrow> write_at d (unat (buf_size s)) (mk_execution incoming resting prc quantity);
     Some (s\<lparr>buf_data := Some d', buf_size := buf_size s + 1\<rparr>)
   }"

definition buffer_size :: "ExecutionBuffer \<Rightarrow> size_t" where
  "buffer_size s = buf_size s"

definition buffer_clear :: "ExecutionBuffer \<Rightarrow> ExecutionBuffer" where
  "buffer_clear s = s\<lparr>buf_size := 0\<rparr>"

subsection \<open>NullExecutionSink and std::vector\<close>

definition null_emplace_back :: "unit emplace" where
  "null_emplace_back s incoming resting prc quantity = Some s"

lemma null_emplace_bind [simp]: "do { s' \<leftarrow> null_emplace_back s i r p q; f s' } = f s"
  by (simp add: null_emplace_back_def)

definition null_reserve :: "unit \<Rightarrow> size_t \<Rightarrow> unit" where
  "null_reserve s n = s"

definition null_size :: "unit \<Rightarrow> size_t" where
  "null_size s = 0"

definition null_clear :: "unit \<Rightarrow> unit" where
  "null_clear s = s"

definition vector_emplace_back :: "Execution list emplace" where
  "vector_emplace_back s incoming resting prc quantity =
     Some (s @ [mk_execution incoming resting prc quantity])"

subsection \<open>The contract of a sink\<close>

text \<open>Reporting a list of executions, one \<open>emplace_back\<close> each, in order.\<close>

fun emit_all :: "'s emplace \<Rightarrow> 's \<Rightarrow> Execution list \<Rightarrow> 's option" where
  "emit_all emplace s [] = Some s"
| "emit_all emplace s (e # es) = do {
     s' \<leftarrow> emplace s (incoming_order_id e) (resting_order_id e) (exec_price e) (exec_qty e);
     emit_all emplace s' es
   }"

lemma mk_execution_collapse [simp]:
  "mk_execution (incoming_order_id e) (resting_order_id e) (exec_price e) (exec_qty e) = e"
  by (simp add: mk_execution_def)

lemma emit_all_append:
  "emit_all emplace s (es @ es') = do { s' \<leftarrow> emit_all emplace s es; emit_all emplace s' es' }"
  by (induction es arbitrary: s) (auto simp: bind_eq_None_conv split: bind_splits)

locale execution_sink =
  fixes emplace :: "'s emplace"
    and sink_ok :: "'s \<Rightarrow> bool"
    and fits :: "'s \<Rightarrow> nat \<Rightarrow> bool"
  assumes emplace_fits: "sink_ok s \<Longrightarrow> fits s (Suc n) \<Longrightarrow>
      \<exists>s'. emplace s i r p q = Some s' \<and> sink_ok s' \<and> fits s' n"
    and fits_mono: "fits s n \<Longrightarrow> m \<le> n \<Longrightarrow> fits s m"
begin

lemma emit_all_fits:
  "sink_ok s \<Longrightarrow> fits s (length es + n) \<Longrightarrow> \<exists>s'. emit_all emplace s es = Some s' \<and> sink_ok s' \<and> fits s' n"
proof (induction es arbitrary: s)
  case (Cons e es)
  then obtain s' where "emplace s (incoming_order_id e) (resting_order_id e) (exec_price e) (exec_qty e) = Some s'"
      "sink_ok s'" "fits s' (length es + n)"
    using emplace_fits [of s "length es + n"] by fastforce
  with Cons.IH [of s'] show ?case by auto
qed simp

end

locale recording_sink = execution_sink +
  fixes reports :: "'s \<Rightarrow> Execution list"
  assumes emplace_reports: "sink_ok s \<Longrightarrow> fits s (Suc 0) \<Longrightarrow> emplace s i r p q = Some s' \<Longrightarrow>
      reports s' = reports s @ [mk_execution i r p q]"
begin

lemma emit_all_reports:
  "sink_ok s \<Longrightarrow> fits s (length es) \<Longrightarrow>
   \<exists>s'. emit_all emplace s es = Some s' \<and> sink_ok s' \<and> reports s' = reports s @ es"
proof (induction es arbitrary: s)
  case (Cons e es)
  then obtain s' where s': "emplace s (incoming_order_id e) (resting_order_id e) (exec_price e) (exec_qty e) = Some s'"
      "sink_ok s'" "fits s' (length es)"
    using emplace_fits [of s "length es"] by fastforce
  moreover have "fits s (Suc 0)" using Cons.prems(2) fits_mono by fastforce
  ultimately have "reports s' = reports s @ [e]"
    using emplace_reports [OF Cons.prems(1) _ s'(1)] by simp
  with Cons.IH [OF s'(2,3)] s'(1) show ?case by auto
qed simp

end

definition buffer_ok :: "ExecutionBuffer \<Rightarrow> bool" where
  "buffer_ok s \<longleftrightarrow> buf_size s \<le> buf_capacity s \<and>
     (case buf_data s of None \<Rightarrow> buf_capacity s = 0 | Some d \<Rightarrow> length d = unat (buf_capacity s))"

definition buffer_fits :: "ExecutionBuffer \<Rightarrow> nat \<Rightarrow> bool" where
  "buffer_fits s n \<longleftrightarrow> unat (buf_size s) + n \<le> unat (buf_capacity s)"

definition buffer_reports :: "ExecutionBuffer \<Rightarrow> Execution list" where
  "buffer_reports s = (case buf_data s of None \<Rightarrow> [] | Some d \<Rightarrow> take (unat (buf_size s)) d)"

lemma buffer_emplace_run:
  assumes "buffer_ok s" and "buffer_fits s (Suc n)"
  obtains s' where "buffer_emplace_back s i r p q = Some s'" "buffer_ok s'" "buffer_fits s' n"
    "buffer_reports s' = buffer_reports s @ [mk_execution i r p q]"
proof -
  have lt: "buf_size s < buf_capacity s"
    using assms(2) by (simp add: buffer_fits_def word_less_nat_alt)
  then obtain d where d: "buf_data s = Some d" "length d = unat (buf_capacity s)"
    using assms(1) by (auto simp: buffer_ok_def split: option.splits)
  have sz: "unat (buf_size s) < length d" using lt d(2) by (simp add: word_less_nat_alt)
  let ?s = "s\<lparr>buf_data := Some (d[unat (buf_size s) := mk_execution i r p q]), buf_size := buf_size s + 1\<rparr>"
  have inc: "unat (buf_size s + 1) = Suc (unat (buf_size s))" by (rule unat_inc [OF lt])
  show ?thesis
    using lt d sz inc assms
    by (intro that [of ?s])
       (simp_all add: buffer_emplace_back_def buffer_ok_def buffer_fits_def buffer_reports_def
          word_le_nat_alt take_Suc_conv_app_nth)
qed

lemma buffer_reserved:
  assumes "buffer_ok s"
  shows "buffer_ok (buffer_reserve s n)" and "buffer_reports (buffer_reserve s n) = buffer_reports s"
    and "unat (buf_size s) + m \<le> unat n \<Longrightarrow> buffer_fits (buffer_reserve s n) m"
proof -
  have le: "unat (buf_size s) \<le> unat (buf_capacity s)" using assms by (simp add: buffer_ok_def word_le_nat_alt)
  then show "buffer_ok (buffer_reserve s n)" and "buffer_reports (buffer_reserve s n) = buffer_reports s"
    and "unat (buf_size s) + m \<le> unat n \<Longrightarrow> buffer_fits (buffer_reserve s n) m"
    using assms
    by (auto simp: buffer_reserve_def buffer_ok_def buffer_reports_def buffer_fits_def Let_def
          word_le_nat_alt min_def split: option.splits)
qed

interpretation buffer_sink: recording_sink buffer_emplace_back buffer_ok buffer_fits buffer_reports
proof unfold_locales
  show "\<exists>s'. buffer_emplace_back s i r p q = Some s' \<and> buffer_ok s' \<and> buffer_fits s' n"
    if "buffer_ok s" "buffer_fits s (Suc n)" for s n i r p q
    by (rule buffer_emplace_run [OF that]) blast
  show "buffer_fits s m" if "buffer_fits s n" "m \<le> n" for s n m
    using that by (simp add: buffer_fits_def)
  show "buffer_reports s' = buffer_reports s @ [mk_execution i r p q]"
    if "buffer_ok s" "buffer_fits s (Suc 0)" "buffer_emplace_back s i r p q = Some s'" for s i r p q s'
    by (rule buffer_emplace_run [OF that(1,2), of i r p q]) (use that(3) in simp)
qed

interpretation vector_sink: recording_sink vector_emplace_back "\<lambda>_. True" "\<lambda>_ _. True" "\<lambda>s. s"
  by unfold_locales (auto simp: vector_emplace_back_def)

interpretation null_sink: execution_sink null_emplace_back "\<lambda>_. True" "\<lambda>_ _. True"
  by unfold_locales (auto simp: null_emplace_back_def)

lemma buffer_emplace_room:
  assumes "buffer_emplace_back s i r p q = Some s'"
  shows "buffer_fits s' n \<longleftrightarrow> buffer_fits s (Suc n)"
proof -
  have "buf_size s < buf_capacity s" "buf_size s' = buf_size s + 1" "buf_capacity s' = buf_capacity s"
    using assms by (auto simp: buffer_emplace_back_def assert_that_def split: if_splits bind_splits)
  then show ?thesis using unat_inc [of "buf_size s"] by (simp add: buffer_fits_def)
qed

lemma emit_all_overrun:
  "buffer_ok s \<Longrightarrow> \<not> buffer_fits s (length es) \<Longrightarrow> emit_all buffer_emplace_back s es = None"
proof (induction es arbitrary: s)
  case Nil
  then show ?case by (simp add: buffer_ok_def buffer_fits_def word_le_nat_alt)
next
  case (Cons e es)
  let ?run = "buffer_emplace_back s (incoming_order_id e) (resting_order_id e) (exec_price e) (exec_qty e)"
  show ?case
  proof (cases ?run)
    case (Some s')
    then have "buf_size s < buf_capacity s"
      by (auto simp: buffer_emplace_back_def assert_that_def split: if_splits bind_splits)
    then have "buffer_fits s (Suc 0)" by (simp add: buffer_fits_def word_less_nat_alt)
    then have "buffer_ok s'"
      using buffer_sink.emplace_fits [OF Cons.prems(1)] Some by (metis option.inject)
    then show ?thesis using Cons.IH [of s'] Cons.prems(2) Some buffer_emplace_room [OF Some] by simp
  qed simp
qed

subsection \<open>What the raw buffer promises\<close>

text \<open>The buffer is overrun exactly when it is full: on a well-formed buffer \<open>emplace_back\<close>
  faults if and only if the size has reached the capacity, and otherwise appends the report;
  reserving never loses a report and makes room for the difference, and clearing empties it.\<close>

theorem buffer_overrun_iff_full:
  assumes "buffer_ok s"
  shows "(buffer_emplace_back s i r p q = None \<longleftrightarrow> buffer_size s = buf_capacity s) \<and>
    (\<forall>s'. buffer_emplace_back s i r p q = Some s' \<longrightarrow>
      buffer_ok s' \<and> buffer_reports s' = buffer_reports s @ [mk_execution i r p q]) \<and>
    buffer_ok (buffer_reserve s n) \<and> buffer_reports (buffer_reserve s n) = buffer_reports s \<and>
    n \<le> buf_capacity (buffer_reserve s n) \<and>
    buffer_ok (buffer_clear s) \<and> buffer_reports (buffer_clear s) = []"
proof (intro conjI)
  have le: "buf_size s \<le> buf_capacity s" using assms by (simp add: buffer_ok_def)
  have fits: "buffer_fits s (Suc 0)" if "buf_size s \<noteq> buf_capacity s"
  proof -
    have "buf_size s < buf_capacity s" using le that by simp
    then show ?thesis by (simp add: buffer_fits_def word_less_nat_alt)
  qed
  have full: "buffer_emplace_back s i r p q = None" if "buf_size s = buf_capacity s"
    using that by (simp add: buffer_emplace_back_def)
  show "buffer_emplace_back s i r p q = None \<longleftrightarrow> buffer_size s = buf_capacity s"
  proof (cases "buf_size s = buf_capacity s")
    case False
    then show ?thesis
      by (rule_tac buffer_emplace_run [OF assms fits, of i r p q]) (simp_all add: buffer_size_def)
  qed (simp add: full buffer_size_def)
  show "\<forall>s'. buffer_emplace_back s i r p q = Some s' \<longrightarrow>
      buffer_ok s' \<and> buffer_reports s' = buffer_reports s @ [mk_execution i r p q]"
  proof (cases "buf_size s = buf_capacity s")
    case False
    then show ?thesis by (rule_tac buffer_emplace_run [OF assms fits, of i r p q]) simp_all
  qed (simp add: full)
  show "buffer_ok (buffer_reserve s n)" "buffer_reports (buffer_reserve s n) = buffer_reports s"
    using buffer_reserved [OF assms] by simp_all
  show "n \<le> buf_capacity (buffer_reserve s n)" by (simp add: buffer_reserve_def Let_def)
  show "buffer_ok (buffer_clear s)" "buffer_reports (buffer_clear s) = []"
    using assms by (auto simp: buffer_ok_def buffer_clear_def buffer_reports_def split: option.splits)
qed

theorem buffer_overrun_iff_full_witness:
  "buffer_emplace_back (buffer_reserve buffer_new 0) 1 2 3 4 = None \<and>
   buffer_emplace_back (buffer_reserve buffer_new 1) 1 2 3 4 \<noteq> None"
proof -
  have ok: "buffer_ok buffer_new" by (simp add: buffer_ok_def buffer_new_def)
  note T = buffer_overrun_iff_full
  have "buffer_ok (buffer_reserve buffer_new 0)" "buffer_ok (buffer_reserve buffer_new 1)"
    using T [OF ok] by blast+
  note T [OF this(1), of 1 2 3 4] T [OF this(2), of 1 2 3 4]
  then show ?thesis by (simp add: buffer_size_def buffer_reserve_def buffer_new_def)
qed

end
