(* ===== verification/Fixed_Clob.thy ===== *)
theory Fixed_Clob
  imports Price_Queue Order_Index Execution_Sink
begin

text \<open>
  \<open>fixed_clob.hpp\<close>: the order book. This theory holds the state of the class and its
  member functions, in the order of the source's call graph; the invariant and the
  proofs are in the theories that follow.

  The template parameters are \<open>max_orders\<close> of the pool and the argument \<open>hash\<close>; the
  sink of a call is its \<open>emplace\<close> function and its state. A reference to a price level
  is the side and price that select it; \<open>on_level\<close> runs a function on the referenced
  level and the pool and stores both back.
\<close>

record FixedClob =
  min_price :: Price
  max_price :: Price
  pool :: OrderPool
  bid_levels :: "PriceLevel list"
  ask_levels :: "PriceLevel list"
  order_lookup :: FixedOrderIndex
  best_bid_price :: "Price option"
  best_ask_price :: "Price option"

definition range_size :: "Price \<Rightarrow> Price \<Rightarrow> size_t option" where
  "range_size lo hi = do { assert_that (lo \<le> hi); Some (hi - lo + 1) }"

definition fixed_clob_new ::
    "(nat \<Rightarrow> OrderId) \<Rightarrow> (nat \<Rightarrow> OrderIndex) \<Rightarrow> size_t \<Rightarrow> Price \<Rightarrow> Price \<Rightarrow> FixedClob option" where
  "fixed_clob_new junk_keys junk_vals n lo hi = do {
     w \<leftarrow> range_size lo hi;
     Some \<lparr>min_price = lo, max_price = hi, pool = order_pool_new n,
       bid_levels = replicate (unat w) default_level,
       ask_levels = replicate (unat w) default_level,
       order_lookup = order_index_new junk_keys junk_vals (2 * n),
       best_bid_price = None, best_ask_price = None\<rparr>
   }"

definition valid_price :: "FixedClob \<Rightarrow> Price \<Rightarrow> bool" where
  "valid_price b p \<longleftrightarrow> min_price b \<le> p \<and> p \<le> max_price b"

definition price_index :: "FixedClob \<Rightarrow> Price \<Rightarrow> size_t option" where
  "price_index b p = do { assert_that (valid_price b p); Some (p - min_price b) }"

definition levels :: "FixedClob \<Rightarrow> Side \<Rightarrow> PriceLevel list" where
  "levels b s = (case s of Buy \<Rightarrow> bid_levels b | Sell \<Rightarrow> ask_levels b)"

definition set_levels :: "FixedClob \<Rightarrow> Side \<Rightarrow> PriceLevel list \<Rightarrow> FixedClob" where
  "set_levels b s ls = (case s of Buy \<Rightarrow> b\<lparr>bid_levels := ls\<rparr> | Sell \<Rightarrow> b\<lparr>ask_levels := ls\<rparr>)"

definition level_at :: "FixedClob \<Rightarrow> Side \<Rightarrow> Price \<Rightarrow> PriceLevel option" where
  "level_at b s p = do { i \<leftarrow> price_index b p; read_at (levels b s) (unat i) }"

definition on_level ::
    "FixedClob \<Rightarrow> Side \<Rightarrow> Price \<Rightarrow> (OrderPool \<Rightarrow> PriceLevel \<Rightarrow> (OrderPool \<times> PriceLevel) option)
     \<Rightarrow> FixedClob option" where
  "on_level b s p f = do {
     i \<leftarrow> price_index b p;
     l \<leftarrow> read_at (levels b s) (unat i);
     (pl, l') \<leftarrow> f (pool b) l;
     ls \<leftarrow> write_at (levels b s) (unat i) l';
     Some (set_levels (b\<lparr>pool := pl\<rparr>) s ls)
   }"

subsection \<open>Best prices\<close>

definition update_best_after_add :: "FixedClob \<Rightarrow> Side \<Rightarrow> Price \<Rightarrow> FixedClob" where
  "update_best_after_add b s p =
     (case s of
        Buy \<Rightarrow> (case best_bid_price b of
            None \<Rightarrow> b\<lparr>best_bid_price := Some p\<rparr>
          | Some bp \<Rightarrow> if p > bp then b\<lparr>best_bid_price := Some p\<rparr> else b)
      | Sell \<Rightarrow> (case best_ask_price b of
            None \<Rightarrow> b\<lparr>best_ask_price := Some p\<rparr>
          | Some ap \<Rightarrow> if p < ap then b\<lparr>best_ask_price := Some p\<rparr> else b))"

text \<open>The two \<open>while\<close> loops of \<open>refresh_best_after_empty_level\<close>.\<close>

function refresh_bid :: "FixedClob \<Rightarrow> Price \<Rightarrow> FixedClob option" where
  "refresh_bid b p =
     (if p > min_price b then do {
        i \<leftarrow> price_index b (p - 1);
        l \<leftarrow> read_at (bid_levels b) (unat i);
        if \<not> level_empty l then Some (b\<lparr>best_bid_price := Some (p - 1)\<rparr>)
        else refresh_bid b (p - 1)
      }
      else Some (b\<lparr>best_bid_price := None\<rparr>))"
  by pat_completeness auto
termination
proof (relation "measure (\<lambda>(b, p). unat p)", simp)
  fix b :: FixedClob and p i :: size_t and l :: PriceLevel
  assume "min_price b < p"
  then have "p \<noteq> 0" by auto
  then show "((b, p - 1), b, p) \<in> measure (\<lambda>(b, p). unat p)"
    by (simp add: unat_dec unat_gt_0)
qed

function refresh_ask :: "FixedClob \<Rightarrow> Price \<Rightarrow> FixedClob option" where
  "refresh_ask b p =
     (if p < max_price b then do {
        i \<leftarrow> price_index b (p + 1);
        l \<leftarrow> read_at (ask_levels b) (unat i);
        if \<not> level_empty l then Some (b\<lparr>best_ask_price := Some (p + 1)\<rparr>)
        else refresh_ask b (p + 1)
      }
      else Some (b\<lparr>best_ask_price := None\<rparr>))"
  by pat_completeness auto
termination
proof (relation "measure (\<lambda>(b, p). unat (max_price b) - unat p)", simp)
  fix b :: FixedClob and p i :: size_t and l :: PriceLevel
  assume lt: "p < max_price b"
  then show "((b, p + 1), b, p) \<in> measure (\<lambda>(b, p). unat (max_price b) - unat p)"
    by (simp add: unat_inc [OF lt] word_less_nat_alt diff_less_mono2)
qed

declare refresh_bid.simps [simp del] refresh_ask.simps [simp del]

definition refresh_best_after_empty_level :: "FixedClob \<Rightarrow> Side \<Rightarrow> Price \<Rightarrow> FixedClob option" where
  "refresh_best_after_empty_level b s p =
     (case s of
        Buy \<Rightarrow> (if best_bid_price b \<noteq> Some p then Some b else refresh_bid b p)
      | Sell \<Rightarrow> (if best_ask_price b \<noteq> Some p then Some b else refresh_ask b p))"

subsection \<open>Adding and removing orders\<close>

definition add_order ::
    "hash_fn \<Rightarrow> FixedClob \<Rightarrow> OrderId \<Rightarrow> Side \<Rightarrow> Price \<Rightarrow> Quantity \<Rightarrow> (bool \<times> FixedClob) option" where
  "add_order hash b oid s p q =
     (if q = 0 \<or> \<not> valid_price b p then Some (False, b)
      else do {
        (maybe_idx, pl) \<leftarrow> allocate (pool b);
        case maybe_idx of
          None \<Rightarrow> Some (False, b\<lparr>pool := pl\<rparr>)
        | Some idx \<Rightarrow> do {
            (inserted, lk) \<leftarrow> index_insert hash (order_lookup b) oid idx;
            if \<not> inserted then do {
              pl \<leftarrow> release pl idx;
              Some (False, b\<lparr>pool := pl, order_lookup := lk\<rparr>)
            } else do {
              pl \<leftarrow> pool_modify pl idx
                (\<lambda>ord. ord\<lparr>order_id := oid, price := p, qty := q, side := s\<rparr>);
              b \<leftarrow> on_level (b\<lparr>pool := pl, order_lookup := lk\<rparr>) s p
                (\<lambda>pl l. append_to_level pl l idx);
              Some (True, update_best_after_add b s p)
            }
          }
      })"

definition remove_order_by_index :: "hash_fn \<Rightarrow> FixedClob \<Rightarrow> OrderIndex \<Rightarrow> FixedClob option" where
  "remove_order_by_index hash b idx = do {
     ord \<leftarrow> pool_get (pool b) idx;
     let s = side ord;
     let p = price ord;
     b \<leftarrow> on_level b s p (\<lambda>pl l. unlink_from_level pl l idx);
     ord \<leftarrow> pool_get (pool b) idx;
     (erased, lk) \<leftarrow> index_erase hash (order_lookup b) (order_id ord);
     pl \<leftarrow> release (pool b) idx;
     let b = b\<lparr>order_lookup := lk, pool := pl\<rparr>;
     l \<leftarrow> level_at b s p;
     if level_empty l then refresh_best_after_empty_level b s p else Some b
   }"

definition cancel_order :: "hash_fn \<Rightarrow> FixedClob \<Rightarrow> OrderId \<Rightarrow> (bool \<times> FixedClob) option" where
  "cancel_order hash b oid = do {
     maybe_idx \<leftarrow> index_find hash (order_lookup b) oid;
     case maybe_idx of
       None \<Rightarrow> Some (False, b)
     | Some idx \<Rightarrow> do { b \<leftarrow> remove_order_by_index hash b idx; Some (True, b) }
   }"

subsection \<open>Matching\<close>

text \<open>The level \<open>best_opposite_level\<close> refers to, as the side and price that select it.\<close>

definition best_opposite_level :: "FixedClob \<Rightarrow> Side \<Rightarrow> (Side \<times> Price) option" where
  "best_opposite_level b incoming_side =
     (case incoming_side of
        Buy \<Rightarrow> do { p \<leftarrow> best_ask_price b; Some (Sell, p) }
      | Sell \<Rightarrow> do { p \<leftarrow> best_bid_price b; Some (Buy, p) })"

definition crosses :: "FixedClob \<Rightarrow> Side \<Rightarrow> Price \<Rightarrow> bool" where
  "crosses b incoming_side incoming_price =
     (case incoming_side of
        Buy \<Rightarrow> (case best_ask_price b of None \<Rightarrow> False | Some ap \<Rightarrow> ap \<le> incoming_price)
      | Sell \<Rightarrow> (case best_bid_price b of None \<Rightarrow> False | Some bp \<Rightarrow> bp \<ge> incoming_price))"

partial_function (option) match_at_level ::
    "hash_fn \<Rightarrow> 's emplace \<Rightarrow> Side \<Rightarrow> Price \<Rightarrow> OrderId \<Rightarrow> FixedClob \<Rightarrow> Quantity \<Rightarrow> 's
     \<Rightarrow> (FixedClob \<times> Quantity \<times> 's) option" where
  "match_at_level hash emplace ls lp incoming_id b incoming_qty ex = do {
     l \<leftarrow> level_at b ls lp;
     if incoming_qty > 0 \<and> order_count l > 0 then do {
       let idx = head_idx l;
       resting \<leftarrow> pool_get (pool b) idx;
       if incoming_qty < qty resting then do {
         ex \<leftarrow> emplace ex incoming_id (order_id resting) (price resting) incoming_qty;
         b \<leftarrow> on_level b ls lp (\<lambda>pl l. reduce_order_quantity pl l idx incoming_qty);
         Some (b, 0, ex)
       } else do {
         ex \<leftarrow> emplace ex incoming_id (order_id resting) (price resting) (qty resting);
         b \<leftarrow> remove_order_by_index hash b idx;
         match_at_level hash emplace ls lp incoming_id b (incoming_qty - qty resting) ex
       }
     } else Some (b, incoming_qty, ex)
   }"

partial_function (option) match_order ::
    "hash_fn \<Rightarrow> 's emplace \<Rightarrow> OrderId \<Rightarrow> Side \<Rightarrow> Price \<Rightarrow> FixedClob \<Rightarrow> Quantity \<Rightarrow> 's
     \<Rightarrow> (FixedClob \<times> Quantity \<times> 's) option" where
  "match_order hash emplace incoming_id incoming_side incoming_price b incoming_qty ex =
     (if incoming_qty > 0 \<and> crosses b incoming_side incoming_price then do {
        (ls, lp) \<leftarrow> best_opposite_level b incoming_side;
        (b, incoming_qty, ex) \<leftarrow> match_at_level hash emplace ls lp incoming_id b incoming_qty ex;
        match_order hash emplace incoming_id incoming_side incoming_price b incoming_qty ex
      } else Some (b, incoming_qty, ex))"

declare match_at_level.simps [code] match_order.simps [code]

definition submit_limit_order ::
    "hash_fn \<Rightarrow> 's emplace \<Rightarrow> FixedClob \<Rightarrow> OrderId \<Rightarrow> Side \<Rightarrow> Price \<Rightarrow> Quantity \<Rightarrow> 's
     \<Rightarrow> (bool \<times> FixedClob \<times> 's) option" where
  "submit_limit_order hash emplace b oid s p q ex =
     (if q = 0 \<or> \<not> valid_price b p then Some (False, b, ex)
      else do {
        known \<leftarrow> index_contains hash (order_lookup b) oid;
        if known then Some (False, b, ex)
        else do {
          (b, q, ex) \<leftarrow> match_order hash emplace oid s p b q ex;
          if q = 0 then Some (True, b, ex)
          else do {
            (added, b) \<leftarrow> add_order hash b oid s p q;
            Some (added, b, ex)
          }
        }
      })"

subsection \<open>Queries\<close>

definition best_bid :: "FixedClob \<Rightarrow> (Price \<times> Quantity) option option" where
  "best_bid b = (case best_bid_price b of
       None \<Rightarrow> Some None
     | Some p \<Rightarrow> do {
         i \<leftarrow> price_index b p;
         l \<leftarrow> read_at (bid_levels b) (unat i);
         Some (Some (p, total_qty l))
       })"

definition best_ask :: "FixedClob \<Rightarrow> (Price \<times> Quantity) option option" where
  "best_ask b = (case best_ask_price b of
       None \<Rightarrow> Some None
     | Some p \<Rightarrow> do {
         i \<leftarrow> price_index b p;
         l \<leftarrow> read_at (ask_levels b) (unat i);
         Some (Some (p, total_qty l))
       })"

definition quantity_at :: "FixedClob \<Rightarrow> Side \<Rightarrow> Price \<Rightarrow> Quantity option" where
  "quantity_at b s p =
     (if \<not> valid_price b p then Some 0 else do { l \<leftarrow> level_at b s p; Some (total_qty l) })"

definition order_count_at :: "FixedClob \<Rightarrow> Side \<Rightarrow> Price \<Rightarrow> size_t option" where
  "order_count_at b s p =
     (if \<not> valid_price b p then Some 0 else do { l \<leftarrow> level_at b s p; Some (order_count l) })"

definition front_order_id :: "FixedClob \<Rightarrow> Side \<Rightarrow> Price \<Rightarrow> OrderId option option" where
  "front_order_id b s p =
     (if \<not> valid_price b p then Some None
      else do {
        l \<leftarrow> level_at b s p;
        if head_idx l = null_order_index then Some None
        else do { ord \<leftarrow> pool_get (pool b) (head_idx l); Some (Some (order_id ord)) }
      })"

definition back_order_id :: "FixedClob \<Rightarrow> Side \<Rightarrow> Price \<Rightarrow> OrderId option option" where
  "back_order_id b s p =
     (if \<not> valid_price b p then Some None
      else do {
        l \<leftarrow> level_at b s p;
        if tail_idx l = null_order_index then Some None
        else do { ord \<leftarrow> pool_get (pool b) (tail_idx l); Some (Some (order_id ord)) }
      })"

definition active_orders :: "FixedClob \<Rightarrow> size_t" where
  "active_orders b = used (pool b)"

definition available_slots :: "FixedClob \<Rightarrow> size_t" where
  "available_slots b = available (pool b)"

definition clob_empty :: "FixedClob \<Rightarrow> bool" where
  "clob_empty b \<longleftrightarrow> pool_empty (pool b)"

end
