(* ===== verification/Clob_Inv.thy ===== *)
theory Clob_Inv
  imports Fixed_Clob
begin

text \<open>
  The representation invariant of the order book. It is stated with a ghost variable
  \<open>Q\<close>: \<open>Q s i\<close> is the queue of pool slots at index \<open>i\<close> of the levels of side \<open>s\<close>,
  oldest first. \<open>core_inv\<close> ties the pool, the two arrays of levels and the id table
  together; \<open>is_best\<close> says what the cached best prices mean; \<open>clob_inv\<close> is both.
  Every private operation is shown to run without a fault and to keep it.
\<close>

type_synonym queues = "Side \<Rightarrow> nat \<Rightarrow> OrderIndex list"

subsection \<open>Prices and level indices\<close>

definition width :: "FixedClob \<Rightarrow> nat" where
  "width b = unat (max_price b - min_price b) + 1"

definition price_of :: "FixedClob \<Rightarrow> nat \<Rightarrow> Price" where
  "price_of b i = min_price b + word_of_nat i"

definition idx_of :: "FixedClob \<Rightarrow> Price \<Rightarrow> nat" where
  "idx_of b p = unat (p - min_price b)"

lemma idx_of_valid:
  assumes "valid_price b p"
  shows "idx_of b p < width b" and "price_of b (idx_of b p) = p"
    and "idx_of b p = unat p - unat (min_price b)"
proof -
  have "unat (p - min_price b) = unat p - unat (min_price b)"
    and "unat (max_price b - min_price b) = unat (max_price b) - unat (min_price b)"
    and "unat p \<le> unat (max_price b)"
    using assms by (auto simp: valid_price_def word_le_nat_alt unat_sub intro: order_trans)
  then show "idx_of b p < width b" and "idx_of b p = unat p - unat (min_price b)"
    by (simp_all add: idx_of_def width_def)
  show "price_of b (idx_of b p) = p" by (simp add: price_of_def idx_of_def)
qed

lemma price_of_index:
  assumes "min_price b \<le> max_price b" and "i < width b"
  shows "valid_price b (price_of b i)" and "idx_of b (price_of b i) = i"
    and "unat (price_of b i) = unat (min_price b) + i"
proof -
  have d: "unat (max_price b - min_price b) = unat (max_price b) - unat (min_price b)"
    and le: "unat (min_price b) \<le> unat (max_price b)"
    using assms(1) by (simp_all add: word_le_nat_alt unat_sub)
  then have i: "unat (min_price b) + i \<le> unat (max_price b)" using assms(2) by (simp add: width_def)
  then have "i < 2 ^ 64" "unat (min_price b) + i < 2 ^ 64"
    using unat_less_2p64 [of "max_price b"] by simp_all
  then have ui: "unat (word_of_nat i :: Price) = i" by (intro unat_of_nat_less) simp
  then show u: "unat (price_of b i) = unat (min_price b) + i"
    using \<open>unat (min_price b) + i < 2 ^ 64\<close> by (simp add: price_of_def unat_plus_if')
  show "valid_price b (price_of b i)"
    using i u by (simp add: valid_price_def word_le_nat_alt)
  show "idx_of b (price_of b i) = i" using ui by (simp add: idx_of_def price_of_def)
qed

lemma price_of_less_iff:
  assumes "min_price b \<le> max_price b" "i < width b" "j < width b"
  shows "price_of b i < price_of b j \<longleftrightarrow> i < j" and "price_of b i \<le> price_of b j \<longleftrightarrow> i \<le> j"
    and "price_of b i = price_of b j \<longleftrightarrow> i = j"
proof -
  note u = price_of_index(3) [OF assms(1,2)] price_of_index(3) [OF assms(1,3)]
  show "price_of b i < price_of b j \<longleftrightarrow> i < j" and "price_of b i \<le> price_of b j \<longleftrightarrow> i \<le> j"
    by (simp_all add: word_less_nat_alt word_le_nat_alt u)
  show "price_of b i = price_of b j \<longleftrightarrow> i = j"
    using assms by (metis price_of_index(2))
qed

lemma valid_price_index [run_simps]:
  "valid_price b p \<Longrightarrow> price_index b p = Some (p - min_price b)"
  by (simp add: price_index_def)

subsection \<open>The invariant\<close>

definition order_ok :: "FixedClob \<Rightarrow> Side \<Rightarrow> nat \<Rightarrow> Order \<Rightarrow> bool" where
  "order_ok b s i ord \<longleftrightarrow> side ord = s \<and> price ord = price_of b i \<and> qty ord \<noteq> 0 \<and> order_id ord \<noteq> 0"

definition queued :: "queues \<Rightarrow> OrderIndex set" where
  "queued Q = (\<Union>s i. set (Q s i))"

abbreviation book_orders :: "FixedClob \<Rightarrow> Order list" where
  "book_orders b \<equiv> orders (pool b)"

definition levels_inv :: "nat \<Rightarrow> (Side \<Rightarrow> PriceLevel list) \<Rightarrow> Order list \<Rightarrow> queues \<Rightarrow> bool" where
  "levels_inv w lv os Q \<longleftrightarrow>
     (\<forall>s. length (lv s) = w) \<and>
     (\<forall>s. \<forall>i < w. level_inv os (lv s ! i) (Q s i)) \<and>
     (\<forall>s i. w \<le> i \<longrightarrow> Q s i = [])"

definition core_inv :: "hash_fn \<Rightarrow> FixedClob \<Rightarrow> queues \<Rightarrow> bool" where
  "core_inv hash b Q \<longleftrightarrow>
     min_price b \<le> max_price b \<and>
     pool_inv (pool b) \<and>
     index_inv hash (order_lookup b) \<and>
     unat (max_orders (pool b)) < unat (capacity (order_lookup b)) \<and>
     levels_inv (width b) (levels b) (book_orders b) Q \<and>
     (\<forall>s i. \<forall>x \<in> set (Q s i). order_ok b s i (ord_at (book_orders b) x)) \<and>
     live_slots (pool b) = queued Q \<and>
     indexes (index_map (order_lookup b)) (live_slots (pool b)) (\<lambda>x. order_id (ord_at (book_orders b) x))"

definition best_price :: "FixedClob \<Rightarrow> Side \<Rightarrow> Price option" where
  "best_price b s = (case s of Buy \<Rightarrow> best_bid_price b | Sell \<Rightarrow> best_ask_price b)"

text \<open>Index \<open>i\<close> is at least as good as \<open>j\<close> for side \<open>s\<close>.\<close>

definition better_eq :: "Side \<Rightarrow> nat \<Rightarrow> nat \<Rightarrow> bool" where
  "better_eq s i j \<longleftrightarrow> (case s of Buy \<Rightarrow> j \<le> i | Sell \<Rightarrow> i \<le> j)"

definition is_best :: "FixedClob \<Rightarrow> queues \<Rightarrow> Side \<Rightarrow> Price option \<Rightarrow> bool" where
  "is_best b Q s r \<longleftrightarrow> (case r of
       None \<Rightarrow> \<forall>i. Q s i = []
     | Some p \<Rightarrow> valid_price b p \<and> Q s (idx_of b p) \<noteq> [] \<and>
         (\<forall>i. Q s i \<noteq> [] \<longrightarrow> better_eq s (idx_of b p) i))"

definition clob_inv :: "hash_fn \<Rightarrow> FixedClob \<Rightarrow> queues \<Rightarrow> bool" where
  "clob_inv hash b Q \<longleftrightarrow> core_inv hash b Q \<and> (\<forall>s. is_best b Q s (best_price b s))"

text \<open>What no operation changes: the price range and the size of the pool.\<close>

definition same_frame :: "FixedClob \<Rightarrow> FixedClob \<Rightarrow> bool" where
  "same_frame b b' \<longleftrightarrow> min_price b' = min_price b \<and> max_price b' = max_price b \<and>
     max_orders (pool b') = max_orders (pool b)"

lemma same_frame_refl [simp]: "same_frame b b"
  by (simp add: same_frame_def)

lemma same_frame_trans: "same_frame a b \<Longrightarrow> same_frame b c \<Longrightarrow> same_frame a c"
  by (simp add: same_frame_def)

lemma same_frame_simps:
  assumes "same_frame b b'"
  shows "width b' = width b" "price_of b' = price_of b" "idx_of b' = idx_of b"
    "valid_price b' = valid_price b" "order_ok b' = order_ok b" "is_best b' = is_best b"
  using assms
  by (auto simp: same_frame_def width_def price_of_def idx_of_def valid_price_def order_ok_def
        is_best_def fun_eq_iff split: option.splits)

subsection \<open>Reading and updating levels\<close>

lemma levels_set_levels [simp]: "levels (set_levels b s ls) = (levels b)(s := ls)"
  by (auto simp: levels_def set_levels_def fun_eq_iff split: Side.split)

lemma set_levels_fields [simp]:
  "min_price (set_levels b s ls) = min_price b" "max_price (set_levels b s ls) = max_price b"
  "pool (set_levels b s ls) = pool b" "order_lookup (set_levels b s ls) = order_lookup b"
  "best_bid_price (set_levels b s ls) = best_bid_price b"
  "best_ask_price (set_levels b s ls) = best_ask_price b"
  by (simp_all add: set_levels_def split: Side.split)

lemma levels_updates [simp]:
  "levels (b\<lparr>pool := pl\<rparr>) = levels b" "levels (b\<lparr>order_lookup := lk\<rparr>) = levels b"
  "levels (b\<lparr>best_bid_price := r\<rparr>) = levels b" "levels (b\<lparr>best_ask_price := r\<rparr>) = levels b"
  by (simp_all add: levels_def fun_eq_iff split: Side.split)

definition upd_queue :: "queues \<Rightarrow> Side \<Rightarrow> nat \<Rightarrow> OrderIndex list \<Rightarrow> queues" where
  "upd_queue Q s i q = Q(s := (Q s)(i := q))"

lemma upd_queue_apply [simp]:
  "upd_queue Q s i q s' i' = (if s' = s \<and> i' = i then q else Q s' i')"
  by (simp add: upd_queue_def)

lemma upd_queue_twice [simp]: "upd_queue (upd_queue Q s i q) s i q' = upd_queue Q s i q'"
  by (simp add: upd_queue_def)

lemma upd_queue_same [simp]: "upd_queue Q s i (Q s i) = Q"
  by (simp add: upd_queue_def)

lemma queued_upd_mono: "set q \<subseteq> set (Q s i) \<Longrightarrow> queued (upd_queue Q s i q) \<subseteq> queued Q"
  by (force simp: queued_def split: if_splits)

lemma on_level_run:
  assumes "valid_price b p" and "idx_of b p < length (levels b s)"
    and "f (pool b) (levels b s ! idx_of b p) = Some (pl, l')"
  shows "on_level b s p f = Some (set_levels (b\<lparr>pool := pl\<rparr>) s ((levels b s)[idx_of b p := l']))"
  using assms by (simp add: on_level_def run_simps idx_of_def)

lemma level_at_run:
  "valid_price b p \<Longrightarrow> idx_of b p < length (levels b s) \<Longrightarrow>
   level_at b s p = Some (levels b s ! idx_of b p)"
  by (simp add: level_at_def run_simps idx_of_def)

lemma levels_inv_update:
  assumes inv: "levels_inv w lv os Q" and i: "i < w"
    and t: "touches A os os'"
    and apart: "\<And>s' j. (s', j) \<noteq> (s, i) \<Longrightarrow> A \<inter> set (Q s' j) = {}"
    and l: "level_inv os' l q"
  shows "levels_inv w (lv(s := (lv s)[i := l])) os' (upd_queue Q s i q)"
proof -
  have "level_inv os' ((lv(s := (lv s)[i := l])) s' ! j) (upd_queue Q s i q s' j)" if "j < w" for s' j
  proof (cases "(s', j) = (s, i)")
    case True
    then show ?thesis using l inv i by (auto simp: levels_inv_def)
  next
    case False
    have "level_inv os (lv s' ! j) (Q s' j)" using inv that by (simp add: levels_inv_def)
    moreover have "ord_at os' x = ord_at os x" if "x \<in> set (Q s' j)" for x
      using apart [OF False] that t by (auto simp: touches_def)
    ultimately have "level_inv os' (lv s' ! j) (Q s' j)" using level_inv_cong by blast
    then show ?thesis using False by (auto simp: nth_list_update)
  qed
  then show ?thesis using inv i by (auto simp: levels_inv_def)
qed

subsection \<open>Consequences of the invariant\<close>

lemma core_inv_cong:
  assumes "min_price b' = min_price b" "max_price b' = max_price b" "pool b' = pool b"
    "levels b' = levels b" "order_lookup b' = order_lookup b"
  shows "core_inv hash b' Q \<longleftrightarrow> core_inv hash b Q"
proof -
  have "same_frame b b'" using assms by (simp add: same_frame_def)
  then show ?thesis using assms by (simp add: core_inv_def same_frame_simps)
qed

lemma core_inv_best [simp]:
  "core_inv hash (b\<lparr>best_bid_price := r\<rparr>) Q \<longleftrightarrow> core_inv hash b Q"
  "core_inv hash (b\<lparr>best_ask_price := r\<rparr>) Q \<longleftrightarrow> core_inv hash b Q"
  by (rule core_inv_cong; simp)+

lemma core_width: "core_inv hash b Q \<Longrightarrow> Q s i \<noteq> [] \<Longrightarrow> i < width b"
  by (metis core_inv_def levels_inv_def linorder_not_le)

lemma core_basic:
  assumes "core_inv hash b Q"
  shows "min_price b \<le> max_price b" "pool_inv (pool b)" "index_inv hash (order_lookup b)"
    "levels_inv (width b) (levels b) (book_orders b) Q" "live_slots (pool b) = queued Q"
    "length (levels b s) = width b"
  using assms by (simp_all add: core_inv_def levels_inv_def)

lemma core_indexes:
  "core_inv hash b Q \<Longrightarrow>
   indexes (index_map (order_lookup b)) (live_slots (pool b)) (\<lambda>x. order_id (ord_at (book_orders b) x))"
  unfolding core_inv_def by blast

lemma core_order_ok:
  "core_inv hash b Q \<Longrightarrow> x \<in> set (Q s i) \<Longrightarrow> order_ok b s i (ord_at (book_orders b) x)"
  by (simp add: core_inv_def)

lemma core_slot:
  assumes "core_inv hash b Q" and "x \<in> set (Q s i)"
  shows "x \<in> live_slots (pool b)" "x \<in> all_slots (pool b)"
proof -
  show "x \<in> live_slots (pool b)"
    using assms by (auto simp: core_basic(5) [OF assms(1)] queued_def)
  then show "x \<in> all_slots (pool b)" by (simp add: live_slots_def)
qed

lemma core_disjoint:
  assumes inv: "core_inv hash b Q" and "x \<in> set (Q s i)" and "x \<in> set (Q s' j)"
  shows "s' = s \<and> j = i"
proof -
  have "order_ok b s i (ord_at (book_orders b) x)" "order_ok b s' j (ord_at (book_orders b) x)"
    using assms by (auto intro: core_order_ok)
  moreover have "i < width b" by (rule core_width [OF inv, of s]) (use assms(2) in auto)
  moreover have "j < width b" by (rule core_width [OF inv, of s']) (use assms(3) in auto)
  ultimately show ?thesis
    using price_of_less_iff(3) [OF core_basic(1) [OF inv]] by (auto simp: order_ok_def)
qed

lemma core_level:
  assumes "core_inv hash b Q" and "i < width b"
  shows "level_inv (book_orders b) (levels b s ! i) (Q s i)"
  using assms by (simp add: core_inv_def levels_inv_def)

text \<open>Access to the level and to the orders of a queue, as the code performs it.\<close>

lemma core_level_at:
  assumes "core_inv hash b Q" and "valid_price b p"
  shows "level_at b s p = Some (levels b s ! idx_of b p)"
  using assms idx_of_valid(1) [OF assms(2)] core_basic(6) [OF assms(1)] by (simp add: level_at_run)

lemma core_pool_get:
  assumes "core_inv hash b Q" and "x \<in> set (Q s i)"
  shows "pool_get (pool b) x = Some (ord_at (book_orders b) x)"
  using core_slot(2) [OF assms] core_basic(2) [OF assms(1)] by (simp add: run_simps ord_at_def)

lemma UN2_remove:
  assumes "\<And>s j. x \<notin> F s j" and "\<And>s j. F s j \<subseteq> G s j" and "\<And>s j. G s j \<subseteq> insert x (F s j)"
  shows "(\<Union>s j. F s j) = (\<Union>s j. G s j) - {x}"
proof (rule equalityI; rule subsetI)
  fix y
  assume "y \<in> (\<Union>s j. F s j)"
  then obtain s j where "y \<in> F s j" by auto
  then show "y \<in> (\<Union>s j. G s j) - {x}" using assms(1) [of s j] assms(2) [of s j] by auto
next
  fix y
  assume "y \<in> (\<Union>s j. G s j) - {x}"
  then obtain s j where "y \<in> G s j" "y \<noteq> x" by auto
  then show "y \<in> (\<Union>s j. F s j)" using assms(3) [of s j] by auto
qed

lemma queued_upd:
  assumes inv: "core_inv hash b Q" and q: "Q s i = xs @ x # ys"
  shows "queued (upd_queue Q s i (xs @ ys)) = queued Q - {x}"
proof -
  have i: "i < width b" using core_width [OF inv, of s i] q by simp
  have "x \<notin> set (xs @ ys)" using core_level [OF inv i, of s] q by (auto simp: level_inv_def)
  moreover have "x \<notin> set (Q s' j)" if "(s', j) \<noteq> (s, i)" for s' j
    using core_disjoint [OF inv, of x s i s' j] q that by auto
  ultimately have gone: "x \<notin> set (upd_queue Q s i (xs @ ys) s' j)" for s' j
    by (cases "(s', j) = (s, i)") auto
  have sub: "set (upd_queue Q s i (xs @ ys) s' j) \<subseteq> set (Q s' j)" for s' j
    using q by auto
  have sup: "set (Q s' j) \<subseteq> insert x (set (upd_queue Q s i (xs @ ys) s' j))" for s' j
    using q by auto
  show ?thesis unfolding queued_def by (rule UN2_remove [OF gone sub sup])
qed

subsection \<open>Refreshing the best price\<close>

lemma is_best_None: "is_best b Q s None \<longleftrightarrow> (\<forall>i. Q s i = [])"
  by (simp add: is_best_def)

lemma is_best_Some:
  "is_best b Q s (Some p) \<longleftrightarrow> valid_price b p \<and> Q s (idx_of b p) \<noteq> [] \<and>
     (\<forall>i. Q s i \<noteq> [] \<longrightarrow> better_eq s (idx_of b p) i)"
  by (simp add: is_best_def)

lemma idx_of_pred:
  assumes "valid_price b p" and "min_price b < p"
  shows "valid_price b (p - 1)" and "idx_of b p = Suc (idx_of b (p - 1))"
proof -
  have "p \<noteq> 0" using assms(2) by auto
  then have u: "unat (p - 1) = unat p - 1" by (rule unat_dec)
  have lt: "unat (min_price b) < unat p" using assms(2) by (simp add: word_less_nat_alt)
  then show v: "valid_price b (p - 1)"
    using assms u by (auto simp: valid_price_def word_le_nat_alt)
  show "idx_of b p = Suc (idx_of b (p - 1))"
    using lt u by (simp add: idx_of_valid(3) [OF assms(1)] idx_of_valid(3) [OF v])
qed

lemma idx_of_succ:
  assumes "valid_price b p" and lt: "p < max_price b"
  shows "valid_price b (p + 1)" and "idx_of b (p + 1) = Suc (idx_of b p)"
proof -
  have u: "unat (p + 1) = Suc (unat p)" by (rule unat_inc [OF lt])
  have le: "unat (min_price b) \<le> unat p" "unat p < unat (max_price b)"
    using assms by (simp_all add: valid_price_def word_le_nat_alt word_less_nat_alt)
  then show v: "valid_price b (p + 1)" using u by (simp add: valid_price_def word_le_nat_alt)
  show "idx_of b (p + 1) = Suc (idx_of b p)"
    using le u by (simp add: idx_of_valid(3) [OF assms(1)] idx_of_valid(3) [OF v])
qed

lemma refresh_bid_run:
  assumes "core_inv hash b Q" and "valid_price b p" and "\<And>i. Q Buy i \<noteq> [] \<Longrightarrow> i < idx_of b p"
  shows "\<exists>r. refresh_bid b p = Some (b\<lparr>best_bid_price := r\<rparr>) \<and> is_best b Q Buy r"
  using assms
proof (induction b p rule: refresh_bid.induct)
  case (1 b p)
  note inv = \<open>core_inv hash b Q\<close>
  show ?case
  proof (cases "min_price b < p")
    case False
    then have "p = min_price b" using 1(3) by (simp add: valid_price_def)
    then have "Q Buy i = []" for i using 1(4) [of i] by (auto simp: idx_of_def)
    then show ?thesis
      using False by (intro exI [of _ None]) (simp add: refresh_bid.simps [of b p] is_best_None)
  next
    case True
    let ?p = "p - 1" and ?i = "idx_of b (p - 1)"
    note pred = idx_of_pred [OF 1(3) True]
    have i: "?i < width b" by (rule idx_of_valid(1) [OF pred(1)])
    have idx: "price_index b ?p = Some (?p - min_price b)" by (rule valid_price_index [OF pred(1)])
    have rd: "read_at (bid_levels b) (unat (?p - min_price b)) = Some (levels b Buy ! ?i)"
      using i core_basic(6) [OF inv, of Buy] by (simp add: idx_of_def levels_def)
    have emp: "level_empty (levels b Buy ! ?i) \<longleftrightarrow> Q Buy ?i = []"
      by (rule level_empty_iff [OF core_level [OF inv i]])
    show ?thesis
    proof (cases "Q Buy ?i = []")
      case False
      then have "refresh_bid b p = Some (b\<lparr>best_bid_price := Some ?p\<rparr>)"
        using True by (simp add: refresh_bid.simps [of b p] idx rd emp)
      moreover have "is_best b Q Buy (Some ?p)"
        using False pred 1(4) by (force simp: is_best_Some better_eq_def)
      ultimately show ?thesis by blast
    next
      case empty: True
      have "i < ?i" if "Q Buy i \<noteq> []" for i
        using 1(4) [OF that] that empty pred(2) by (cases "i = ?i") auto
      then have "\<exists>r. refresh_bid b ?p = Some (b\<lparr>best_bid_price := r\<rparr>) \<and> is_best b Q Buy r"
        using 1(1) [OF True idx rd _ inv pred(1)] emp empty by blast
      then show ?thesis
        using True empty by (simp add: refresh_bid.simps [of b p] idx rd emp)
    qed
  qed
qed

lemma refresh_ask_run:
  assumes "core_inv hash b Q" and "valid_price b p" and "\<And>i. Q Sell i \<noteq> [] \<Longrightarrow> idx_of b p < i"
  shows "\<exists>r. refresh_ask b p = Some (b\<lparr>best_ask_price := r\<rparr>) \<and> is_best b Q Sell r"
  using assms
proof (induction b p rule: refresh_ask.induct)
  case (1 b p)
  note inv = \<open>core_inv hash b Q\<close>
  show ?case
  proof (cases "p < max_price b")
    case False
    then have "p = max_price b" using 1(3) by (simp add: valid_price_def)
    then have "width b = Suc (idx_of b p)" by (simp add: width_def idx_of_def)
    then have "Q Sell i = []" for i
      using 1(4) [of i] core_width [OF inv, of Sell i] by (cases "Q Sell i = []") auto
    then show ?thesis
      using False by (intro exI [of _ None]) (simp add: refresh_ask.simps [of b p] is_best_None)
  next
    case True
    let ?p = "p + 1" and ?i = "idx_of b (p + 1)"
    note succ = idx_of_succ [OF 1(3) True]
    have i: "?i < width b" by (rule idx_of_valid(1) [OF succ(1)])
    have idx: "price_index b ?p = Some (?p - min_price b)" by (rule valid_price_index [OF succ(1)])
    have rd: "read_at (ask_levels b) (unat (?p - min_price b)) = Some (levels b Sell ! ?i)"
      using i core_basic(6) [OF inv, of Sell] by (simp add: idx_of_def levels_def)
    have emp: "level_empty (levels b Sell ! ?i) \<longleftrightarrow> Q Sell ?i = []"
      by (rule level_empty_iff [OF core_level [OF inv i]])
    show ?thesis
    proof (cases "Q Sell ?i = []")
      case False
      then have "refresh_ask b p = Some (b\<lparr>best_ask_price := Some ?p\<rparr>)"
        using True by (simp add: refresh_ask.simps [of b p] idx rd emp)
      moreover have "is_best b Q Sell (Some ?p)"
        using False succ 1(4) by (force simp: is_best_Some better_eq_def)
      ultimately show ?thesis by blast
    next
      case empty: True
      have "?i < i" if "Q Sell i \<noteq> []" for i
        using 1(4) [OF that] that empty succ(2) by (cases "i = ?i") auto
      then have "\<exists>r. refresh_ask b ?p = Some (b\<lparr>best_ask_price := r\<rparr>) \<and> is_best b Q Sell r"
        using 1(1) [OF True idx rd _ inv succ(1)] emp empty by blast
      then show ?thesis
        using True empty by (simp add: refresh_ask.simps [of b p] idx rd emp)
    qed
  qed
qed

end
