(* ===== verification/Clob_Steps.thy ===== *)
theory Clob_Steps
  imports Clob_Inv
begin

text \<open>
  The operations that change the book, one by one: on a book that satisfies the
  invariant each runs without a fault, updates the ghost queues as it should, and
  keeps the invariant. Removal (used by cancel and by matching), partial fills,
  insertion of a new order, and the constructor.
\<close>

definition same_orders :: "FixedClob \<Rightarrow> FixedClob \<Rightarrow> bool" where
  "same_orders b b' \<longleftrightarrow> (\<forall>y. same_data (ord_at (book_orders b') y) (ord_at (book_orders b) y))"

lemma is_best_cong:
  "(\<And>j. Q' s j = [] \<longleftrightarrow> Q s j = []) \<Longrightarrow> is_best b Q' s r \<longleftrightarrow> is_best b Q s r"
  by (simp add: is_best_def split: option.split)

lemma best_price_updates [simp]:
  "best_price (b\<lparr>pool := pl\<rparr>) = best_price b" "best_price (b\<lparr>order_lookup := lk\<rparr>) = best_price b"
  "best_price (set_levels b s ls) = best_price b"
  by (simp_all add: best_price_def fun_eq_iff split: Side.split)

lemma best_price_set_best:
  "best_price (b\<lparr>best_bid_price := r\<rparr>) s = (if s = Buy then r else best_price b s)"
  "best_price (b\<lparr>best_ask_price := r\<rparr>) s = (if s = Sell then r else best_price b s)"
  by (simp_all add: best_price_def split: Side.split)

lemma is_best_set_best [simp]:
  "is_best (b\<lparr>best_bid_price := r\<rparr>) = is_best b" "is_best (b\<lparr>best_ask_price := r\<rparr>) = is_best b"
  by (intro same_frame_simps; simp add: same_frame_def)+

lemma better_eq_refl [simp]: "better_eq s i i"
  by (simp add: better_eq_def split: Side.split)

subsection \<open>Removing an order\<close>

lemma refresh_best_run:
  assumes core: "core_inv hash b (upd_queue Q s i [])"
    and p: "valid_price b p" "idx_of b p = i" and ne: "Q s i \<noteq> []"
    and best: "\<And>s'. is_best b Q s' (best_price b s')"
  shows "\<exists>b'. refresh_best_after_empty_level b s p = Some b' \<and> clob_inv hash b' (upd_queue Q s i []) \<and>
     same_frame b b' \<and> pool b' = pool b"
proof (cases "best_price b s = Some p")
  case False
  have "is_best b (upd_queue Q s i []) s' (best_price b s')" for s'
  proof (cases "s' = s")
    case True
    obtain p' where p': "best_price b s = Some p'"
      using best [of s] ne by (cases "best_price b s") (auto simp: is_best_def)
    then have v: "valid_price b p'" using best [of s] by (simp add: is_best_def)
    have "idx_of b p' \<noteq> i"
      using False p' p(2) idx_of_valid(2) [OF v] idx_of_valid(2) [OF p(1)] by metis
    then show ?thesis using best [of s] p' True by (simp add: is_best_def)
  next
    case False
    then show ?thesis using best [of s'] by (subst is_best_cong [of _ _ Q]) auto
  qed
  moreover have "refresh_best_after_empty_level b s p = Some b"
    using False by (simp add: refresh_best_after_empty_level_def best_price_def split: Side.splits)
  ultimately show ?thesis using core by (auto simp: clob_inv_def)
next
  case True
  have other: "is_best b (upd_queue Q s i []) s' (best_price b s')" if "s' \<noteq> s" for s'
    using that best [of s'] by (subst is_best_cong [of _ _ Q]) auto
  have beq: "better_eq s i j \<and> j \<noteq> i" if "upd_queue Q s i [] s j \<noteq> []" for j
    using that best [of s] True p(2) by (auto simp: is_best_def split: if_splits)
  show ?thesis
  proof (cases s)
    case Buy
    have "j < idx_of b p" if "upd_queue Q s i [] Buy j \<noteq> []" for j
      using beq [of j] that Buy p(2) by (simp add: better_eq_def)
    with refresh_bid_run [OF core p(1)] obtain r where
      r: "refresh_bid b p = Some (b\<lparr>best_bid_price := r\<rparr>)" "is_best b (upd_queue Q s i []) Buy r" by blast
    have "refresh_best_after_empty_level b s p = Some (b\<lparr>best_bid_price := r\<rparr>)"
      using True r(1) Buy by (simp add: refresh_best_after_empty_level_def best_price_def)
    then show ?thesis
      using core other r(2) Buy
      by (intro exI [of _ "b\<lparr>best_bid_price := r\<rparr>"])
         (simp add: clob_inv_def same_frame_def best_price_set_best)
  next
    case Sell
    have "idx_of b p < j" if "upd_queue Q s i [] Sell j \<noteq> []" for j
      using beq [of j] that Sell p(2) by (simp add: better_eq_def)
    with refresh_ask_run [OF core p(1)] obtain r where
      r: "refresh_ask b p = Some (b\<lparr>best_ask_price := r\<rparr>)" "is_best b (upd_queue Q s i []) Sell r" by blast
    have "refresh_best_after_empty_level b s p = Some (b\<lparr>best_ask_price := r\<rparr>)"
      using True r(1) Sell by (simp add: refresh_best_after_empty_level_def best_price_def)
    then show ?thesis
      using core other r(2) Sell
      by (intro exI [of _ "b\<lparr>best_ask_price := r\<rparr>"])
         (simp add: clob_inv_def same_frame_def best_price_set_best)
  qed
qed

lemma remove_order_run:
  assumes inv: "clob_inv hash b Q" and q: "Q s i = xs @ x # ys"
  obtains b' where
    "remove_order_by_index hash b x = Some b'"
    "clob_inv hash b' (upd_queue Q s i (xs @ ys))"
    "same_frame b b'" "same_orders b b'"
proof -
  let ?Q = "upd_queue Q s i (xs @ ys)" and ?os = "book_orders b" and ?p = "price_of b i"
  have core: "core_inv hash b Q" and best: "is_best b Q s' (best_price b s')" for s'
    using inv by (simp_all add: clob_inv_def)
  note basic = core_basic [OF core]
  have i: "i < width b" by (rule core_width [OF core, of s]) (simp add: q)
  have x: "x \<in> set (Q s i)" by (simp add: q)
  have p: "valid_price b ?p" "idx_of b ?p = i" using price_of_index [OF basic(1) i] by simp_all
  have ok: "side (ord_at ?os x) = s" "price (ord_at ?os x) = ?p" "order_id (ord_at ?os x) \<noteq> 0"
    using core_order_ok [OF core x] by (simp_all add: order_ok_def)
  have slots: "set (Q s i) \<subseteq> all_slots (pool b)" using core_slot(2) [OF core] by auto
  obtain os' l' where unlink: "unlink_from_level (pool b) (levels b s ! i) x =
        Some ((pool b)\<lparr>orders := os'\<rparr>, l')"
      and t: "touches (set (Q s i)) ?os os'"
      and data: "\<And>y. same_data (ord_at os' y) (ord_at ?os y)"
      and l': "level_inv os' l' (xs @ ys)"
    using unlink_from_level_run [OF basic(2), of xs x ys "levels b s ! i"] slots
      core_level [OF core i, of s] unfolding q by blast
  let ?pl = "(pool b)\<lparr>orders := os'\<rparr>"
  let ?b1 = "set_levels (b\<lparr>pool := ?pl\<rparr>) s ((levels b s)[i := l'])"
  have len: "i < length (levels b s)" using basic(6) i by simp
  have step1: "on_level b s ?p (\<lambda>pl l. unlink_from_level pl l x) = Some ?b1"
    using on_level_run [OF p(1), of s "\<lambda>pl l. unlink_from_level pl l x"] unlink len p(2) by simp
  have pl: "pool_inv ?pl" using basic(2) t by (simp add: pool_inv_orders_update touches_def)
  have live: "live_slots ?pl = live_slots (pool b)" by (simp add: live_slots_def)
  have xl: "x \<in> live_slots (pool b)" by (rule core_slot(1) [OF core x])
  have get2: "pool_get ?pl x = Some (ord_at os' x)"
    using xl pl by (simp add: run_simps ord_at_def live_slots_def)
  have ids: "order_id (ord_at os' y) = order_id (ord_at ?os y)" for y
    using data [of y] by (simp add: same_data_def)
  obtain lk where erase: "index_erase hash (order_lookup b) (order_id (ord_at ?os x)) = Some (True, lk)"
      and lk: "index_inv hash lk" "unat (capacity lk) = unat (capacity (order_lookup b))"
        "indexes (index_map lk) (live_slots (pool b) - {x}) (\<lambda>y. order_id (ord_at ?os y))"
    by (rule foi.del_indexes [OF basic(3) ok(3) core_indexes [OF core] xl refl])
  obtain pl' where rel: "release ?pl x = Some pl'" and pl': "pool_inv pl'"
      "live_slots pl' = live_slots (pool b) - {x}" "orders pl' = os'" "all_slots pl' = all_slots ?pl"
    by (rule pool.release_live [OF pl, of x]) (use xl live in \<open>simp_all add: live_slots_def\<close>)
  have mx: "max_orders pl' = max_orders (pool b)"
    using rel by (auto simp: release_def bind_eq_Some_conv)
  define b2 where "b2 = ?b1\<lparr>order_lookup := lk, pool := pl'\<rparr>"
  have frame: "same_frame b b2" by (simp add: b2_def same_frame_def mx)
  note fr = same_frame_simps [OF frame]
  have lv: "levels b2 = (levels b)(s := (levels b s)[i := l'])" by (simp add: b2_def)
  have "levels_inv (width b) (levels b2) os' ?Q"
    unfolding lv using basic(4) i t _ l'
  proof (rule levels_inv_update)
    show "set (Q s i) \<inter> set (Q s' j) = {}" if "(s', j) \<noteq> (s, i)" for s' j
      using core_disjoint [OF core] that by blast
  qed
  moreover have "order_ok b s' j (ord_at os' y)" if "y \<in> set (?Q s' j)" for s' j y
  proof -
    have "y \<in> set (Q s' j)" using that q by (auto split: if_splits)
    then show ?thesis
      using core_order_ok [OF core] data [of y] by (fastforce simp: order_ok_def same_data_def)
  qed
  moreover have "indexes (index_map lk) (live_slots pl') (\<lambda>y. order_id (ord_at os' y))"
    using lk(3) by (simp add: ids pl')
  moreover have "live_slots pl' = queued ?Q"
    using queued_upd [OF core q] basic(5) pl'(2) by simp
  ultimately have core2: "core_inv hash b2 ?Q"
    using core lk(1,2) pl' mx fr basic(1) unfolding core_inv_def
    by (simp add: b2_def)
  have lev: "level_at b2 s ?p = Some l'"
    using core_level_at [OF core2, of ?p s] p fr len by (simp add: lv)
  have le: "level_empty l' \<longleftrightarrow> xs @ ys = []" by (rule level_empty_iff [OF l'])
  have best2: "is_best b2 Q s' (best_price b2 s')" for s'
    using best [of s'] by (simp add: fr) (simp add: b2_def best_price_def split: Side.splits)
  have so: "same_orders b b2" using data by (simp add: same_orders_def b2_def pl')
  have run: "remove_order_by_index hash b x =
      (if level_empty l' then refresh_best_after_empty_level b2 s ?p else Some b2)"
    unfolding remove_order_by_index_def core_pool_get [OF core x] bind.bind_lunit Let_def ok(1,2) step1
    using get2 erase rel lev ids [of x] by (simp add: b2_def)
  show ?thesis
  proof (cases "xs @ ys = []")
    case True
    then obtain b3 where "refresh_best_after_empty_level b2 s ?p = Some b3"
        "clob_inv hash b3 ?Q" "same_frame b2 b3" "pool b3 = pool b2"
      using refresh_best_run [of hash b2 Q s i ?p] core2 p fr q best2 by auto
    then show ?thesis
      using run le True frame so
      by (intro that [of b3]) (auto simp: same_orders_def intro: same_frame_trans)
  next
    case False
    have "is_best b2 ?Q s' (best_price b2 s')" for s'
      using best2 [of s'] False q by (subst is_best_cong [of _ _ Q]) auto
    then show ?thesis
      using run le False frame so core2 by (intro that [of b2]) (auto simp: clob_inv_def)
  qed
qed

subsection \<open>A partial fill\<close>

lemma partial_fill_run:
  assumes inv: "clob_inv hash b Q" and q: "Q s i = xs @ x # ys"
    and lt: "t < qty (ord_at (book_orders b) x)"
  obtains b' where
    "on_level b s (price_of b i) (\<lambda>pl l. reduce_order_quantity pl l x t) = Some b'"
    "clob_inv hash b' Q" "same_frame b b'"
    "book_orders b' = (book_orders b)[unat x := ord_at (book_orders b) x
        \<lparr>qty := qty (ord_at (book_orders b) x) - t\<rparr>]"
    "unat x < length (book_orders b)"
proof -
  let ?os = "book_orders b" and ?p = "price_of b i"
  have core: "core_inv hash b Q" using inv by (simp add: clob_inv_def)
  note basic = core_basic [OF core]
  have i: "i < width b" by (rule core_width [OF core, of s]) (simp add: q)
  have x: "x \<in> set (Q s i)" by (simp add: q)
  have p: "valid_price b ?p" "idx_of b ?p = i" using price_of_index [OF basic(1) i] by simp_all
  have slots: "set (Q s i) \<subseteq> all_slots (pool b)" using core_slot(2) [OF core] by auto
  obtain os' l' where red: "reduce_order_quantity (pool b) (levels b s ! i) x t =
        Some ((pool b)\<lparr>orders := os'\<rparr>, l')"
      and os': "os' = ?os[unat x := ord_at ?os x\<lparr>qty := qty (ord_at ?os x) - t\<rparr>]"
      and t: "touches {x} ?os os'" and l': "level_inv os' l' (Q s i)"
    using reduce_order_quantity_run [OF basic(2), of xs x ys "levels b s ! i" t] slots
      core_level [OF core i, of s] lt unfolding q by blast
  let ?b = "set_levels (b\<lparr>pool := (pool b)\<lparr>orders := os'\<rparr>\<rparr>) s ((levels b s)[i := l'])"
  have len: "i < length (levels b s)" using basic(6) i by simp
  have xlen: "unat x < length ?os" using slot_in_bounds(1) [OF basic(2)] slots x by auto
  have run: "on_level b s ?p (\<lambda>pl l. reduce_order_quantity pl l x t) = Some ?b"
    using on_level_run [OF p(1), of s "\<lambda>pl l. reduce_order_quantity pl l x t"] red len p(2) by simp
  have frame: "same_frame b ?b" by (simp add: same_frame_def)
  note fr = same_frame_simps [OF frame]
  have pl: "pool_inv ((pool b)\<lparr>orders := os'\<rparr>)" "live_slots ((pool b)\<lparr>orders := os'\<rparr>) = live_slots (pool b)"
    using basic(2) t by (simp_all add: pool_inv_orders_update touches_def live_slots_def)
  have "levels_inv (width b) ((levels b)(s := (levels b s)[i := l'])) os' (upd_queue Q s i (Q s i))"
    using basic(4) i t _ l'
  proof (rule levels_inv_update)
    show "{x} \<inter> set (Q s' j) = {}" if "(s', j) \<noteq> (s, i)" for s' j
      using core_disjoint [OF core x] that by blast
  qed
  moreover have "order_ok b s' j (ord_at os' y)" if "y \<in> set (Q s' j)" for s' j y
    using core_order_ok [OF core that] lt xlen unfolding os'
    by (auto simp: order_ok_def)
  moreover have "indexes (index_map (order_lookup b)) (live_slots (pool b)) (\<lambda>y. order_id (ord_at os' y))"
    using core_indexes [OF core] xlen unfolding os'
    by (subst indexes_cong [of _ _ "\<lambda>y. order_id (ord_at ?os y)"]) auto
  ultimately have "core_inv hash ?b Q"
    using core pl fr basic(1,5) unfolding core_inv_def by simp
  moreover have "is_best ?b Q s' (best_price ?b s')" for s'
    using inv by (simp add: clob_inv_def fr)
  ultimately show ?thesis
    using run frame os' xlen by (intro that [of ?b]) (simp_all add: clob_inv_def)
qed

subsection \<open>Adding an order\<close>

lemma update_best_run:
  assumes best: "\<And>s'. is_best b Q s' (best_price b s')" and p: "valid_price b p"
    and q: "q \<noteq> []"
  shows "is_best b (upd_queue Q s (idx_of b p) q) s'
     (best_price (update_best_after_add b s p) s')"
proof (cases "s' = s")
  case False
  then have "best_price (update_best_after_add b s p) s' = best_price b s'"
    by (auto simp: update_best_after_add_def best_price_def split: Side.splits option.splits)
  then show ?thesis using best [of s'] False by (subst is_best_cong [of _ _ Q]) auto
next
  case True
  have cmp: "p' < p \<longleftrightarrow> idx_of b p' < idx_of b p" "p < p' \<longleftrightarrow> idx_of b p < idx_of b p'"
    if "valid_price b p'" for p'
    using idx_of_valid(3) [OF that] idx_of_valid(3) [OF p] that p
    by (auto simp: valid_price_def word_less_nat_alt word_le_nat_alt)
  show ?thesis
  proof (cases "best_price b s")
    case None
    then have "best_price (update_best_after_add b s p) s = Some p"
      by (auto simp: update_best_after_add_def best_price_def split: Side.splits)
    then show ?thesis using None best [of s] p q True by (auto simp: is_best_def)
  next
    case (Some p')
    then have v: "valid_price b p'" and b': "is_best b Q s (Some p')"
      using best [of s] by (simp_all add: is_best_def)
    have "best_price (update_best_after_add b s p) s =
        Some (if (case s of Buy \<Rightarrow> p > p' | Sell \<Rightarrow> p < p') then p else p')"
      using Some by (auto simp: update_best_after_add_def best_price_def split: Side.splits)
    then show ?thesis
      using b' p q True v cmp [OF v]
      by (cases s) (fastforce simp: is_best_def better_eq_def split: if_splits)+
  qed
qed

lemma update_best_fields [simp]:
  "pool (update_best_after_add b s p) = pool b"
  "order_lookup (update_best_after_add b s p) = order_lookup b"
  "levels (update_best_after_add b s p) = levels b"
  "min_price (update_best_after_add b s p) = min_price b"
  "max_price (update_best_after_add b s p) = max_price b"
  by (simp_all add: update_best_after_add_def split: Side.split option.split)

lemma core_inv_update_best [simp]:
  "core_inv hash (update_best_after_add b s p) Q \<longleftrightarrow> core_inv hash b Q"
  by (rule core_inv_cong) simp_all

lemma add_order_reject:
  "q = 0 \<or> \<not> valid_price b p \<Longrightarrow> add_order hash b oid s p q = Some (False, b)"
  by (simp add: add_order_def)

lemma add_order_full:
  assumes "clob_inv hash b Q" and "free_slots (pool b) = {}"
  shows "add_order hash b oid s p q = Some (False, b)"
  using assms by (simp add: add_order_def clob_inv_def core_inv_def allocate_none)

lemma add_order_dup:
  assumes inv: "clob_inv hash b Q" and "oid \<noteq> 0" and "index_map (order_lookup b) oid \<noteq> None"
  shows "add_order hash b oid s p q = Some (False, b)"
proof -
  have pl: "pool_inv (pool b)" and ix: "index_inv hash (order_lookup b)"
    using inv by (simp_all add: clob_inv_def core_inv_def)
  show ?thesis
  proof (cases "free_slots (pool b) = {}")
    case True
    then show ?thesis by (rule add_order_full [OF inv])
  next
    case False
    from pool.alloc_some [OF pl this] obtain idx pl' where a: "allocate (pool b) = Some (Some idx, pl')"
      by blast
    then show ?thesis
      using allocate_release [OF pl a] foi.ins_dup [OF ix assms(2,3)]
      by (simp add: add_order_def)
  qed
qed

lemma queued_append: "queued (upd_queue Q s i (Q s i @ [x])) = insert x (queued Q)"
proof (rule equalityI; rule subsetI)
  fix y
  assume "y \<in> queued (upd_queue Q s i (Q s i @ [x]))"
  then obtain s' j where "y \<in> set (upd_queue Q s i (Q s i @ [x]) s' j)" by (auto simp: queued_def)
  then have "y = x \<or> y \<in> set (Q s' j)" by (auto split: if_splits)
  then show "y \<in> insert x (queued Q)" by (auto simp: queued_def)
next
  fix y
  assume "y \<in> insert x (queued Q)"
  then obtain s' j where "y = x \<or> y \<in> set (Q s' j)" by (auto simp: queued_def)
  then have "y \<in> set (upd_queue Q s i (Q s i @ [x]) s i) \<or>
      y \<in> set (upd_queue Q s i (Q s i @ [x]) s' j)" by auto
  then show "y \<in> queued (upd_queue Q s i (Q s i @ [x]))" unfolding queued_def by blast
qed

lemma add_order_run:
  assumes inv: "clob_inv hash b Q" and p: "valid_price b p" and q: "q \<noteq> 0" and oid: "oid \<noteq> 0"
    and new: "index_map (order_lookup b) oid = None" and free: "free_slots (pool b) \<noteq> {}"
  obtains b' idx where
    "add_order hash b oid s p q = Some (True, b')"
    "clob_inv hash b' (upd_queue Q s (idx_of b p) (Q s (idx_of b p) @ [idx]))"
    "same_frame b b'" "idx \<notin> live_slots (pool b)"
    "same_data (ord_at (book_orders b') idx)
       \<lparr>order_id = oid, price = p, qty = q, next_idx = 0, prev_idx = 0, side = s\<rparr>"
    "\<And>y. y \<noteq> idx \<Longrightarrow> same_data (ord_at (book_orders b') y) (ord_at (book_orders b) y)"
proof -
  let ?os = "book_orders b" and ?i = "idx_of b p"
  have core: "core_inv hash b Q" and best: "is_best b Q s' (best_price b s')" for s'
    using inv by (simp_all add: clob_inv_def)
  note basic = core_basic [OF core]
  have i: "?i < width b" by (rule idx_of_valid(1) [OF p])
  obtain idx pl1 where al: "allocate (pool b) = Some (Some idx, pl1)" and pl1: "pool_inv pl1"
      "idx \<in> all_slots (pool b)" "idx \<notin> live_slots (pool b)"
      "live_slots pl1 = insert idx (live_slots (pool b))" "all_slots pl1 = all_slots (pool b)"
      "orders pl1 = ?os"
    using pool.alloc_live [OF basic(2) free] unfolding live_slots_def by metis
  have mx: "max_orders pl1 = max_orders (pool b)"
    using al by (auto simp: allocate_def Let_def bind_eq_Some_conv split: if_splits)
  define ord where "ord = ord_at ?os idx\<lparr>order_id := oid, price := p, qty := q, side := s\<rparr>"
  define os1 where "os1 = ?os[unat idx := ord]"
  let ?pl2 = "pl1\<lparr>orders := os1\<rparr>"
  have idx: "idx \<in> all_slots pl1" using pl1 by simp
  have len1: "unat idx < length ?os" using slot_in_bounds(1) [OF pl1(1) idx] pl1(6) by simp
  have at1: "ord_at os1 y = (if y = idx then ord else ord_at ?os y)" for y
    using len1 by (simp add: os1_def)
  have mod: "pool_modify pl1 idx (\<lambda>ord. ord\<lparr>order_id := oid, price := p, qty := q, side := s\<rparr>) = Some ?pl2"
    using pl1(1,6) idx by (simp add: run_simps os1_def ord_def ord_at_def)
  have pl2: "pool_inv ?pl2" using pl1 by (simp add: pool_inv_orders_update os1_def)
  obtain lk where ins: "index_insert hash (order_lookup b) oid idx = Some (True, lk)"
      and lk: "index_inv hash lk" "unat (capacity lk) = unat (capacity (order_lookup b))"
        "indexes (index_map lk) (insert idx (live_slots (pool b))) (\<lambda>y. order_id (ord_at os1 y))"
  proof (rule foi.ins_indexes [OF basic(3) oid])
    show ix: "indexes (index_map (order_lookup b)) (live_slots (pool b)) (\<lambda>y. order_id (ord_at os1 y))"
      using core_indexes [OF core] pl1(3) by (subst indexes_cong) (auto simp: at1)
    show "oid \<notin> (\<lambda>y. order_id (ord_at os1 y)) ` live_slots (pool b)"
      using new indexes_None [OF ix] by simp
    show "idx \<notin> live_slots (pool b)" by (rule pl1(3))
    show "order_id (ord_at os1 idx) = oid" by (simp add: at1 ord_def)
    show "card (live_slots (pool b)) < unat (capacity (order_lookup b))"
      using live_slots_le [OF basic(2)] core by (simp add: core_inv_def)
  qed
  have notin: "idx \<notin> set (Q s' j)" for s' j
    using core_slot(1) [OF core] pl1(3) by blast
  have slots: "set (Q s ?i) \<subseteq> all_slots ?pl2" using core_slot(2) [OF core] pl1(5) by auto
  have "level_inv os1 (levels b s ! ?i) (Q s ?i)"
    using core_level [OF core i, of s] notin by (subst level_inv_cong [of _ _ ?os]) (auto simp: at1)
  then obtain os2 l' where app: "append_to_level ?pl2 (levels b s ! ?i) idx =
        Some (?pl2\<lparr>orders := os2\<rparr>, l')"
      and t: "touches (insert idx (set (Q s ?i))) os1 os2"
      and data: "\<And>y. same_data (ord_at os2 y) (ord_at os1 y)"
      and l': "level_inv os2 l' (Q s ?i @ [idx])"
    using append_to_level_run [OF pl2 slots, of idx "levels b s ! ?i"] idx notin by auto
  have t2: "touches (insert idx (set (Q s ?i))) ?os os2"
    using t len1 by (auto simp: touches_def os1_def)
  let ?pl3 = "pl1\<lparr>orders := os2\<rparr>"
  define b2 where "b2 = set_levels (b\<lparr>order_lookup := lk, pool := ?pl3\<rparr>) s ((levels b s)[?i := l'])"
  let ?Q = "upd_queue Q s ?i (Q s ?i @ [idx])"
  have step: "on_level (b\<lparr>pool := ?pl2, order_lookup := lk\<rparr>) s p (\<lambda>pl l. append_to_level pl l idx) = Some b2"
    using on_level_run [of "b\<lparr>pool := ?pl2, order_lookup := lk\<rparr>" p s "\<lambda>pl l. append_to_level pl l idx"]
      app p i basic(6) by (simp add: b2_def valid_price_def idx_of_def)
  have frame: "same_frame b b2" by (simp add: b2_def same_frame_def mx)
  note fr = same_frame_simps [OF frame]
  have lv: "levels b2 = (levels b)(s := (levels b s)[?i := l'])" by (simp add: b2_def)
  have pl3: "pool_inv ?pl3" "live_slots ?pl3 = live_slots pl1"
    using pl1 t2 by (simp_all add: pool_inv_orders_update touches_def live_slots_def)
  have "levels_inv (width b) (levels b2) os2 ?Q"
    unfolding lv using basic(4) i t2 _ l'
  proof (rule levels_inv_update)
    show "insert idx (set (Q s ?i)) \<inter> set (Q s' j) = {}" if "(s', j) \<noteq> (s, ?i)" for s' j
      using core_disjoint [OF core] notin that by blast
  qed
  moreover have "order_ok b s' j (ord_at os2 y)" if y: "y \<in> set (?Q s' j)" for s' j y
  proof (cases "y = idx")
    case True
    then have "s' = s \<and> j = ?i" using y notin by (auto split: if_splits)
    then show ?thesis
      using data [of idx] True q oid idx_of_valid(2) [OF p]
      by (simp add: order_ok_def same_data_def at1 ord_def)
  next
    case False
    then have "y \<in> set (Q s' j)" using y by (auto split: if_splits)
    then show ?thesis
      using core_order_ok [OF core] data [of y] False by (fastforce simp: order_ok_def same_data_def at1)
  qed
  moreover have "live_slots ?pl3 = queued ?Q"
    using pl1(4) pl3(2) basic(5) by (simp add: queued_append)
  moreover have "indexes (index_map lk) (live_slots ?pl3) (\<lambda>y. order_id (ord_at os2 y))"
    using lk(3) data pl1(4) pl3(2) by (simp add: same_data_def)
  ultimately have core2: "core_inv hash b2 ?Q"
    using core lk(1,2) pl3 mx fr basic(1) unfolding core_inv_def by (simp add: b2_def)
  have best2: "is_best b2 Q s' (best_price b2 s')" for s'
    using best [of s'] by (simp add: fr) (simp add: b2_def best_price_def split: Side.splits)
  let ?b3 = "update_best_after_add b2 s p"
  have frame3: "same_frame b2 ?b3" by (simp add: same_frame_def)
  have "is_best ?b3 ?Q s' (best_price ?b3 s')" for s'
    using update_best_run [OF best2, of p "Q s ?i @ [idx]" s s'] p
    by (simp add: fr same_frame_simps [OF frame3])
  with core2 have inv3: "clob_inv hash ?b3 ?Q" by (simp add: clob_inv_def)
  have run: "add_order hash b oid s p q = Some (True, ?b3)"
    using q p al ins mod step by (simp add: add_order_def)
  show ?thesis
  proof (rule that [OF run inv3 same_frame_trans [OF frame frame3] pl1(3)])
    show "same_data (ord_at (book_orders ?b3) idx)
       \<lparr>order_id = oid, price = p, qty = q, next_idx = 0, prev_idx = 0, side = s\<rparr>"
      using data [of idx] by (simp add: b2_def same_data_def at1 ord_def)
    show "same_data (ord_at (book_orders ?b3) y) (ord_at ?os y)" if "y \<noteq> idx" for y
      using data [of y] that by (simp add: b2_def same_data_def at1)
  qed
qed

subsection \<open>The constructor\<close>

text \<open>
  What the class asks of its parameters: a price range that \<open>range_size\<close> can count
  (it wraps to 0 on the full 64-bit range), slots that an \<open>OrderIndex\<close> can name, and the
  two static assertions of the id table of capacity \<open>2 * MaxOrders\<close>.
\<close>

definition params_ok :: "size_t \<Rightarrow> Price \<Rightarrow> Price \<Rightarrow> bool" where
  "params_ok n lo hi \<longleftrightarrow> lo \<le> hi \<and> hi - lo + 1 \<noteq> 0 \<and> 0 < unat n \<and> unat n < 2 ^ 32 \<and>
     has_single_bit (2 * n)"

lemma fixed_clob_new_run:
  assumes "params_ok n lo hi"
  obtains b where
    "fixed_clob_new ks vs n lo hi = Some b"
    "clob_inv hash b (\<lambda>_ _. [])"
    "min_price b = lo" "max_price b = hi" "max_orders (pool b) = n" "live_slots (pool b) = {}"
proof -
  let ?w = "hi - lo + 1"
  have lo: "lo \<le> hi" and w: "?w \<noteq> 0" and n: "0 < unat n" "unat n < 2 ^ 32" and sb: "has_single_bit (2 * n)"
    using assms by (simp_all add: params_ok_def)
  have uw: "unat ?w = unat (hi - lo) + 1"
    using w by (metis Suc_eq_plus1 add.commute unatSuc)
  have u2: "unat (2 * n) = 2 * unat n"
    using n by (simp add: unat_word_ariths)
  define b where "b = \<lparr>min_price = lo, max_price = hi, pool = order_pool_new n,
       bid_levels = replicate (unat ?w) default_level,
       ask_levels = replicate (unat ?w) default_level,
       order_lookup = order_index_new ks vs (2 * n),
       best_bid_price = None, best_ask_price = None\<rparr>"
  have run: "fixed_clob_new ks vs n lo hi = Some b"
    using lo by (simp add: fixed_clob_new_def range_size_def b_def)
  note pl = pool_inv_new [OF n(2)]
  have live: "live_slots (pool b) = {}" using pl(2) by (simp add: b_def live_slots_def)
  have ix: "index_inv hash (order_lookup b)" "index_map (order_lookup b) = Map.empty"
      "capacity (order_lookup b) = 2 * n"
    using index_inv_new [OF sb] n u2 by (simp_all add: b_def)
  have lv: "levels b s = replicate (width b) default_level" for s
    by (simp add: b_def levels_def width_def uw split: Side.split)
  have "levels_inv (width b) (levels b) (book_orders b) (\<lambda>_ _. [])"
    by (simp add: levels_inv_def lv level_inv_default)
  moreover have "max_orders (pool b) = n" by (simp add: b_def order_pool_new_def)
  ultimately have "core_inv hash b (\<lambda>_ _. [])"
    using lo pl(1) live ix n u2
    by (simp add: core_inv_def queued_def indexes_def) (simp add: b_def)
  moreover have "is_best b (\<lambda>_ _. []) s (best_price b s)" for s
    by (simp add: b_def best_price_def is_best_def split: Side.split)
  ultimately have "clob_inv hash b (\<lambda>_ _. [])" by (simp add: clob_inv_def)
  then show ?thesis
    using run live by (intro that [of b]) (simp_all add: b_def order_pool_new_def)
qed

end
