(* ===== verification/Book_Spec.thy ===== *)
theory Book_Spec
  imports Clob_Types
begin

text \<open>
  The abstract order book: what a limit order book with price-time priority promises,
  with no pool, no links and no index. Each side is the list of its resting orders in
  the order in which they would trade: best price first, oldest first within a price.
  Matching an incoming order consumes this list from the front; a new order is put in
  behind every order that trades before it.
\<close>

type_synonym resting = "OrderId \<times> Price \<times> Quantity"

record book =
  bids :: "resting list"
  asks :: "resting list"
  slots :: nat
  lo_price :: Price
  hi_price :: Price

definition rest_id :: "resting \<Rightarrow> OrderId" where "rest_id r = fst r"
definition rest_price :: "resting \<Rightarrow> Price" where "rest_price r = fst (snd r)"
definition rest_qty :: "resting \<Rightarrow> Quantity" where "rest_qty r = snd (snd r)"

lemma rest_simps [simp]:
  "rest_id (i, p, q) = i" "rest_price (i, p, q) = p" "rest_qty (i, p, q) = q"
  by (simp_all add: rest_id_def rest_price_def rest_qty_def)

text \<open>An incoming order on side \<open>s\<close> with limit \<open>l\<close> accepts the price \<open>p\<close>.\<close>

definition accepts :: "Side \<Rightarrow> Price \<Rightarrow> Price \<Rightarrow> bool" where
  "accepts s l p \<longleftrightarrow> (case s of Buy \<Rightarrow> p \<le> l | Sell \<Rightarrow> p \<ge> l)"

text \<open>The price \<open>p\<close> trades before \<open>p'\<close>, or equals it, among the orders resting on side \<open>s\<close>.\<close>

definition ahead_eq :: "Side \<Rightarrow> Price \<Rightarrow> Price \<Rightarrow> bool" where
  "ahead_eq s p p' \<longleftrightarrow> (case s of Buy \<Rightarrow> p' \<le> p | Sell \<Rightarrow> p \<le> p')"

fun fill :: "Side \<Rightarrow> Price \<Rightarrow> OrderId \<Rightarrow> Quantity \<Rightarrow> resting list
    \<Rightarrow> Execution list \<times> Quantity \<times> resting list" where
  "fill s l oid q [] = ([], q, [])"
| "fill s l oid q ((rid, p, r) # rs) =
     (if q = 0 \<or> \<not> accepts s l p then ([], q, (rid, p, r) # rs)
      else if q < r then ([mk_execution oid rid p q], 0, (rid, p, r - q) # rs)
      else case fill s l oid (q - r) rs of
             (es, q', rs') \<Rightarrow> (mk_execution oid rid p r # es, q', rs'))"

definition enqueue :: "Side \<Rightarrow> resting \<Rightarrow> resting list \<Rightarrow> resting list" where
  "enqueue s r rs =
     takeWhile (\<lambda>r'. ahead_eq s (rest_price r') (rest_price r)) rs @ r #
     dropWhile (\<lambda>r'. ahead_eq s (rest_price r') (rest_price r)) rs"

definition side_of :: "book \<Rightarrow> Side \<Rightarrow> resting list" where
  "side_of bk s = (case s of Buy \<Rightarrow> bids bk | Sell \<Rightarrow> asks bk)"

definition set_side :: "book \<Rightarrow> Side \<Rightarrow> resting list \<Rightarrow> book" where
  "set_side bk s rs = (case s of Buy \<Rightarrow> bk\<lparr>bids := rs\<rparr> | Sell \<Rightarrow> bk\<lparr>asks := rs\<rparr>)"

definition book_ids :: "book \<Rightarrow> OrderId set" where
  "book_ids bk = rest_id ` (set (bids bk) \<union> set (asks bk))"

definition resting_count :: "book \<Rightarrow> nat" where
  "resting_count bk = length (bids bk) + length (asks bk)"

definition book_valid_price :: "book \<Rightarrow> Price \<Rightarrow> bool" where
  "book_valid_price bk p \<longleftrightarrow> lo_price bk \<le> p \<and> p \<le> hi_price bk"

definition spec_add :: "book \<Rightarrow> OrderId \<Rightarrow> Side \<Rightarrow> Price \<Rightarrow> Quantity \<Rightarrow> bool \<times> book" where
  "spec_add bk oid s p q =
     (if q = 0 \<or> \<not> book_valid_price bk p \<or> resting_count bk = slots bk \<or> oid \<in> book_ids bk
      then (False, bk)
      else (True, set_side bk s (enqueue s (oid, p, q) (side_of bk s))))"

definition spec_cancel :: "book \<Rightarrow> OrderId \<Rightarrow> bool \<times> book" where
  "spec_cancel bk oid =
     (oid \<in> book_ids bk,
      bk\<lparr>bids := filter (\<lambda>r. rest_id r \<noteq> oid) (bids bk),
         asks := filter (\<lambda>r. rest_id r \<noteq> oid) (asks bk)\<rparr>)"

definition spec_submit :: "book \<Rightarrow> OrderId \<Rightarrow> Side \<Rightarrow> Price \<Rightarrow> Quantity
    \<Rightarrow> bool \<times> book \<times> Execution list" where
  "spec_submit bk oid s p q =
     (if q = 0 \<or> \<not> book_valid_price bk p \<or> oid \<in> book_ids bk then (False, bk, [])
      else case fill s p oid q (side_of bk (opposite s)) of
        (es, q', rs) \<Rightarrow>
          let bk' = set_side bk (opposite s) rs in
          if q' = 0 then (True, bk', es)
          else case spec_add bk' oid s p q' of (added, bk'') \<Rightarrow> (added, bk'', es))"

definition spec_new :: "size_t \<Rightarrow> Price \<Rightarrow> Price \<Rightarrow> book" where
  "spec_new n lo hi = \<lparr>bids = [], asks = [], slots = unat n, lo_price = lo, hi_price = hi\<rparr>"

text \<open>What the queries report.\<close>

definition at_price :: "book \<Rightarrow> Side \<Rightarrow> Price \<Rightarrow> resting list" where
  "at_price bk s p = filter (\<lambda>r. rest_price r = p) (side_of bk s)"

definition level_qty :: "book \<Rightarrow> Side \<Rightarrow> Price \<Rightarrow> Quantity" where
  "level_qty bk s p = sum_list (map rest_qty (at_price bk s p))"

definition spec_best :: "book \<Rightarrow> Side \<Rightarrow> (Price \<times> Quantity) option" where
  "spec_best bk s = (case side_of bk s of [] \<Rightarrow> None
     | r # _ \<Rightarrow> Some (rest_price r, level_qty bk s (rest_price r)))"

subsection \<open>Matching\<close>

lemma fill_zero [simp]: "fill s l oid 0 rs = ([], 0, rs)"
  by (cases rs) auto

lemma fill_append:
  "fill s l oid q (xs @ ys) = (case fill s l oid q xs of
     (es, q', []) \<Rightarrow> (case fill s l oid q' ys of (es', q'', rs) \<Rightarrow> (es @ es', q'', rs))
   | (es, q', r # rs) \<Rightarrow> (es, q', (r # rs) @ ys))"
  by (induction s l oid q xs rule: fill.induct)
     (auto split: prod.splits list.splits)

lemma fill_append_done:
  assumes "fill s l oid q xs = (es, q', rs)" and "q' = 0 \<or> rs = []"
    and "fill s l oid q' ys = (es', q'', rs')"
  shows "fill s l oid q (xs @ ys) = (es @ es', q'', rs @ rs')"
  using assms by (auto simp: fill_append split: list.splits)

lemma fill_blocked:
  "(\<And>r. r \<in> set rs \<Longrightarrow> \<not> accepts s l (rest_price r)) \<Longrightarrow> fill s l oid q rs = ([], q, rs)"
proof (cases rs)
  case (Cons r rs')
  assume "\<And>r. r \<in> set rs \<Longrightarrow> \<not> accepts s l (rest_price r)"
  from this [of r] Cons show ?thesis by (cases r) auto
qed simp

end
