(* ===== verification/Clob_Refine.thy ===== *)
theory Clob_Refine
  imports Clob_Steps Book_Spec
begin

text \<open>
  The book refines its specification. \<open>abs_book\<close> reads the abstract book off the
  state: it walks the links of every level from its head, best level first. Each
  public operation of the class on a book that satisfies the invariant runs without a
  fault and does to the abstract book what the specification says, for every sink.
\<close>

subsection \<open>The abstraction function\<close>

definition entry_of :: "Order \<Rightarrow> resting" where
  "entry_of ord = (order_id ord, price ord, qty ord)"

fun walk :: "Order list \<Rightarrow> OrderIndex \<Rightarrow> nat \<Rightarrow> OrderIndex list" where
  "walk os x 0 = []"
| "walk os x (Suc n) = x # walk os (next_idx (ord_at os x)) n"

definition level_entries :: "Order list \<Rightarrow> PriceLevel \<Rightarrow> resting list" where
  "level_entries os l = map (\<lambda>x. entry_of (ord_at os x)) (walk os (head_idx l) (unat (order_count l)))"

definition abs_book :: "FixedClob \<Rightarrow> book" where
  "abs_book b = \<lparr>bids = concat (map (level_entries (book_orders b)) (rev (bid_levels b))),
     asks = concat (map (level_entries (book_orders b)) (ask_levels b)),
     slots = unat (max_orders (pool b)), lo_price = min_price b, hi_price = max_price b\<rparr>"

lemma walk_seg: "seg os p q n \<Longrightarrow> walk os (hd_or n q) (length q) = q"
  by (induction q arbitrary: p) auto

lemma level_entries_eq:
  assumes "level_inv os l q"
  shows "level_entries os l = map (\<lambda>x. entry_of (ord_at os x)) q"
  using assms walk_seg [of os null_order_index q null_order_index] level_count [OF assms]
  by (simp add: level_entries_def level_inv_def)

subsection \<open>The abstract book in terms of the ghost queues\<close>

definition q_entries :: "FixedClob \<Rightarrow> queues \<Rightarrow> Side \<Rightarrow> nat \<Rightarrow> resting list" where
  "q_entries b Q s i = map (\<lambda>x. entry_of (ord_at (book_orders b) x)) (Q s i)"

text \<open>The level indices of a side, best first; those before and after an index.\<close>

definition best_first :: "Side \<Rightarrow> nat \<Rightarrow> nat list" where
  "best_first s w = (case s of Buy \<Rightarrow> rev [0..<w] | Sell \<Rightarrow> [0..<w])"

definition before :: "Side \<Rightarrow> nat \<Rightarrow> nat \<Rightarrow> nat list" where
  "before s w i = (case s of Buy \<Rightarrow> rev [Suc i..<w] | Sell \<Rightarrow> [0..<i])"

definition after :: "Side \<Rightarrow> nat \<Rightarrow> nat \<Rightarrow> nat list" where
  "after s w i = (case s of Buy \<Rightarrow> rev [0..<i] | Sell \<Rightarrow> [Suc i..<w])"

lemma upt_split: "i < n \<Longrightarrow> [0..<n] = [0..<i] @ i # [Suc i..<n]"
  using upt_add_eq_append [of 0 i "n - i"] by (simp add: upt_conv_Cons)

lemma best_first_split: "i < w \<Longrightarrow> best_first s w = before s w i @ i # after s w i"
  using upt_split [of i w] by (simp add: best_first_def before_def after_def split: Side.split)

lemma set_best_first [simp]: "set (best_first s w) = {..<w}"
  by (auto simp: best_first_def split: Side.split)

lemma distinct_best_first [simp]: "distinct (best_first s w)"
  by (simp add: best_first_def split: Side.split)

lemma in_before: "j \<in> set (before s w i) \<Longrightarrow> i < w \<Longrightarrow> better_eq s j i \<and> j \<noteq> i \<and> j < w"
  by (auto simp: before_def better_eq_def split: Side.splits)

lemma in_after: "j \<in> set (after s w i) \<Longrightarrow> i < w \<Longrightarrow> \<not> better_eq s j i \<and> j < w"
  by (auto simp: after_def better_eq_def split: Side.splits)

definition q_side :: "FixedClob \<Rightarrow> queues \<Rightarrow> Side \<Rightarrow> resting list" where
  "q_side b Q s = concat (map (q_entries b Q s) (best_first s (width b)))"

lemma abs_book_side:
  assumes "core_inv hash b Q"
  shows "side_of (abs_book b) s = q_side b Q s"
proof -
  have len: "length (levels b s) = width b" by (rule core_basic(6) [OF assms])
  have "level_entries (book_orders b) (levels b s ! i) = q_entries b Q s i" if "i < width b" for i
    using level_entries_eq [OF core_level [OF assms that, of s]] by (simp add: q_entries_def)
  then have "map (level_entries (book_orders b)) (levels b s) = map (q_entries b Q s) [0..<width b]"
    using len by (intro nth_equalityI) simp_all
  then show ?thesis
    by (auto simp: q_side_def side_of_def abs_book_def best_first_def levels_def rev_map [symmetric]
        split: Side.splits)
qed

lemma abs_book_eq:
  assumes "core_inv hash b Q"
  shows "abs_book b = \<lparr>bids = q_side b Q Buy, asks = q_side b Q Sell,
     slots = unat (max_orders (pool b)), lo_price = min_price b, hi_price = max_price b\<rparr>"
  using abs_book_side [OF assms, of Buy] abs_book_side [OF assms, of Sell]
  by (simp add: side_of_def abs_book_def)

text \<open>Two books with the same frame and the same entries have the same abstraction.\<close>

lemma q_side_cong:
  assumes "width b' = width b" and "\<And>i. i < width b \<Longrightarrow> q_entries b' Q' s i = q_entries b Q s i"
  shows "q_side b' Q' s = q_side b Q s"
proof -
  have "map (q_entries b' Q' s) (best_first s (width b)) = map (q_entries b Q s) (best_first s (width b))"
    by (rule map_cong) (simp_all add: assms(2))
  then show ?thesis by (simp only: q_side_def assms(1))
qed

lemma q_side_split:
  "i < width b \<Longrightarrow> q_side b Q s =
     concat (map (q_entries b Q s) (before s (width b) i)) @ q_entries b Q s i @
     concat (map (q_entries b Q s) (after s (width b) i))"
  by (simp add: q_side_def best_first_split)

lemma q_side_change:
  assumes "width b' = width b" and i: "i < width b"
    and "\<And>j. j \<noteq> i \<Longrightarrow> q_entries b' Q' s j = q_entries b Q s j"
  shows "q_side b' Q' s =
     concat (map (q_entries b Q s) (before s (width b) i)) @ q_entries b' Q' s i @
     concat (map (q_entries b Q s) (after s (width b) i))"
proof -
  have bef: "map (q_entries b' Q' s) (before s (width b) i) = map (q_entries b Q s) (before s (width b) i)"
    using in_before [OF _ i] assms(3) by (intro map_cong) auto
  have aft: "map (q_entries b' Q' s) (after s (width b) i) = map (q_entries b Q s) (after s (width b) i)"
    using in_after [OF _ i] assms(3) by (intro map_cong) (auto, metis better_eq_refl)
  have "q_side b' Q' s = concat (map (q_entries b' Q' s) (before s (width b) i)) @
      q_entries b' Q' s i @ concat (map (q_entries b' Q' s) (after s (width b) i))"
    using q_side_split [of i b' Q' s] i assms(1) by simp
  then show ?thesis by (simp only: bef aft)
qed

lemma q_entries_cong:
  assumes "Q' s j = Q s j"
    and "\<And>x. x \<in> set (Q s j) \<Longrightarrow> same_data (ord_at (book_orders b') x) (ord_at (book_orders b) x)"
  shows "q_entries b' Q' s j = q_entries b Q s j"
  using assms by (simp add: q_entries_def entry_of_def same_data_def)

lemma q_entries_price:
  assumes "core_inv hash b Q" and "r \<in> set (q_entries b Q s i)"
  shows "rest_price r = price_of b i" and "rest_qty r \<noteq> 0" and "i < width b"
proof -
  obtain x where x: "x \<in> set (Q s i)" "r = entry_of (ord_at (book_orders b) x)"
    using assms(2) by (auto simp: q_entries_def)
  then show "rest_price r = price_of b i" "rest_qty r \<noteq> 0"
    using core_order_ok [OF assms(1) x(1)] by (simp_all add: order_ok_def entry_of_def)
  show "i < width b" by (rule core_width [OF assms(1), of s]) (use x(1) in auto)
qed

lemma queue_slots_distinct:
  assumes inv: "core_inv hash b Q"
  defines "xs \<equiv> concat (map (Q Buy) (best_first Buy (width b))) @
                 concat (map (Q Sell) (best_first Sell (width b)))"
  shows "distinct xs" and "set xs = live_slots (pool b)"
proof -
  have d: "distinct (concat (map (Q s) (best_first s (width b))))" for s
  proof (rule distinct_concat_map)
    show "distinct (Q s i)" if "i \<in> set (best_first s (width b))" for i
      using core_level [OF inv, of i s] that by (simp add: level_inv_def)
    show "set (Q s i) \<inter> set (Q s j) = {}" if "i \<noteq> j" for i j
      using core_disjoint [OF inv, of _ s i s j] that by auto
  qed simp
  have "Q s i \<noteq> [] \<Longrightarrow> i < width b" for s i by (rule core_width [OF inv])
  then have mem: "x \<in> set (Q s i) \<Longrightarrow> i < width b" for x s i by (metis list.set(1) empty_iff)
  have "set (Q Buy i) \<inter> set (Q Sell j) = {}" for i j
    using core_disjoint [OF inv, of _ Buy i Sell j] by auto
  then show "distinct xs" using d by (auto simp: xs_def)
  show "set xs = live_slots (pool b)"
  proof (rule equalityI; rule subsetI)
    fix x assume "x \<in> set xs"
    then show "x \<in> live_slots (pool b)"
      using core_slot(1) [OF inv] by (auto simp: xs_def)
  next
    fix x assume "x \<in> live_slots (pool b)"
    then obtain s i where "x \<in> set (Q s i)" by (auto simp: core_basic(5) [OF inv] queued_def)
    moreover from this have "i < width b" by (rule mem)
    ultimately show "x \<in> set xs" by (cases s) (auto simp: xs_def)
  qed
qed

lemma map_q_side:
  "map (\<lambda>x. entry_of (ord_at (book_orders b) x)) (concat (map (Q s) (best_first s (width b)))) = q_side b Q s"
  by (simp add: q_side_def map_concat comp_def q_entries_def [abs_def])

lemma book_ids_eq:
  assumes "core_inv hash b Q"
  shows "book_ids (abs_book b) = (\<lambda>x. order_id (ord_at (book_orders b) x)) ` live_slots (pool b)"
proof -
  have "book_ids (abs_book b) = rest_id ` set (q_side b Q Buy @ q_side b Q Sell)"
    by (simp add: book_ids_def abs_book_eq [OF assms])
  also have "\<dots> = (\<lambda>x. order_id (ord_at (book_orders b) x)) ` live_slots (pool b)"
    unfolding map_q_side [symmetric] map_append [symmetric] set_map queue_slots_distinct(2) [OF assms]
    by (simp add: image_image entry_of_def)
  finally show ?thesis .
qed

lemma resting_count_eq:
  assumes "core_inv hash b Q"
  shows "resting_count (abs_book b) = card (live_slots (pool b))"
proof -
  have "resting_count (abs_book b) = length (q_side b Q Buy @ q_side b Q Sell)"
    by (simp add: resting_count_def abs_book_eq [OF assms])
  also have "\<dots> = card (live_slots (pool b))"
    unfolding map_q_side [symmetric] map_append [symmetric] length_map
    using queue_slots_distinct [OF assms] distinct_card by metis
  finally show ?thesis .
qed

lemma lookup_ids:
  assumes "core_inv hash b Q"
  shows "index_map (order_lookup b) oid = None \<longleftrightarrow> oid \<notin> book_ids (abs_book b)"
  by (simp add: book_ids_eq [OF assms] indexes_None [OF core_indexes [OF assms]])

lemma full_iff:
  assumes "core_inv hash b Q"
  shows "resting_count (abs_book b) = slots (abs_book b) \<longleftrightarrow> free_slots (pool b) = {}"
proof -
  have pl: "pool_inv (pool b)" by (rule core_basic(2) [OF assms])
  have "card (live_slots (pool b)) = card (all_slots (pool b)) - card (free_slots (pool b))"
    using pl by (simp add: live_slots_def card_Diff_subset pool_inv_def)
  moreover have "card (free_slots (pool b)) \<le> card (all_slots (pool b))"
    using pl by (auto intro: card_mono simp: pool_inv_def)
  moreover have "free_slots (pool b) = {} \<longleftrightarrow> card (free_slots (pool b)) = 0"
    by (simp only: card_0_eq [OF free_slots_finite])
  moreover have "slots (abs_book b) = card (all_slots (pool b))"
    using pl by (simp add: abs_book_def card_all_slots pool_inv_def)
  ultimately show ?thesis unfolding resting_count_eq [OF assms] by linarith
qed

subsection \<open>Cancelling\<close>

lemma remove_abs:
  assumes inv: "clob_inv hash b Q" and q: "Q s i = xs @ x # ys"
    and frame: "same_frame b b'" and so: "same_orders b b'"
  shows "q_side b' (upd_queue Q s i (xs @ ys)) t =
     filter (\<lambda>r. rest_id r \<noteq> order_id (ord_at (book_orders b) x)) (q_side b Q t)"
proof -
  let ?Q = "upd_queue Q s i (xs @ ys)" and ?e = "\<lambda>y. entry_of (ord_at (book_orders b) y)"
  let ?P = "\<lambda>r. rest_id r \<noteq> order_id (ord_at (book_orders b) x)"
  have core: "core_inv hash b Q" using inv by (simp add: clob_inv_def)
  have x: "x \<in> set (Q s i)" by (simp add: q)
  have other: "?P (?e y)" if "y \<in> set (Q t j)" "y \<noteq> x" for y j t
    using indexes_inj [OF core_indexes [OF core]] core_slot(1) [OF core that(1)]
      core_slot(1) [OF core x] that(2)
    by (auto simp: entry_of_def inj_on_def)
  have entries: "q_entries b' ?Q t j = map ?e (?Q t j)" for t j
    using so by (simp add: q_entries_def entry_of_def same_orders_def same_data_def)
  have "q_entries b' ?Q t j = filter ?P (q_entries b Q t j)" for j
  proof (cases "(t, j) = (s, i)")
    case True
    have "distinct (xs @ x # ys)"
      using core_level [OF core core_width [OF core, of s i], of s] q by (simp add: level_inv_def)
    then have "?P r" if "r \<in> set (map ?e xs) \<union> set (map ?e ys)" for r
      using that other [of _ s i] q by (auto simp del: rest_simps)
    then have "filter ?P (map ?e xs) = map ?e xs" "filter ?P (map ?e ys) = map ?e ys"
      by (intro filter_True; blast)+
    then show ?thesis
      using True q by (auto simp: entries q_entries_def [of b Q]) (simp_all add: entry_of_def)
  next
    case False
    then have "x \<notin> set (Q t j)" using core_disjoint [OF core x] by auto
    then have "?P r" if "r \<in> set (map ?e (Q t j))" for r
      using that other [of _ t j] by (auto simp del: rest_simps)
    then have "filter ?P (map ?e (Q t j)) = map ?e (Q t j)" by (intro filter_True) blast
    then show ?thesis using False by (auto simp: entries q_entries_def [of b Q])
  qed
  then have "map (q_entries b' ?Q t) (best_first t (width b)) =
      map (\<lambda>j. filter ?P (q_entries b Q t j)) (best_first t (width b))"
    by simp
  then show ?thesis
    unfolding q_side_def same_frame_simps(1) [OF frame] filter_concat map_map comp_def
    by (simp only:)
qed

lemma cancel_refines:
  assumes inv: "clob_inv hash b Q" and oid: "oid \<noteq> 0"
  obtains ok b' Q' where "cancel_order hash b oid = Some (ok, b')" "clob_inv hash b' Q'"
    "same_frame b b'" "spec_cancel (abs_book b) oid = (ok, abs_book b')"
proof -
  have core: "core_inv hash b Q" using inv by (simp add: clob_inv_def)
  have find: "index_find hash (order_lookup b) oid = Some (index_map (order_lookup b) oid)"
    using foi.find_lookup [OF core_basic(3) [OF core] oid] .
  show ?thesis
  proof (cases "index_map (order_lookup b) oid")
    case None
    then have new: "oid \<notin> book_ids (abs_book b)" using lookup_ids [OF core] by simp
    then have "filter (\<lambda>r. rest_id r \<noteq> oid) (bids (abs_book b)) = bids (abs_book b)"
      "filter (\<lambda>r. rest_id r \<noteq> oid) (asks (abs_book b)) = asks (abs_book b)"
      by (auto simp: book_ids_def intro!: filter_True)
    then show ?thesis
      using find None new inv
      by (intro that [of False b Q]) (simp_all add: cancel_order_def spec_cancel_def)
  next
    case (Some x)
    then have x: "x \<in> live_slots (pool b)" and idx: "order_id (ord_at (book_orders b) x) = oid"
      using core_indexes [OF core] by (simp_all add: indexes_def)
    then obtain s i where "x \<in> set (Q s i)" by (auto simp: core_basic(5) [OF core] queued_def)
    then obtain xs ys where q: "Q s i = xs @ x # ys" by (meson split_list)
    obtain b' where rm: "remove_order_by_index hash b x = Some b'"
        "clob_inv hash b' (upd_queue Q s i (xs @ ys))" "same_frame b b'" "same_orders b b'"
      by (rule remove_order_run [OF inv q])
    have core': "core_inv hash b' (upd_queue Q s i (xs @ ys))" using rm(2) by (simp add: clob_inv_def)
    have "oid \<in> book_ids (abs_book b)" using lookup_ids [OF core, of oid] Some by auto
    then have "spec_cancel (abs_book b) oid = (True, abs_book b')"
      using remove_abs [OF inv q rm(3,4)] rm(3) idx
      by (simp add: spec_cancel_def abs_book_eq [OF core] abs_book_eq [OF core'] same_frame_def)
    then show ?thesis
      using find Some rm
      by (intro that [of True b' "upd_queue Q s i (xs @ ys)"]) (simp_all add: cancel_order_def)
  qed
qed

subsection \<open>Adding\<close>

lemma enqueue_q_side:
  assumes core: "core_inv hash b Q" and p: "valid_price b p"
    and frame: "same_frame b b'"
    and other: "\<And>j. j \<noteq> idx_of b p \<Longrightarrow> q_entries b' Q' s j = q_entries b Q s j"
    and here: "q_entries b' Q' s (idx_of b p) = q_entries b Q s (idx_of b p) @ [(oid, p, q)]"
  shows "q_side b' Q' s = enqueue s (oid, p, q) (q_side b Q s)"
proof -
  let ?i = "idx_of b p" and ?P = "\<lambda>r. ahead_eq s (rest_price r) (rest_price (oid, p, q))"
  have i: "?i < width b" and pi: "price_of b ?i = p" using idx_of_valid [OF p] by simp_all
  have lo: "min_price b \<le> max_price b" by (rule core_basic(1) [OF core])
  have price: "rest_price r = price_of b j" if "r \<in> set (q_entries b Q s j)" for r j
    by (rule q_entries_price(1) [OF core that])
  have ahead: "?P r \<longleftrightarrow> better_eq s j ?i" if "r \<in> set (q_entries b Q s j)" "j < width b" for r j
    using price [OF that(1)] price_of_less_iff(2) [OF lo that(2) i] price_of_less_iff(2) [OF lo i that(2)] pi
    by (auto simp: ahead_eq_def better_eq_def split: Side.split)
  let ?front = "concat (map (q_entries b Q s) (before s (width b) ?i)) @ q_entries b Q s ?i"
  let ?behind = "concat (map (q_entries b Q s) (after s (width b) ?i))"
  have "?P r" if "r \<in> set ?front" for r
  proof -
    from that obtain j where j: "r \<in> set (q_entries b Q s j)" "j \<in> set (before s (width b) ?i) \<or> j = ?i"
      by auto
    then have "better_eq s j ?i \<and> j < width b" using in_before [OF _ i, of j s] i by auto
    then show ?thesis using ahead [OF j(1)] by blast
  qed
  moreover have "\<not> ?P r" if "r \<in> set ?behind" for r
  proof -
    from that obtain j where j: "r \<in> set (q_entries b Q s j)" "j \<in> set (after s (width b) ?i)"
      by auto
    then have "\<not> better_eq s j ?i \<and> j < width b" using in_after [OF _ i] by blast
    then show ?thesis using ahead [OF j(1)] by blast
  qed
  ultimately have "takeWhile ?P (?front @ ?behind) = ?front" "dropWhile ?P (?front @ ?behind) = ?behind"
    using takeWhile_dropWhile_split [of ?front ?P ?behind] by blast+
  then have "enqueue s (oid, p, q) (?front @ ?behind) = ?front @ (oid, p, q) # ?behind"
    by (simp add: enqueue_def)
  moreover have "q_side b Q s = ?front @ ?behind" using q_side_split [OF i] by simp
  moreover have "q_side b' Q' s = ?front @ (oid, p, q) # ?behind"
    using q_side_change [of b' b ?i Q' s Q] same_frame_simps(1) [OF frame] i other here by simp
  ultimately show ?thesis by simp
qed

lemma add_refines:
  assumes inv: "clob_inv hash b Q" and oid: "oid \<noteq> 0"
  obtains ok b' Q' where "add_order hash b oid s p q = Some (ok, b')" "clob_inv hash b' Q'"
    "same_frame b b'" "spec_add (abs_book b) oid s p q = (ok, abs_book b')"
proof -
  have core: "core_inv hash b Q" using inv by (simp add: clob_inv_def)
  have valid: "book_valid_price (abs_book b) p \<longleftrightarrow> valid_price b p"
    by (simp add: book_valid_price_def valid_price_def abs_book_def)
  show ?thesis
  proof (cases "q = 0 \<or> \<not> valid_price b p \<or> free_slots (pool b) = {} \<or> oid \<in> book_ids (abs_book b)")
    case True
    then have "add_order hash b oid s p q = Some (False, b)"
      using add_order_reject [of q b p] add_order_full [OF inv] add_order_dup [OF inv oid]
        lookup_ids [OF core, of oid] by auto
    moreover have "spec_add (abs_book b) oid s p q = (False, abs_book b)"
      using True valid full_iff [OF core] by (auto simp: spec_add_def)
    ultimately show ?thesis using inv by (intro that [of False b Q]) simp_all
  next
    case False
    then have p: "valid_price b p" and q: "q \<noteq> 0" and free: "free_slots (pool b) \<noteq> {}"
        and new: "index_map (order_lookup b) oid = None"
      using lookup_ids [OF core, of oid] by simp_all
    obtain b' idx where run: "add_order hash b oid s p q = Some (True, b')"
        and inv': "clob_inv hash b' (upd_queue Q s (idx_of b p) (Q s (idx_of b p) @ [idx]))"
        and frame: "same_frame b b'" and fresh: "idx \<notin> live_slots (pool b)"
        and data: "same_data (ord_at (book_orders b') idx)
          \<lparr>order_id = oid, price = p, qty = q, next_idx = 0, prev_idx = 0, side = s\<rparr>"
        and rest: "\<And>y. y \<noteq> idx \<Longrightarrow> same_data (ord_at (book_orders b') y) (ord_at (book_orders b) y)"
      by (rule add_order_run [OF inv p q oid new free, of s]) (rule that)
    let ?Q = "upd_queue Q s (idx_of b p) (Q s (idx_of b p) @ [idx])"
    have core': "core_inv hash b' ?Q" using inv' by (simp add: clob_inv_def)
    have old: "same_data (ord_at (book_orders b') y) (ord_at (book_orders b) y)"
      if "y \<in> set (Q t j)" for y t j
      by (rule rest) (use core_slot(1) [OF core that] fresh in blast)
    have other: "q_entries b' ?Q t j = q_entries b Q t j" if "(t, j) \<noteq> (s, idx_of b p)" for t j
      using that old by (intro q_entries_cong) auto
    have "q_entries b' ?Q s (idx_of b p) = q_entries b' Q s (idx_of b p) @ [(oid, p, q)]"
      using data by (simp add: q_entries_def entry_of_def same_data_def)
    also have "q_entries b' Q s (idx_of b p) = q_entries b Q s (idx_of b p)"
      using old by (intro q_entries_cong) auto
    finally have here: "q_entries b' ?Q s (idx_of b p) = q_entries b Q s (idx_of b p) @ [(oid, p, q)]" .
    have "q_side b' ?Q s = enqueue s (oid, p, q) (q_side b Q s)"
      by (rule enqueue_q_side [OF core p frame _ here]) (use other in blast)
    moreover have "q_side b' ?Q t = q_side b Q t" if "t \<noteq> s" for t
      using other that by (intro q_side_cong) (auto simp: same_frame_simps [OF frame])
    ultimately have "abs_book b' = set_side (abs_book b) s
        (enqueue s (oid, p, q) (side_of (abs_book b) s))"
      using frame
      by (cases s) (simp_all add: abs_book_eq [OF core] abs_book_eq [OF core'] set_side_def
            side_of_def same_frame_def)
    moreover have "spec_add (abs_book b) oid s p q =
        (True, set_side (abs_book b) s (enqueue s (oid, p, q) (side_of (abs_book b) s)))"
      using False valid full_iff [OF core] by (simp add: spec_add_def)
    ultimately show ?thesis using run inv' frame by (intro that [of True b' ?Q]) simp_all
  qed
qed

end
