(* ===== verification/Clob_Match.thy ===== *)
theory Clob_Match
  imports Clob_Refine
begin

text \<open>
  Matching refines \<open>fill\<close>. Both loops of the source terminate on a book that satisfies
  the invariant, with every sink: a pass of the inner loop uses up the incoming order
  or removes an order, a pass of the outer loop uses it up or empties a level. What a
  run does to the book and to the incoming order does not depend on the sink; each
  statement gives the run with the sink that drops its reports, to name the book the
  run ends in, and the run with an arbitrary sink, which is fed the executions of \<open>fill\<close>.
\<close>

subsection \<open>One pass of the inner loop\<close>

lemma core_level_count:
  assumes "core_inv hash b Q" and "valid_price b p"
  shows "0 < order_count (levels b s ! idx_of b p) \<longleftrightarrow> Q s (idx_of b p) \<noteq> []"
  using level_empty_iff [OF core_level [OF assms(1) idx_of_valid(1) [OF assms(2)]], of s]
  unfolding level_empty_def by (metis word_neq_0_conv)

lemma core_head:
  assumes "core_inv hash b Q" and "Q s i = x # xs"
  shows "head_idx (levels b s ! i) = x"
  using core_level [OF assms(1) core_width [OF assms(1), of s i], of s] assms(2)
  by (simp add: level_inv_def)

lemma match_stop:
  assumes "core_inv hash b Q" and "valid_price b p" and "q = 0 \<or> Q t (idx_of b p) = []"
  shows "match_at_level hash em t p oid b q ex = Some (b, q, ex)"
  using assms(3) core_level_at [OF assms(1,2), of t] core_level_count [OF assms(1,2), of t]
  by (subst match_at_level.simps) auto

lemma match_pass:
  assumes core: "core_inv hash b Q" and p: "valid_price b p" and q: "0 < q"
    and Q: "Q t (idx_of b p) = x # xs" and ord: "ord = ord_at (book_orders b) x"
  shows "match_at_level hash em t p oid b q ex =
    (if q < qty ord then do {
       ex \<leftarrow> em ex oid (order_id ord) p q;
       b \<leftarrow> on_level b t p (\<lambda>pl l. reduce_order_quantity pl l x q);
       Some (b, 0, ex)
     } else do {
       ex \<leftarrow> em ex oid (order_id ord) p (qty ord);
       b \<leftarrow> remove_order_by_index hash b x;
       match_at_level hash em t p oid b (q - qty ord) ex
     })"
proof -
  have "price ord = p"
    using core_order_ok [OF core, of x t "idx_of b p"] Q ord idx_of_valid(2) [OF p]
    by (simp add: order_ok_def)
  moreover have "pool_get (pool b) x = Some ord"
    using core_pool_get [OF core, of x t "idx_of b p"] Q ord by simp
  moreover have "0 < order_count (levels b t ! idx_of b p)"
    using core_level_count [OF core p, of t] Q by simp
  ultimately show ?thesis
    using q core_level_at [OF core p, of t] core_head [OF core Q]
    by (subst match_at_level.simps) simp
qed

subsection \<open>The inner loop\<close>

text \<open>
  What a stretch of matching on side \<open>t\<close> does: the executions \<open>es\<close> are reported, \<open>q'\<close>
  is left of the incoming order, and the orders of side \<open>t\<close> at index \<open>i\<close> become
  those of \<open>b'\<close>; all other levels hold the same orders.
\<close>

definition matches_level ::
    "hash_fn \<Rightarrow> Side \<Rightarrow> nat \<Rightarrow> OrderId \<Rightarrow> Quantity \<Rightarrow> FixedClob \<Rightarrow> queues
     \<Rightarrow> Execution list \<Rightarrow> Quantity \<Rightarrow> FixedClob \<Rightarrow> queues \<Rightarrow> bool" where
  "matches_level hash t i oid q b Q es q' b' Q' \<longleftrightarrow>
     clob_inv hash b' Q' \<and> same_frame b b' \<and>
     (\<forall>s l. accepts s l (price_of b i) \<longrightarrow>
        fill s l oid q (q_entries b Q t i) = (es, q', q_entries b' Q' t i)) \<and>
     (q' = 0 \<or> Q' t i = []) \<and>
     (\<forall>s j. (s, j) \<noteq> (t, i) \<longrightarrow> q_entries b' Q' s j = q_entries b Q s j)"

lemma match_at_level_run:
  assumes "clob_inv hash b Q" and "i < width b" and "Q t i = xs"
  shows "\<exists>es q' b' Q'. matches_level hash t i oid q b Q es q' b' Q' \<and>
     match_at_level hash null_emplace_back t (price_of b i) oid b q () = Some (b', q', ()) \<and>
     (\<forall>ex. match_at_level hash em t (price_of b i) oid b q ex =
       do { ex' \<leftarrow> emit_all em ex es; Some (b', q', ex') })"
  using assms
proof (induction xs arbitrary: b Q q)
  case Nil
  then have core: "core_inv hash b Q" by (simp add: clob_inv_def)
  note p = price_of_index [OF core_basic(1) [OF core] Nil(2)]
  have "matches_level hash t i oid q b Q [] q b Q"
    using Nil by (simp add: matches_level_def q_entries_def)
  then show ?case
    using match_stop [OF core p(1), of q t] p(2) Nil(3)
    by (intro exI [of _ "[]"] exI [of _ q] exI [of _ b] exI [of _ Q])
       (simp add: match_stop [OF core p(1)])
next
  case (Cons x xs)
  note inv = \<open>clob_inv hash b Q\<close> and i = \<open>i < width b\<close> and Q = \<open>Q t i = x # xs\<close>
  have core: "core_inv hash b Q" using inv by (simp add: clob_inv_def)
  note p = price_of_index [OF core_basic(1) [OF core] i]
  define ord where "ord = ord_at (book_orders b) x"
  have ok: "price ord = price_of b i" "qty ord \<noteq> 0"
    using core_order_ok [OF core, of x t i] Q by (simp_all add: order_ok_def ord_def)
  have ent: "q_entries b Q t i = (order_id ord, price_of b i, qty ord) #
      map (\<lambda>y. entry_of (ord_at (book_orders b) y)) xs"
    using Q ok by (simp add: q_entries_def entry_of_def ord_def [symmetric])
  have pass: "match_at_level hash em' t (price_of b i) oid b q ex' = (if q < qty ord then do {
       ex \<leftarrow> em' ex' oid (order_id ord) (price_of b i) q;
       b' \<leftarrow> on_level b t (price_of b i) (\<lambda>pl l. reduce_order_quantity pl l x q);
       Some (b', 0, ex)
     } else do {
       ex \<leftarrow> em' ex' oid (order_id ord) (price_of b i) (qty ord);
       b' \<leftarrow> remove_order_by_index hash b x;
       match_at_level hash em' t (price_of b i) oid b' (q - qty ord) ex
     })" if "0 < q" for em' :: "'s emplace" and ex'
    by (rule match_pass [OF core p(1) that]) (simp_all add: p(2) Q ord_def)
  consider (zero) "q = 0" | (part) "0 < q" "q < qty ord" | (full) "0 < q" "qty ord \<le> q"
    using word_neq_0_conv [of q] by fastforce
  then show ?case
  proof cases
    case zero
    have "matches_level hash t i oid q b Q [] q b Q"
      using inv zero by (simp add: matches_level_def)
    then show ?thesis
      using zero by (intro exI [of _ "[]"] exI [of _ q] exI [of _ b] exI [of _ Q])
        (simp add: match_stop [OF core p(1)])
  next
    case part
    obtain b' where red: "on_level b t (price_of b i) (\<lambda>pl l. reduce_order_quantity pl l x q) = Some b'"
        and b': "clob_inv hash b' Q" "same_frame b b'"
          "book_orders b' = (book_orders b)[unat x := ord\<lparr>qty := qty ord - q\<rparr>]"
          "unat x < length (book_orders b)"
      using partial_fill_run [OF inv, of t i "[]" x xs q] Q part by (auto simp: ord_def)
    have dist: "x \<notin> set xs"
      using core_level [OF core i, of t] Q by (simp add: level_inv_def)
    have "q_entries b' Q t i = (order_id ord, price_of b i, qty ord - q) #
        map (\<lambda>y. entry_of (ord_at (book_orders b) y)) xs"
      using Q ok dist b'(3,4) by (auto simp: q_entries_def entry_of_def)
    moreover have "q_entries b' Q s j = q_entries b Q s j" if "(s, j) \<noteq> (t, i)" for s j
    proof -
      have "x \<notin> set (Q s j)" using core_disjoint [OF core, of x t i s j] Q that by auto
      then show ?thesis using b'(3,4) by (auto simp: q_entries_def)
    qed
    ultimately have "matches_level hash t i oid q b Q [mk_execution oid (order_id ord) (price_of b i) q] 0 b' Q"
      using b'(1,2) part by (auto simp: matches_level_def ent)
    then show ?thesis
      using part red
      by (intro exI [of _ "[mk_execution oid (order_id ord) (price_of b i) q]"] exI [of _ 0]
            exI [of _ b'] exI [of _ Q])
         (simp add: pass)
  next
    case full
    obtain b1 where rm: "remove_order_by_index hash b x = Some b1"
        and b1: "clob_inv hash b1 (upd_queue Q t i xs)" "same_frame b b1" "same_orders b b1"
      using remove_order_run [OF inv, of t i "[]" x xs] Q by auto
    let ?Q = "upd_queue Q t i xs" and ?e = "mk_execution oid (order_id ord) (price_of b i) (qty ord)"
    note fr = same_frame_simps [OF b1(2)]
    obtain es q' b' Q' where ml: "matches_level hash t i oid (q - qty ord) b1 ?Q es q' b' Q'"
       and nl: "match_at_level hash null_emplace_back t (price_of b i) oid b1 (q - qty ord) () = Some (b', q', ())"
       and vl: "\<And>ex. match_at_level hash em t (price_of b i) oid b1 (q - qty ord) ex =
          do { ex' \<leftarrow> emit_all em ex es; Some (b', q', ex') }"
    proof -
      have "i < width b1" "?Q t i = xs" using i fr(1) by simp_all
      from Cons.IH [OF b1(1) this, of "q - qty ord"] show thesis
        unfolding fr(2) by (elim exE conjE) (rule that, blast+)
    qed
    have other: "q_entries b1 ?Q s j = q_entries b Q s j" if "(s, j) \<noteq> (t, i)" for s j
      using that b1(3) by (intro q_entries_cong) (auto simp: same_orders_def)
    have "q_entries b1 ?Q t i = map (\<lambda>y. entry_of (ord_at (book_orders b) y)) xs"
      using b1(3) by (simp add: q_entries_def entry_of_def same_orders_def same_data_def)
    then have "matches_level hash t i oid q b Q (?e # es) q' b' Q'"
      using ml full other b1(2) unfolding matches_level_def ent fr
      by (auto intro: same_frame_trans)
    moreover have "\<not> q < qty ord" using full(2) by simp
    ultimately show ?thesis
      using full(1) rm nl vl
      by (intro exI [of _ "?e # es"] exI [of _ q'] exI [of _ b'] exI [of _ Q'])
         (simp add: pass)
  qed
qed

subsection \<open>The outer loop\<close>

lemma crosses_eq:
  "crosses b s l \<longleftrightarrow> (case best_price b (opposite s) of None \<Rightarrow> False | Some p \<Rightarrow> accepts s l p)"
  by (cases s) (auto simp: crosses_def best_price_def accepts_def split: option.split)

lemma best_opposite_eq:
  "best_opposite_level b s = map_option (\<lambda>p. (opposite s, p)) (best_price b (opposite s))"
  by (cases s) (auto simp: best_opposite_level_def best_price_def split: option.split bind_split)

text \<open>No price of the opposite side is acceptable once the best one is not.\<close>

lemma not_crosses_blocked:
  assumes inv: "clob_inv hash b Q" and "\<not> crosses b s l"
  shows "fill s l oid q (q_side b Q (opposite s)) = ([], q, q_side b Q (opposite s))"
proof (rule fill_blocked)
  fix r assume "r \<in> set (q_side b Q (opposite s))"
  then obtain j where j: "r \<in> set (q_entries b Q (opposite s) j)" by (auto simp: q_side_def)
  have core: "core_inv hash b Q" and best: "is_best b Q (opposite s) (best_price b (opposite s))"
    using inv by (simp_all add: clob_inv_def)
  have ne: "Q (opposite s) j \<noteq> []" using j by (auto simp: q_entries_def)
  then obtain p where p: "best_price b (opposite s) = Some p"
    using best by (cases "best_price b (opposite s)") (auto simp: is_best_None)
  have v: "valid_price b p" and be: "better_eq (opposite s) (idx_of b p) j"
    using best p ne by (simp_all add: is_best_Some)
  have "\<not> accepts s l p" using assms(2) p by (simp add: crosses_eq)
  moreover note price_of_less_iff(2) [OF core_basic(1) [OF core] idx_of_valid(1) [OF v] q_entries_price(3) [OF core j]]
    price_of_less_iff(2) [OF core_basic(1) [OF core] q_entries_price(3) [OF core j] idx_of_valid(1) [OF v]]
  ultimately show "\<not> accepts s l (rest_price r)"
    using be q_entries_price(1) [OF core j] idx_of_valid(2) [OF v]
    by (cases s) (auto simp: accepts_def better_eq_def)
qed

lemma match_order_stop:
  "q = 0 \<or> \<not> crosses b s l \<Longrightarrow> match_order hash em oid s l b q ex = Some (b, q, ex)"
  by (subst match_order.simps) auto

lemma match_order_pass:
  assumes "0 < q" and "best_price b (opposite s) = Some p" and "accepts s l p"
  shows "match_order hash em oid s l b q ex = do {
     (b, q, ex) \<leftarrow> match_at_level hash em (opposite s) p oid b q ex;
     match_order hash em oid s l b q ex }"
  using assms by (subst match_order.simps) (simp add: crosses_eq best_opposite_eq)

text \<open>There is nothing before the best level.\<close>

lemma before_best:
  assumes inv: "clob_inv hash b Q" and p: "best_price b t = Some p"
  shows "concat (map (q_entries b Q t) (before t (width b) (idx_of b p))) = []"
proof -
  have b': "is_best b Q t (Some p)" using inv p by (simp add: clob_inv_def flip: p)
  then have i: "idx_of b p < width b" by (simp add: is_best_Some idx_of_valid(1))
  have "q_entries b Q t j = []" if "j \<in> set (before t (width b) (idx_of b p))" for j
  proof -
    have "better_eq t j (idx_of b p)" "j \<noteq> idx_of b p" using in_before [OF that i] by simp_all
    then have "Q t j = []" using b' by (cases t) (fastforce simp: is_best_Some better_eq_def)+
    then show ?thesis by (simp add: q_entries_def)
  qed
  then show ?thesis by simp
qed

definition matches_side ::
    "hash_fn \<Rightarrow> Side \<Rightarrow> Price \<Rightarrow> OrderId \<Rightarrow> Quantity \<Rightarrow> FixedClob \<Rightarrow> queues
     \<Rightarrow> Execution list \<Rightarrow> Quantity \<Rightarrow> FixedClob \<Rightarrow> queues \<Rightarrow> bool" where
  "matches_side hash s l oid q b Q es q' b' Q' \<longleftrightarrow>
     clob_inv hash b' Q' \<and> same_frame b b' \<and>
     fill s l oid q (q_side b Q (opposite s)) = (es, q', q_side b' Q' (opposite s)) \<and>
     q_side b' Q' s = q_side b Q s"

lemma match_order_run:
  assumes "clob_inv hash b Q"
  shows "\<exists>es q' b' Q'. matches_side hash s l oid q b Q es q' b' Q' \<and>
     match_order hash null_emplace_back oid s l b q () = Some (b', q', ()) \<and>
     (\<forall>ex. match_order hash em oid s l b q ex = do { ex' \<leftarrow> emit_all em ex es; Some (b', q', ex') })"
  using assms
proof (induction "length (q_side b Q (opposite s))" arbitrary: b Q q rule: less_induct)
  case less
  note inv = \<open>clob_inv hash b Q\<close>
  show ?case
  proof (cases "q = 0 \<or> \<not> crosses b s l")
    case True
    then have "matches_side hash s l oid q b Q [] q b Q"
      using inv not_crosses_blocked [OF inv] by (auto simp: matches_side_def)
    then show ?thesis
      by (intro exI [of _ "[]"] exI [of _ q] exI [of _ b] exI [of _ Q])
         (simp add: match_order_stop [OF True])
  next
    case False
    let ?t = "opposite s"
    have q: "0 < q" using False word_neq_0_conv by blast
    obtain p where p: "best_price b ?t = Some p" and acc: "accepts s l p"
      using False by (auto simp: crosses_eq split: option.splits)
    let ?i = "idx_of b p"
    have core: "core_inv hash b Q" and best: "is_best b Q ?t (Some p)"
      using inv by (simp_all add: clob_inv_def flip: p)
    then have v: "valid_price b p" and ne: "Q ?t ?i \<noteq> []" by (simp_all add: is_best_Some)
    note i = idx_of_valid [OF v]
    obtain es q1 b1 Q1 where ml: "matches_level hash ?t ?i oid q b Q es q1 b1 Q1"
       and nl: "match_at_level hash null_emplace_back ?t p oid b q () = Some (b1, q1, ())"
       and vl: "\<And>ex. match_at_level hash em ?t p oid b q ex = do { ex' \<leftarrow> emit_all em ex es; Some (b1, q1, ex') }"
      using match_at_level_run [OF inv i(1) refl, of ?t oid q em] i(2) by auto
    let ?after = "concat (map (q_entries b Q ?t) (after ?t (width b) ?i))"
    have inv1: "clob_inv hash b1 Q1" and frame: "same_frame b b1"
      and done_or: "q1 = 0 \<or> q_entries b1 Q1 ?t ?i = []"
      and other: "\<And>s' j. (s', j) \<noteq> (?t, ?i) \<Longrightarrow> q_entries b1 Q1 s' j = q_entries b Q s' j"
      and fill: "fill s l oid q (q_entries b Q ?t ?i) = (es, q1, q_entries b1 Q1 ?t ?i)"
      using ml acc i(2) by (auto simp: matches_level_def q_entries_def)
    have side: "q_side b Q ?t = q_entries b Q ?t ?i @ ?after"
      using q_side_split [OF i(1), of Q ?t] before_best [OF inv p] by simp
    have "q_side b1 Q1 ?t = concat (map (q_entries b Q ?t) (before ?t (width b) ?i)) @
        q_entries b1 Q1 ?t ?i @ ?after"
      by (rule q_side_change [OF same_frame_simps(1) [OF frame] i(1)]) (use other in blast)
    then have side1: "q_side b1 Q1 ?t = q_entries b1 Q1 ?t ?i @ ?after"
      using before_best [OF inv p] by simp
    have own: "q_side b1 Q1 s = q_side b Q s"
      by (rule q_side_cong) (use other same_frame_simps(1) [OF frame] in auto)
    show ?thesis
    proof (cases "q1 = 0")
      case True
      have "matches_side hash s l oid q b Q es q1 b1 Q1"
        using inv1 frame own fill_append_done [OF fill, of ?after "[]" q1 ?after] True
        by (simp add: matches_side_def side1 side)
      then show ?thesis
        using True
        by (intro exI [of _ es] exI [of _ q1] exI [of _ b1] exI [of _ Q1])
           (simp add: match_order_pass [OF q p acc] nl vl match_order_stop bind_assoc)
    next
      case False
      then have empty: "q_entries b1 Q1 ?t ?i = []" using done_or by simp
      have "length (q_side b1 Q1 ?t) < length (q_side b Q ?t)"
        using ne by (simp add: side1 side empty) (simp add: q_entries_def)
      then obtain es' q' b' Q' where ms: "matches_side hash s l oid q1 b1 Q1 es' q' b' Q'"
         and nl': "match_order hash null_emplace_back oid s l b1 q1 () = Some (b', q', ())"
         and vl': "\<And>ex. match_order hash em oid s l b1 q1 ex = do { ex' \<leftarrow> emit_all em ex es'; Some (b', q', ex') }"
        using less(1) [OF _ inv1] by blast
      have "fill s l oid q1 ?after = (es', q', q_side b' Q' ?t)"
        using ms by (simp add: matches_side_def side1 empty)
      then have "matches_side hash s l oid q b Q (es @ es') q' b' Q'"
        using fill_append_done [OF fill, of ?after es' q' "q_side b' Q' ?t"] empty ms frame own
        by (auto simp: matches_side_def side intro: same_frame_trans)
      then show ?thesis
        by (intro exI [of _ "es @ es'"] exI [of _ q'] exI [of _ b'] exI [of _ Q'])
           (simp add: match_order_pass [OF q p acc] nl vl nl' vl' emit_all_append bind_assoc)
    qed
  qed
qed

end
