(* ===== verification/Book_Laws.thy ===== *)
theory Book_Laws
  imports Book_Spec
begin

text \<open>
  What the abstract book guarantees by itself: the invariant \<open>book_ok\<close> (sides sorted by
  priority, distinct ids, no empty orders, prices in range, no more orders than slots)
  is kept by the three operations; matching respects price-time priority, conserves
  quantity and stops only when it must; submitting never leaves a crossed book.
\<close>

subsection \<open>Invariants of the abstract book\<close>

definition sorted_side :: "Side \<Rightarrow> resting list \<Rightarrow> bool" where
  "sorted_side s rs \<longleftrightarrow> sorted_wrt (\<lambda>r r'. ahead_eq s (rest_price r) (rest_price r')) rs"

definition book_ok :: "book \<Rightarrow> bool" where
  "book_ok bk \<longleftrightarrow>
     sorted_side Buy (bids bk) \<and> sorted_side Sell (asks bk) \<and>
     distinct (map rest_id (bids bk @ asks bk)) \<and>
     (\<forall>r \<in> set (bids bk @ asks bk). rest_qty r \<noteq> 0 \<and> book_valid_price bk (rest_price r)) \<and>
     resting_count bk \<le> slots bk"

text \<open>No resting buy order could trade with a resting sell order.\<close>

definition uncrossed :: "book \<Rightarrow> bool" where
  "uncrossed bk \<longleftrightarrow> (\<forall>r \<in> set (bids bk). \<forall>r' \<in> set (asks bk). rest_price r < rest_price r')"

definition book_sides_ok :: "Side \<Rightarrow> resting list \<Rightarrow> bool" where
  "book_sides_ok s rs \<longleftrightarrow> sorted_side s rs \<and> distinct (map rest_id rs) \<and> (\<forall>r \<in> set rs. rest_qty r \<noteq> 0)"

lemma ahead_eq_refl [simp]: "ahead_eq s p p"
  by (simp add: ahead_eq_def split: Side.split)

lemma ahead_eq_trans: "ahead_eq s a b \<Longrightarrow> ahead_eq s b c \<Longrightarrow> ahead_eq s a c"
  by (auto simp: ahead_eq_def split: Side.splits)

lemma ahead_eq_linear: "ahead_eq s a b \<or> ahead_eq s b a"
  by (auto simp: ahead_eq_def split: Side.split)

lemma accepts_ahead: "ahead_eq (opposite s) p p' \<Longrightarrow> accepts s l p' \<Longrightarrow> accepts s l p"
  by (cases s) (auto simp: ahead_eq_def accepts_def)

lemma side_of_set_side [simp]: "side_of (set_side bk s rs) t = (if t = s then rs else side_of bk t)"
  by (cases s; cases t) (simp_all add: side_of_def set_side_def)

lemma set_side_fields [simp]:
  "slots (set_side bk s rs) = slots bk" "lo_price (set_side bk s rs) = lo_price bk"
  "hi_price (set_side bk s rs) = hi_price bk" "book_valid_price (set_side bk s rs) = book_valid_price bk"
  by (simp_all add: set_side_def book_valid_price_def fun_eq_iff split: Side.split)

lemma set_side_side_of [simp]: "set_side bk s (side_of bk s) = bk"
  by (simp add: set_side_def side_of_def split: Side.split)

lemma set_side_twice [simp]: "set_side (set_side bk s rs) s rs' = set_side bk s rs'"
  by (simp add: set_side_def split: Side.split)

lemma book_ids_side:
  "book_ids bk = rest_id ` set (side_of bk s) \<union> rest_id ` set (side_of bk (opposite s))"
  by (cases s) (auto simp: book_ids_def side_of_def)

lemma resting_count_side:
  "resting_count bk = length (side_of bk s) + length (side_of bk (opposite s))"
  by (cases s) (auto simp: resting_count_def side_of_def)

text \<open>The invariant, one side at a time.\<close>

lemma book_ok_side:
  "book_ok bk \<longleftrightarrow>
     book_sides_ok s (side_of bk s) \<and> book_sides_ok (opposite s) (side_of bk (opposite s)) \<and>
     rest_id ` set (side_of bk s) \<inter> rest_id ` set (side_of bk (opposite s)) = {} \<and>
     (\<forall>r \<in> set (side_of bk s) \<union> set (side_of bk (opposite s)). book_valid_price bk (rest_price r)) \<and>
     resting_count bk \<le> slots bk"
  by (cases s) (auto simp: book_ok_def book_sides_ok_def side_of_def simp del: rest_simps)

lemma set_side_ok_iff:
  "book_ok (set_side bk s rs) \<longleftrightarrow>
     book_sides_ok s rs \<and> book_sides_ok (opposite s) (side_of bk (opposite s)) \<and>
     rest_id ` set rs \<inter> rest_id ` set (side_of bk (opposite s)) = {} \<and>
     (\<forall>r \<in> set rs \<union> set (side_of bk (opposite s)). book_valid_price bk (rest_price r)) \<and>
     length rs + length (side_of bk (opposite s)) \<le> slots bk"
  unfolding book_ok_side [of "set_side bk s rs" s] resting_count_side [of "set_side bk s rs" s] by simp

lemma book_ok_sides:
  assumes "book_ok bk"
  shows "book_sides_ok s (side_of bk s)" "book_sides_ok (opposite s) (side_of bk (opposite s))"
    "rest_id ` set (side_of bk s) \<inter> rest_id ` set (side_of bk (opposite s)) = {}"
    "\<forall>r \<in> set (side_of bk s) \<union> set (side_of bk (opposite s)). book_valid_price bk (rest_price r)"
    "length (side_of bk s) + length (side_of bk (opposite s)) \<le> slots bk"
  using assms unfolding book_ok_side [of bk s] resting_count_side [of bk s] by blast+

subsection \<open>Matching\<close>

text \<open>\<open>fill\<close> as a relation, one rule for each way a pass can go.\<close>

inductive fills :: "Side \<Rightarrow> Price \<Rightarrow> OrderId \<Rightarrow> resting list \<Rightarrow> Quantity \<Rightarrow>
    Execution list \<Rightarrow> Quantity \<Rightarrow> resting list \<Rightarrow> bool" for s l oid where
  none: "fills s l oid [] q [] q []"
| stop: "q = 0 \<or> \<not> accepts s l (rest_price r) \<Longrightarrow> fills s l oid (r # rs) q [] q (r # rs)"
| part: "q \<noteq> 0 \<Longrightarrow> accepts s l p \<Longrightarrow> q < r \<Longrightarrow>
    fills s l oid ((rid, p, r) # rs) q [mk_execution oid rid p q] 0 ((rid, p, r - q) # rs)"
| take: "q \<noteq> 0 \<Longrightarrow> accepts s l p \<Longrightarrow> r \<le> q \<Longrightarrow> fills s l oid rs (q - r) es q' rs' \<Longrightarrow>
    fills s l oid ((rid, p, r) # rs) q (mk_execution oid rid p r # es) q' rs'"

lemma fill_fills: "fill s l oid q rs = (es, q', rs') \<Longrightarrow> fills s l oid rs q es q' rs'"
proof (induction rs arbitrary: q es q' rs')
  case Nil
  then show ?case by (simp add: fills.none)
next
  case (Cons x rs)
  obtain rid p r where x: "x = (rid, p, r)" by (metis prod.exhaust)
  consider "q = 0 \<or> \<not> accepts s l p" | "q \<noteq> 0" "accepts s l p" "q < r" | "q \<noteq> 0" "accepts s l p" "r \<le> q"
    by fastforce
  then show ?case
  proof cases
    case 1
    then show ?thesis using Cons.prems fills.stop [of q s l x oid rs] by (auto simp: x)
  next
    case 2
    then show ?thesis using Cons.prems fills.part by (auto simp: x)
  next
    case 3
    obtain es1 q1 rs1 where f: "fill s l oid (q - r) rs = (es1, q1, rs1)" by (metis prod.exhaust)
    then have "es = mk_execution oid rid p r # es1" "q' = q1" "rs' = rs1"
      using Cons.prems 3 by (simp_all add: x leD)
    then show ?thesis using fills.take [OF 3 Cons.IH [OF f]] by (simp add: x)
  qed
qed

text \<open>No quantity is created or lost, on either side of the trades.\<close>

abbreviation traded :: "Execution list \<Rightarrow> nat" where
  "traded es \<equiv> (\<Sum>e\<leftarrow>es. unat (exec_qty e))"

abbreviation depth :: "resting list \<Rightarrow> nat" where
  "depth rs \<equiv> (\<Sum>r\<leftarrow>rs. unat (rest_qty r))"

lemma unat_split: "(r :: 'a::len word) \<le> q \<Longrightarrow> unat q = unat r + unat (q - r)"
  by (simp add: word_le_nat_alt unat_sub)

lemma fills_conserve:
  "fills s l oid rs q es q' rs' \<Longrightarrow>
   traded es + unat q' = unat q \<and> traded es + depth rs' = depth rs"
proof (induction rule: fills.induct)
  case (part q p r rid rs)
  then show ?case using unat_split [of q r] by simp
next
  case (take q p r rs es q' rs' rid)
  then show ?case using unat_split [of r q] by simp
qed simp_all

text \<open>
  Price-time priority: the executions name the first orders of the side, in order, each
  at the price it rests at; all of them but perhaps the last are filled completely.
  What remains is the rest of the side, behind what is left of the last order named.
\<close>

definition remaining_after :: "Execution list \<Rightarrow> resting list \<Rightarrow> resting list" where
  "remaining_after es rs =
     (if es = [] then rs
      else case rs ! (length es - 1) of (i, p, r) \<Rightarrow>
        if exec_qty (last es) < r then (i, p, r - exec_qty (last es)) # drop (length es) rs
        else drop (length es) rs)"

lemma fills_priority:
  "fills s l oid rs q es q' rs' \<Longrightarrow>
   length es \<le> length rs \<and>
   map (\<lambda>e. (resting_order_id e, exec_price e)) es =
     map (\<lambda>r. (rest_id r, rest_price r)) (take (length es) rs) \<and>
   (\<forall>k. Suc k < length es \<longrightarrow> exec_qty (es ! k) = rest_qty (rs ! k)) \<and>
   rs' = remaining_after es rs"
proof (induction rule: fills.induct)
  case (take q p r rs es q' rs' rid)
  have "remaining_after (mk_execution oid rid p r # es) ((rid, p, r) # rs) = remaining_after es rs"
    by (cases es) (simp_all add: remaining_after_def split: prod.split)
  then show ?case using take by (auto simp: nth_Cons split: nat.split)
qed (simp_all add: remaining_after_def)

text \<open>Every execution is one the incoming order accepts, of a positive quantity.\<close>

lemma fills_executions:
  "fills s l oid rs q es q' rs' \<Longrightarrow> \<forall>r \<in> set rs. rest_qty r \<noteq> 0 \<Longrightarrow>
   \<forall>e \<in> set es. incoming_order_id e = oid \<and> accepts s l (exec_price e) \<and> exec_qty e \<noteq> 0"
  by (induction rule: fills.induct) auto

text \<open>Matching stops only when nothing is left to match.\<close>

lemma fills_complete:
  "fills s l oid rs q es q' rs' \<Longrightarrow>
   q' = 0 \<or> (case rs' of [] \<Rightarrow> True | r # _ \<Rightarrow> \<not> accepts s l (rest_price r))"
  by (induction rule: fills.induct) (auto split: list.splits)

text \<open>The remaining orders are a suffix of the side, but for the quantity of the first.\<close>

abbreviation keys :: "resting list \<Rightarrow> (OrderId \<times> Price) list" where
  "keys rs \<equiv> map (\<lambda>r. (rest_id r, rest_price r)) rs"

lemma fills_suffix:
  "fills s l oid rs q es q' rs' \<Longrightarrow> \<exists>pre. keys rs = pre @ keys rs'"
proof (induction rule: fills.induct)
  case (take q p r rs es q' rs' rid)
  then obtain pre where "keys rs = pre @ keys rs'" by blast
  then have "keys ((rid, p, r) # rs) = ((rid, p) # pre) @ keys rs'" by simp
  then show ?case by blast
qed (rule exI [of _ "[]"], simp)+

lemma fills_positive:
  "fills s l oid rs q es q' rs' \<Longrightarrow> \<forall>r \<in> set rs. rest_qty r \<noteq> 0 \<Longrightarrow> \<forall>r \<in> set rs'. rest_qty r \<noteq> 0"
  by (induction rule: fills.induct) auto

lemma fills_no_executions:
  "fills s l oid rs q [] q' rs' \<Longrightarrow> q' = q \<and> rs' = rs"
  using fills_priority [of s l oid rs q "[]" q' rs'] fills_conserve [of s l oid rs q "[]" q' rs']
  by (simp add: remaining_after_def)

lemma fills_shorter:
  "fills s l oid rs q es q' rs' \<Longrightarrow> length rs' \<le> length rs \<and> (es \<noteq> [] \<and> q' \<noteq> 0 \<longrightarrow> length rs' < length rs)"
  by (induction rule: fills.induct) auto

subsection \<open>A side after matching and after adding\<close>

lemma sorted_side_keys:
  "sorted_side s rs \<longleftrightarrow> sorted_wrt (\<lambda>k k'. ahead_eq s (snd k) (snd k')) (keys rs)"
  by (simp add: sorted_side_def sorted_wrt_map)

lemma keys_ids: "map rest_id rs = map fst (keys rs)"
  by (simp add: comp_def)

lemma in_keys: "(i, p) \<in> set (keys rs) \<longleftrightarrow> (\<exists>r \<in> set rs. rest_id r = i \<and> rest_price r = p)"
  by auto

lemma fills_side_ok:
  assumes f: "fills s l oid rs q es q' rs'" and ok: "book_sides_ok t rs"
  shows "book_sides_ok t rs'" and "set (keys rs') \<subseteq> set (keys rs)"
proof -
  obtain pre where k: "keys rs = pre @ keys rs'" using fills_suffix [OF f] by blast
  show "set (keys rs') \<subseteq> set (keys rs)" unfolding k by simp
  have "distinct (map fst (keys rs))" "sorted_side t rs" "\<forall>r \<in> set rs. rest_qty r \<noteq> 0"
    using ok unfolding book_sides_ok_def keys_ids by blast+
  then have "distinct (map fst (keys rs'))" "sorted_side t rs'" "\<forall>r \<in> set rs'. rest_qty r \<noteq> 0"
    using fills_positive [OF f] unfolding sorted_side_keys k by (simp_all add: sorted_wrt_append)
  then show "book_sides_ok t rs'" by (simp only: book_sides_ok_def keys_ids)
qed

lemma enqueue_split:
  obtains xs ys where "rs = xs @ ys" "enqueue s r rs = xs @ r # ys"
    "\<forall>r' \<in> set xs. ahead_eq s (rest_price r') (rest_price r)"
    "case ys of [] \<Rightarrow> True | r' # _ \<Rightarrow> \<not> ahead_eq s (rest_price r') (rest_price r)"
proof
  let ?P = "\<lambda>r'. ahead_eq s (rest_price r') (rest_price r)"
  show "rs = takeWhile ?P rs @ dropWhile ?P rs" by simp
  show "enqueue s r rs = takeWhile ?P rs @ r # dropWhile ?P rs" by (simp add: enqueue_def)
  show "\<forall>r' \<in> set (takeWhile ?P rs). ?P r'" by (blast dest: set_takeWhileD)
  show "case dropWhile ?P rs of [] \<Rightarrow> True | r' # _ \<Rightarrow> \<not> ?P r'"
  proof (cases "dropWhile ?P rs")
    case (Cons r' ys)
    then have "\<not> ?P (hd (dropWhile ?P rs))" using hd_dropWhile [of ?P rs] by fastforce
    then show ?thesis using Cons by simp
  next
    case Nil
    then show ?thesis unfolding Nil by simp
  qed
qed

lemma set_enqueue [simp]: "set (enqueue s r rs) = insert r (set rs)"
  by (rule enqueue_split [of rs s r]) auto

lemma length_enqueue [simp]: "length (enqueue s r rs) = Suc (length rs)"
  by (rule enqueue_split [of rs s r]) simp

lemma sorted_not_ahead:
  assumes "sorted_side s (r' # ys)" and "\<not> ahead_eq s (rest_price r') p" and "y \<in> set (r' # ys)"
  shows "\<not> ahead_eq s (rest_price y) p"
proof
  assume "ahead_eq s (rest_price y) p"
  moreover have "ahead_eq s (rest_price r') (rest_price y)" using assms(1,3) by (auto simp: sorted_side_def)
  ultimately show False using assms(2) ahead_eq_trans by blast
qed

lemma sorted_enqueue:
  assumes "sorted_side s rs"
  shows "sorted_side s (enqueue s r rs)"
proof (rule enqueue_split [of rs s r])
  fix xs ys
  assume split: "rs = xs @ ys" "enqueue s r rs = xs @ r # ys"
    and xs: "\<forall>r' \<in> set xs. ahead_eq s (rest_price r') (rest_price r)"
    and ys: "case ys of [] \<Rightarrow> True | r' # _ \<Rightarrow> \<not> ahead_eq s (rest_price r') (rest_price r)"
  have "ahead_eq s (rest_price r) (rest_price y)" if "y \<in> set ys" for y
  proof -
    obtain r' ys' where c: "ys = r' # ys'" using \<open>y \<in> set ys\<close> by (cases ys) auto
    have "sorted_side s (r' # ys')" using assms split(1) c by (simp add: sorted_side_def sorted_wrt_append)
    then have "\<not> ahead_eq s (rest_price y) (rest_price r)"
      by (rule sorted_not_ahead) (use ys c that in auto)
    then show ?thesis using ahead_eq_linear by blast
  qed
  moreover have "sorted_side s (xs @ ys)" using assms by (simp only: split(1))
  ultimately show ?thesis
    using xs unfolding split(2) sorted_side_def sorted_wrt_append by simp
qed

text \<open>Within a price, the new order is the last.\<close>

lemma at_price_enqueue:
  assumes "sorted_side s rs"
  shows "filter (\<lambda>r'. rest_price r' = p) (enqueue s r rs) =
     filter (\<lambda>r'. rest_price r' = p) rs @ (if rest_price r = p then [r] else [])"
proof (rule enqueue_split [of rs s r])
  fix xs ys
  assume split: "rs = xs @ ys" "enqueue s r rs = xs @ r # ys"
    and ys: "case ys of [] \<Rightarrow> True | r' # _ \<Rightarrow> \<not> ahead_eq s (rest_price r') (rest_price r)"
  have "rest_price y \<noteq> rest_price r" if "y \<in> set ys" for y
  proof -
    obtain r' ys' where c: "ys = r' # ys'" using \<open>y \<in> set ys\<close> by (cases ys) auto
    have "sorted_side s (r' # ys')" using assms split(1) c by (simp add: sorted_side_def sorted_wrt_append)
    then have "\<not> ahead_eq s (rest_price y) (rest_price r)"
      by (rule sorted_not_ahead) (use ys c that in auto)
    then show ?thesis by auto
  qed
  then have "rest_price r = p \<Longrightarrow> filter (\<lambda>r'. rest_price r' = p) ys = []"
    by (fastforce simp: filter_empty_conv simp del: rest_simps)
  then show ?thesis unfolding split(2) by (simp add: split(1))
qed

lemma enqueue_side_ok:
  assumes ok: "book_sides_ok s rs" and new: "rest_id r \<notin> rest_id ` set rs" and q: "rest_qty r \<noteq> 0"
  shows "book_sides_ok s (enqueue s r rs)"
proof -
  have "distinct (map rest_id (enqueue s r rs))"
    using ok new by (rule_tac enqueue_split [of rs s r]) (auto simp: book_sides_ok_def simp del: rest_simps)
  then show ?thesis
    using ok q sorted_enqueue by (auto simp: book_sides_ok_def simp del: rest_simps)
qed

lemma remove_enqueue:
  assumes "rest_id r \<notin> rest_id ` set rs"
  shows "filter (\<lambda>r'. rest_id r' \<noteq> rest_id r) (enqueue s r rs) = rs"
proof (rule enqueue_split [of rs s r])
  fix xs ys
  assume split: "rs = xs @ ys" "enqueue s r rs = xs @ r # ys"
  have "filter (\<lambda>r'. rest_id r' \<noteq> rest_id r) rs = rs"
    using assms by (intro filter_True) (fastforce simp: image_iff simp del: rest_simps)
  then show ?thesis unfolding split(2) by (simp add: split(1))
qed

subsection \<open>The operations keep the invariant\<close>

lemma spec_add_cases:
  obtains (refused) "spec_add bk oid s p q = (False, bk)"
    "q = 0 \<or> \<not> book_valid_price bk p \<or> resting_count bk = slots bk \<or> oid \<in> book_ids bk"
  | (added) "spec_add bk oid s p q = (True, set_side bk s (enqueue s (oid, p, q) (side_of bk s)))"
    "q \<noteq> 0" "book_valid_price bk p" "resting_count bk \<noteq> slots bk" "oid \<notin> book_ids bk"
  by (cases "q = 0 \<or> \<not> book_valid_price bk p \<or> resting_count bk = slots bk \<or> oid \<in> book_ids bk")
     (auto simp: spec_add_def)

lemma spec_add_ok:
  assumes "book_ok bk" and "spec_add bk oid s p q = (acc, bk')"
  shows "book_ok bk'"
  using assms(1)
proof (cases rule: spec_add_cases [of bk oid s p q])
  case added
  note ok = book_ok_sides [OF assms(1), of s]
  have new: "oid \<notin> rest_id ` set (side_of bk s)" "oid \<notin> rest_id ` set (side_of bk (opposite s))"
    using added(5) unfolding book_ids_side [of bk s] by blast+
  have "book_sides_ok s (enqueue s (oid, p, q) (side_of bk s))"
    using ok(1) new(1) added(2) by (intro enqueue_side_ok) simp_all
  moreover have "Suc (length (side_of bk s) + length (side_of bk (opposite s))) \<le> slots bk"
    using ok(5) added(4) by (simp add: resting_count_side [of bk s])
  moreover have "rest_id ` insert (oid, p, q) (set (side_of bk s)) \<inter> rest_id ` set (side_of bk (opposite s)) = {}"
    using ok(3) new(2) by (simp add: image_insert)
  moreover have "bk' = set_side bk s (enqueue s (oid, p, q) (side_of bk s))" using assms(2) added(1) by simp
  ultimately show ?thesis
    using ok(2,4) added(3) by (simp add: set_side_ok_iff)
qed (use assms in simp)

lemma sides_removed:
  "book_sides_ok s rs \<Longrightarrow> book_sides_ok s (filter P rs)"
  by (auto simp: book_sides_ok_def sorted_side_def sorted_wrt_filter distinct_map_filter simp del: rest_simps)

lemma side_of_cancel:
  "spec_cancel bk oid = (acc, bk') \<Longrightarrow>
   side_of bk' s = filter (\<lambda>r. rest_id r \<noteq> oid) (side_of bk s) \<and>
   slots bk' = slots bk \<and> book_valid_price bk' = book_valid_price bk"
  by (auto simp: spec_cancel_def side_of_def book_valid_price_def fun_eq_iff split: Side.split)

lemma spec_cancel_ok:
  assumes "book_ok bk" and c: "spec_cancel bk oid = (acc, bk')"
  shows "book_ok bk'"
proof -
  note side = side_of_cancel [OF c]
  note ok = book_ok_sides [OF assms(1), of Buy]
  have eq: "side_of bk' s = filter (\<lambda>r. rest_id r \<noteq> oid) (side_of bk s)" for s using side by blast
  then have sub: "set (side_of bk' s) \<subseteq> set (side_of bk s)" for s by simp
  have len: "length (side_of bk' s) \<le> length (side_of bk s)" for s unfolding eq by (rule length_filter_le)
  have "book_sides_ok Buy (side_of bk' Buy)" "book_sides_ok (opposite Buy) (side_of bk' (opposite Buy))"
    unfolding eq using ok(1,2) by (blast intro: sides_removed)+
  moreover have "rest_id ` set (side_of bk' Buy) \<inter> rest_id ` set (side_of bk' (opposite Buy)) = {}"
    using ok(3) sub by blast
  moreover have "\<forall>r \<in> set (side_of bk' Buy) \<union> set (side_of bk' (opposite Buy)). book_valid_price bk' (rest_price r)"
    using ok(4) sub side by auto
  moreover have "length (side_of bk' Buy) + length (side_of bk' (opposite Buy)) \<le> slots bk'"
  proof -
    have "slots bk' = slots bk" using side by blast
    then show ?thesis using ok(5) len [of Buy] len [of "opposite Buy"] by linarith
  qed
  ultimately show ?thesis
    unfolding book_ok_side [of bk' Buy] resting_count_side [of bk' Buy] by blast
qed

lemma spec_submit_cases:
  obtains (refused) "spec_submit bk oid s p q = (False, bk, [])"
    "q = 0 \<or> \<not> book_valid_price bk p \<or> oid \<in> book_ids bk"
  | (matched) es q' rs where "q \<noteq> 0" "book_valid_price bk p" "oid \<notin> book_ids bk"
    "fills s p oid (side_of bk (opposite s)) q es q' rs"
    "spec_submit bk oid s p q =
       (if q' = 0 then (True, set_side bk (opposite s) rs, es)
        else case spec_add (set_side bk (opposite s) rs) oid s p q' of (added, bk') \<Rightarrow> (added, bk', es))"
proof (cases "q = 0 \<or> \<not> book_valid_price bk p \<or> oid \<in> book_ids bk")
  case True
  then show ?thesis by (intro refused) (simp_all add: spec_submit_def)
next
  case False
  obtain es q' rs where f: "fill s p oid q (side_of bk (opposite s)) = (es, q', rs)"
    by (metis prod.exhaust)
  then show ?thesis
    using False by (intro matched [OF _ _ _ fill_fills]) (simp_all add: spec_submit_def Let_def)
qed

lemma fills_ids:
  assumes f: "fills s l oid rs q es q' rs'"
  shows "rest_id ` set rs' \<subseteq> rest_id ` set rs" and "rest_price ` set rs' \<subseteq> rest_price ` set rs"
proof -
  obtain pre where k: "keys rs = pre @ keys rs'" using fills_suffix [OF f] by blast
  then have sub: "set (keys rs') \<subseteq> set (keys rs)" by simp
  have img: "rest_id ` set xs = fst ` set (keys xs)" "rest_price ` set xs = snd ` set (keys xs)" for xs
    by (simp_all add: image_image)
  show "rest_id ` set rs' \<subseteq> rest_id ` set rs" "rest_price ` set rs' \<subseteq> rest_price ` set rs"
    unfolding img by (rule image_mono [OF sub])+
qed

lemma set_side_ok:
  assumes "book_ok bk" and f: "fills s p oid (side_of bk t) q es q' rs"
  shows "book_ok (set_side bk t rs)" and "book_ids (set_side bk t rs) \<subseteq> book_ids bk"
proof -
  note ok = book_ok_sides [OF assms(1), of t] and ids = fills_ids [OF f]
  have "length rs \<le> length (side_of bk t)" using fills_shorter [OF f] by simp
  then have "length rs + length (side_of bk (opposite t)) \<le> slots bk" using ok(5) by linarith
  moreover have "book_valid_price bk (rest_price r)" if "r \<in> set rs \<union> set (side_of bk (opposite t))" for r
  proof -
    have "rest_price r \<in> rest_price ` (set (side_of bk t) \<union> set (side_of bk (opposite t)))"
      using ids(2) that by (auto simp del: rest_simps)
    then show ?thesis using ok(4) by (metis (no_types, lifting) imageE)
  qed
  moreover have "rest_id ` set rs \<inter> rest_id ` set (side_of bk (opposite t)) = {}"
    using ok(3) ids(1) by blast
  ultimately show "book_ok (set_side bk t rs)"
    using fills_side_ok(1) [OF f ok(1)] ok(2) unfolding set_side_ok_iff by blast
  show "book_ids (set_side bk t rs) \<subseteq> book_ids bk"
    unfolding book_ids_side [of _ t] using ids(1) by auto
qed

lemma spec_submit_ok:
  assumes "book_ok bk" and "spec_submit bk oid s p q = (acc, bk', es)"
  shows "book_ok bk'"
  using assms(1)
proof (cases rule: spec_submit_cases [of bk oid s p q])
  case (matched es1 q' rs)
  have "book_ok (set_side bk (opposite s) rs)" by (rule set_side_ok(1) [OF assms(1) matched(4)])
  then show ?thesis
    using assms(2) spec_add_ok matched(5) by (auto split: if_splits prod.splits)
qed (use assms in simp)

subsection \<open>Submitting: refusals, crossing, and undoing\<close>

text \<open>
  A refusal after matching would lose executions. It cannot happen: an order that has
  traded without being used up has freed a slot, and its id was checked before.
\<close>

lemma spec_submit_refused:
  assumes "book_ok bk" and "spec_submit bk oid s p q = (False, bk', es)"
  shows "bk' = bk \<and> es = []"
  using assms(1)
proof (cases rule: spec_submit_cases [of bk oid s p q])
  case (matched es1 q' rs)
  let ?bk = "set_side bk (opposite s) rs"
  have q': "q' \<noteq> 0" and es: "es = es1" and add: "spec_add ?bk oid s p q' = (False, bk')"
    using assms(2) matched(5) by (auto split: if_splits prod.splits)
  have "oid \<notin> book_ids ?bk" using set_side_ok(2) [OF assms(1) matched(4)] matched(3) by blast
  then have bk': "bk' = ?bk" and full: "resting_count ?bk = slots ?bk"
    using add q' matched(2) by (auto simp: spec_add_def split: if_splits)
  have "es1 = []"
  proof (rule ccontr)
    assume "es1 \<noteq> []"
    then have "length rs < length (side_of bk (opposite s))" using fills_shorter [OF matched(4)] q' by blast
    moreover have "length rs + length (side_of bk s) = slots bk"
      using full unfolding resting_count_side [of ?bk "opposite s"] by (cases s) simp_all
    moreover have "length (side_of bk s) + length (side_of bk (opposite s)) \<le> slots bk"
      by (rule book_ok_sides(5) [OF assms(1)])
    ultimately show False by linarith
  qed
  moreover from this have "rs = side_of bk (opposite s)" using fills_no_executions matched(4) by blast
  ultimately show ?thesis using bk' es by simp
qed (use assms in simp)

text \<open>When exactly a submission is accepted.\<close>

lemma spec_submit_accepted:
  assumes "book_ok bk" and "spec_submit bk oid s p q = (acc, bk', es)"
  shows "acc \<longleftrightarrow> q \<noteq> 0 \<and> book_valid_price bk p \<and> oid \<notin> book_ids bk \<and>
     (resting_count bk < slots bk \<or> es \<noteq> [])"
  using assms(1)
proof (cases rule: spec_submit_cases [of bk oid s p q])
  case (matched es1 q' rs)
  let ?bk = "set_side bk (opposite s) rs"
  have new: "oid \<notin> book_ids ?bk" using set_side_ok(2) [OF assms(1) matched(4)] matched(3) by blast
  have es: "es = es1" using assms(2) matched(5) by (auto split: if_splits prod.splits)
  have cnt: "resting_count ?bk = length rs + length (side_of bk s)"
    unfolding resting_count_side [of ?bk "opposite s"] by (cases s) simp_all
  have cnt0: "resting_count bk = length (side_of bk (opposite s)) + length (side_of bk s)"
    unfolding resting_count_side [of bk "opposite s"] by (cases s) simp_all
  have le: "resting_count bk \<le> slots bk" using assms(1) by (simp add: book_ok_def)
  show ?thesis
  proof (cases "q' = 0")
    case True
    then have "es1 \<noteq> []" using fills_no_executions matched(1,4) by blast
    then show ?thesis using True assms(2) matched(1-3,5) es by simp
  next
    case False
    then have "acc \<longleftrightarrow> resting_count ?bk \<noteq> slots ?bk"
      using assms(2) matched(2,5) new by (auto simp: spec_add_def split: if_splits prod.splits)
    moreover have "es1 \<noteq> [] \<Longrightarrow> length rs < length (side_of bk (opposite s))"
      using fills_shorter [OF matched(4)] False by blast
    moreover have "es1 = [] \<Longrightarrow> rs = side_of bk (opposite s)"
      using fills_no_executions matched(4) by blast
    ultimately show ?thesis using cnt cnt0 le es matched(1-3) by (cases "es1 = []") auto
  qed
qed (use assms in auto)

lemma uncrossed_side:
  "uncrossed bk \<longleftrightarrow> (\<forall>r \<in> set (side_of bk s). \<forall>r' \<in> set (side_of bk (opposite s)).
     \<not> accepts s (rest_price r) (rest_price r'))"
  by (cases s) (auto simp: uncrossed_def side_of_def accepts_def not_le simp del: rest_simps)

lemma fills_blocked_all:
  assumes f: "fills s l oid rs q es q' rs'" and srt: "sorted_side (opposite s) rs" and "q' \<noteq> 0"
    and r: "r \<in> set rs'"
  shows "\<not> accepts s l (rest_price r)"
proof -
  obtain r0 rest where c: "rs' = r0 # rest" using r by (cases rs') auto
  have no: "\<not> accepts s l (rest_price r0)" using fills_complete [OF f] assms(3) c by simp
  obtain pre where k: "keys rs = pre @ keys rs'" using fills_suffix [OF f] by blast
  have "sorted_side (opposite s) rs'"
    using srt unfolding sorted_side_keys k by (simp add: sorted_wrt_append)
  then have "ahead_eq (opposite s) (rest_price r0) (rest_price r)"
    using r c by (auto simp: sorted_side_def)
  then show ?thesis using no accepts_ahead by blast
qed

lemma spec_submit_uncrossed:
  assumes "book_ok bk" and unc: "uncrossed bk" and "spec_submit bk oid s p q = (acc, bk', es)"
  shows "uncrossed bk'"
  using assms(1)
proof (cases rule: spec_submit_cases [of bk oid s p q])
  case (matched es1 q' rs)
  let ?bk = "set_side bk (opposite s) rs"
  note ids = fills_ids [OF matched(4)]
  have old: "\<not> accepts s (rest_price r) (rest_price r')" if "r \<in> set (side_of bk s)" "r' \<in> set rs" for r r'
  proof -
    have "rest_price r' \<in> rest_price ` set (side_of bk (opposite s))" using ids(2) that(2) by blast
    then show ?thesis using unc that(1) unfolding uncrossed_side [of bk s] by (metis (no_types, lifting) imageE)
  qed
  then have unc1: "uncrossed ?bk" unfolding uncrossed_side [of ?bk s] by simp
  show ?thesis
  proof (cases "q' = 0")
    case True
    then show ?thesis using assms(3) matched(5) unc1 by simp
  next
    case False
    have srt: "sorted_side (opposite s) (side_of bk (opposite s))"
      using book_ok_sides(2) [OF assms(1)] by (simp add: book_sides_ok_def)
    have "\<not> accepts s p (rest_price r')" if "r' \<in> set rs" for r'
      by (rule fills_blocked_all [OF matched(4) srt False that])
    then have "uncrossed (set_side ?bk s (enqueue s (oid, p, q') (side_of ?bk s)))"
      using old unfolding uncrossed_side [of _ s] by simp
    then show ?thesis
      using assms(3) matched(5) False unc1 by (auto simp: spec_add_def split: if_splits prod.splits)
  qed
qed (use assms in simp)

lemma spec_cancel_uncrossed:
  "uncrossed bk \<Longrightarrow> spec_cancel bk oid = (acc, bk') \<Longrightarrow> uncrossed bk'"
  by (auto simp: uncrossed_def spec_cancel_def simp del: rest_simps)

text \<open>Cancelling undoes a submission that did not trade.\<close>

lemma spec_submit_cancel:
  assumes "book_ok bk" and "spec_submit bk oid s p q = (True, bk', [])"
  shows "spec_cancel bk' oid = (True, bk)"
  using assms(1)
proof (cases rule: spec_submit_cases [of bk oid s p q])
  case (matched es1 q' rs)
  have "es1 = []" using assms(2) matched(5) by (auto split: if_splits prod.splits)
  then have "q' = q" and rs: "rs = side_of bk (opposite s)"
    using fills_no_executions matched(4) by blast+
  then have bk': "bk' = set_side bk s (enqueue s (oid, p, q) (side_of bk s))"
    using assms(2) matched(1,5) by (auto simp: spec_add_def split: if_splits prod.splits)
  have new: "oid \<notin> rest_id ` set (side_of bk s)" "oid \<notin> rest_id ` set (side_of bk (opposite s))"
    using matched(3) unfolding book_ids_side [of bk s] by blast+
  let ?bk = "snd (spec_cancel bk' oid)"
  have c: "spec_cancel bk' oid = (True, ?bk)"
    by (simp add: spec_cancel_def bk' book_ids_side [of _ s])
  have "side_of ?bk s = side_of bk s"
    using side_of_cancel [OF c, of s] remove_enqueue [of "(oid, p, q)" "side_of bk s" s] new(1)
    by (simp add: bk')
  moreover have "side_of ?bk (opposite s) = side_of bk (opposite s)"
    using side_of_cancel [OF c, of "opposite s"] new(2) by (auto simp: bk' intro!: filter_True)
  moreover have "slots ?bk = slots bk" "lo_price ?bk = lo_price bk" "hi_price ?bk = hi_price bk"
    by (simp_all add: spec_cancel_def bk')
  ultimately have "?bk = bk" by (cases s) (simp_all add: side_of_def)
  then show ?thesis using c by simp
qed (use assms in simp)

end
