(* ===== verification/Clob_Correct.thy ===== *)
theory Clob_Correct
  imports Clob_Match Book_Laws
begin

text \<open>
  The public interface of the class against its specification. \<open>wf_clob\<close> hides the
  ghost queues of the invariant. A book built by the constructor is well formed;
  submitting, cancelling and the queries run without a fault on a well-formed book,
  do what the abstract book says, and leave it well formed, whatever the sink.
\<close>

definition wf_clob :: "hash_fn \<Rightarrow> FixedClob \<Rightarrow> bool" where
  "wf_clob hash b \<longleftrightarrow> (\<exists>Q. clob_inv hash b Q)"

lemma wf_clobI [intro]: "clob_inv hash b Q \<Longrightarrow> wf_clob hash b"
  by (auto simp: wf_clob_def)

subsection \<open>Construction and cancellation\<close>

lemma new_wf:
  assumes "params_ok n lo hi"
  obtains b where "fixed_clob_new ks vs n lo hi = Some b" "wf_clob hash b"
    "abs_book b = spec_new n lo hi"
proof -
  obtain b where b: "fixed_clob_new ks vs n lo hi = Some b" "clob_inv hash b (\<lambda>_ _. [])"
      "min_price b = lo" "max_price b = hi" "max_orders (pool b) = n"
    by (rule fixed_clob_new_run [OF assms, of ks vs hash])
  then have core: "core_inv hash b (\<lambda>_ _. [])" by (simp add: clob_inv_def)
  have "q_side b (\<lambda>_ _. []) s = []" for s by (simp add: q_side_def q_entries_def concat_map_Nil)
  then have "abs_book b = spec_new n lo hi"
    using b by (simp add: abs_book_eq [OF core] spec_new_def)
  with b show ?thesis by (intro that) blast+
qed

lemma cancel_wf:
  assumes "wf_clob hash b" and "oid \<noteq> 0"
  obtains ok b' where "cancel_order hash b oid = Some (ok, b')" "wf_clob hash b'"
    "spec_cancel (abs_book b) oid = (ok, abs_book b')"
  using assms cancel_refines unfolding wf_clob_def by metis

lemma add_wf:
  assumes "wf_clob hash b" and "oid \<noteq> 0"
  obtains ok b' where "add_order hash b oid s p q = Some (ok, b')" "wf_clob hash b'"
    "spec_add (abs_book b) oid s p q = (ok, abs_book b')"
  using assms add_refines unfolding wf_clob_def by metis

subsection \<open>The abstract book of a well-formed book\<close>

lemma wf_book_ok:
  assumes "wf_clob hash b"
  shows "book_ok (abs_book b)"
proof -
  obtain Q where core: "core_inv hash b Q" using assms by (auto simp: wf_clob_def clob_inv_def)
  have sorted: "sorted_side s (q_side b Q s)" for s
    unfolding sorted_side_def q_side_def
  proof (rule sorted_wrt_concat_map)
    show "sorted_wrt (better_eq s) (best_first s (width b))"
      by (cases s) (auto simp: best_first_def better_eq_def sorted_wrt_rev sorted_wrt_upt
          intro: sorted_wrt_mono_rel [OF _ sorted_wrt_upt])
    show "sorted_wrt (\<lambda>r r'. ahead_eq s (rest_price r) (rest_price r')) (q_entries b Q s i)" for i
    proof (rule sorted_wrt_mono_rel [of _ "\<lambda>_ _. True"])
      show "ahead_eq s (rest_price r) (rest_price r')"
        if "r \<in> set (q_entries b Q s i)" "r' \<in> set (q_entries b Q s i)" for r r'
        using q_entries_price(1) [OF core that(1)] q_entries_price(1) [OF core that(2)] by simp
    qed simp
    show "ahead_eq s (rest_price r) (rest_price r')"
      if "better_eq s i j" and r: "r \<in> set (q_entries b Q s i)" "r' \<in> set (q_entries b Q s j)" for i j r r'
      using that(1) q_entries_price(1,3) [OF core r(1)] q_entries_price(1,3) [OF core r(2)]
        price_of_less_iff(2) [OF core_basic(1) [OF core]]
      by (cases s) (simp_all add: ahead_eq_def better_eq_def)
  qed
  let ?xs = "concat (map (Q Buy) (best_first Buy (width b))) @ concat (map (Q Sell) (best_first Sell (width b)))"
  have "map rest_id (q_side b Q Buy @ q_side b Q Sell) = map (\<lambda>x. order_id (ord_at (book_orders b) x)) ?xs"
    unfolding map_q_side [symmetric] map_append [symmetric] by (simp add: entry_of_def)
  moreover have "inj_on (\<lambda>x. order_id (ord_at (book_orders b) x)) (set ?xs)"
    using indexes_inj [OF core_indexes [OF core]] queue_slots_distinct(2) [OF core] by simp
  ultimately have "distinct (map rest_id (q_side b Q Buy @ q_side b Q Sell))"
    using queue_slots_distinct(1) [OF core] by (simp only: distinct_map)
  moreover have "rest_qty r \<noteq> 0 \<and> book_valid_price (abs_book b) (rest_price r)"
    if r: "r \<in> set (q_side b Q s)" for r s
  proof -
    obtain i where i: "r \<in> set (q_entries b Q s i)" using r by (auto simp: q_side_def)
    then have "valid_price b (rest_price r)"
      using q_entries_price(1,3) [OF core i] price_of_index(1) [OF core_basic(1) [OF core]] by simp
    then show ?thesis
      using q_entries_price(2) [OF core i] by (simp add: book_valid_price_def valid_price_def abs_book_def)
  qed
  moreover have "resting_count (abs_book b) \<le> slots (abs_book b)"
    using live_slots_le [OF core_basic(2) [OF core]] resting_count_eq [OF core]
    by (simp add: abs_book_eq [OF core])
  moreover have "bids (abs_book b) = q_side b Q Buy" "asks (abs_book b) = q_side b Q Sell"
    by (simp_all add: abs_book_eq [OF core])
  ultimately show ?thesis
    using sorted unfolding book_ok_def set_append by (metis UnE)
qed

subsection \<open>Submitting\<close>

lemma set_side_abs:
  assumes "core_inv hash b Q" and "core_inv hash b' Q'" and "same_frame b b'"
    and "q_side b' Q' (opposite t) = q_side b Q (opposite t)"
  shows "abs_book b' = set_side (abs_book b) t (q_side b' Q' t)"
  using assms(3,4)
  by (cases t) (simp_all add: abs_book_eq [OF assms(1)] abs_book_eq [OF assms(2)] set_side_def same_frame_def)

lemma opposite_opposite [simp]: "opposite (opposite s) = s"
  by (cases s) simp_all

lemma submit_refines:
  assumes inv: "clob_inv hash b Q" and oid: "oid \<noteq> 0"
  shows "\<exists>ok b' Q' es. clob_inv hash b' Q' \<and> same_frame b b' \<and>
     spec_submit (abs_book b) oid s p q = (ok, abs_book b', es) \<and>
     submit_limit_order hash null_emplace_back b oid s p q () = Some (ok, b', ()) \<and>
     (\<forall>ex. submit_limit_order hash em b oid s p q ex =
        do { ex' \<leftarrow> emit_all em ex es; Some (ok, b', ex') })"
proof -
  have core: "core_inv hash b Q" using inv by (simp add: clob_inv_def)
  have valid: "book_valid_price (abs_book b) p \<longleftrightarrow> valid_price b p"
    by (simp add: book_valid_price_def valid_price_def abs_book_def)
  have known: "index_contains hash (order_lookup b) oid = Some (oid \<in> book_ids (abs_book b))"
    using index_contains_iff [OF core_basic(3) [OF core] oid] lookup_ids [OF core, of oid] by auto
  show ?thesis
  proof (cases "q = 0 \<or> \<not> valid_price b p \<or> oid \<in> book_ids (abs_book b)")
    case True
    then show ?thesis
      using inv valid known
      by (intro exI [of _ False] exI [of _ b] exI [of _ Q] exI [of _ "[]"])
         (auto simp: spec_submit_def submit_limit_order_def)
  next
    case False
    obtain es q' b1 Q1 where ms: "matches_side hash s p oid q b Q es q' b1 Q1"
       and nl: "match_order hash null_emplace_back oid s p b q () = Some (b1, q', ())"
       and vl: "\<And>ex. match_order hash em oid s p b q ex = do { ex' \<leftarrow> emit_all em ex es; Some (b1, q', ex') }"
      using match_order_run [OF inv, of s p oid q em] by blast
    have inv1: "clob_inv hash b1 Q1" and frame: "same_frame b b1"
      and fill: "fill s p oid q (q_side b Q (opposite s)) = (es, q', q_side b1 Q1 (opposite s))"
      and own: "q_side b1 Q1 s = q_side b Q s"
      using ms by (simp_all add: matches_side_def)
    have core1: "core_inv hash b1 Q1" using inv1 by (simp add: clob_inv_def)
    have abs1: "abs_book b1 = set_side (abs_book b) (opposite s) (q_side b1 Q1 (opposite s))"
      using set_side_abs [OF core core1 frame, of "opposite s"] own by simp
    have spec: "spec_submit (abs_book b) oid s p q =
        (if q' = 0 then (True, abs_book b1, es)
         else case spec_add (abs_book b1) oid s p q' of (added, bk) \<Rightarrow> (added, bk, es))"
      using False valid fill by (simp add: spec_submit_def abs1 abs_book_side [OF core])
    obtain ok b2 Q2 where add: "add_order hash b1 oid s p q' = Some (ok, b2)"
        and inv2: "clob_inv hash b2 Q2" "same_frame b1 b2"
        and sadd: "spec_add (abs_book b1) oid s p q' = (ok, abs_book b2)"
      by (rule add_refines [OF inv1 oid])
    show ?thesis
    proof (cases "q' = 0")
      case True
      then show ?thesis
        using False inv1 frame spec known nl vl
        by (intro exI [of _ True] exI [of _ b1] exI [of _ Q1] exI [of _ es])
           (simp add: submit_limit_order_def)
    next
      case q': False
      have "same_frame b b2" by (rule same_frame_trans [OF frame inv2(2)])
      then show ?thesis
        using False q' inv2(1) spec sadd known nl vl add
        by (intro exI [of _ ok] exI [of _ b2] exI [of _ Q2] exI [of _ es])
           (simp add: submit_limit_order_def)
    qed
  qed
qed

lemma submit_wf:
  assumes "wf_clob hash b" and "oid \<noteq> 0"
  obtains ok b' es where "wf_clob hash b'" "spec_submit (abs_book b) oid s p q = (ok, abs_book b', es)"
    "submit_limit_order hash null_emplace_back b oid s p q () = Some (ok, b', ())"
    "\<And>ex. submit_limit_order hash em b oid s p q ex =
        do { ex' \<leftarrow> emit_all em ex es; Some (ok, b', ex') }"
  using assms submit_refines [of hash b _ oid s p q em] unfolding wf_clob_def by metis

text \<open>The engine with any sink that has room for the executions, and with one that records them.\<close>

context execution_sink
begin

lemma submit_returns:
  assumes "wf_clob hash b" and "oid \<noteq> 0"
    and spec: "spec_submit (abs_book b) oid s p q = (acc, bk, es)"
    and "sink_ok ex" "fits ex (length es)"
  obtains b' ex' where "submit_limit_order hash emplace b oid s p q ex = Some (acc, b', ex')"
    "wf_clob hash b'" "abs_book b' = bk" "emit_all emplace ex es = Some ex'" "sink_ok ex'"
    "submit_limit_order hash null_emplace_back b oid s p q () = Some (acc, b', ())"
proof -
  obtain acc' b' es' where b': "wf_clob hash b'" "spec_submit (abs_book b) oid s p q = (acc', abs_book b', es')"
      "submit_limit_order hash null_emplace_back b oid s p q () = Some (acc', b', ())"
      "\<And>ex. submit_limit_order hash emplace b oid s p q ex =
        do { ex' \<leftarrow> emit_all emplace ex es'; Some (acc', b', ex') }"
    by (rule submit_wf [OF assms(1,2), of s p q emplace]) (rule that)
  obtain ex' where "emit_all emplace ex es = Some ex'" "sink_ok ex'"
    using emit_all_fits [of ex es 0] assms(4,5) by auto
  with b' spec show ?thesis by (intro that [of b' ex']) simp_all
qed

end

context recording_sink
begin

lemma submit_reports:
  assumes "wf_clob hash b" and "oid \<noteq> 0"
    and "spec_submit (abs_book b) oid s p q = (acc, bk, es)"
    and "sink_ok ex" "fits ex (length es)"
  obtains b' ex' where "submit_limit_order hash emplace b oid s p q ex = Some (acc, b', ex')"
    "wf_clob hash b'" "abs_book b' = bk" "sink_ok ex'" "reports ex' = reports ex @ es"
proof -
  obtain b' ex' where "submit_limit_order hash emplace b oid s p q ex = Some (acc, b', ex')"
    "wf_clob hash b'" "abs_book b' = bk" and e: "emit_all emplace ex es = Some ex'" "sink_ok ex'"
    by (rule submit_returns [OF assms]) (rule that)
  moreover have "reports ex' = reports ex @ es"
    using emit_all_reports [OF assms(4,5)] e by auto
  ultimately show ?thesis by (intro that)
qed

end

subsection \<open>Queries\<close>

lemma at_price_eq:
  assumes core: "core_inv hash b Q" and p: "valid_price b p"
  shows "at_price (abs_book b) s p = q_entries b Q s (idx_of b p)"
proof -
  let ?i = "idx_of b p" and ?P = "\<lambda>r. rest_price r = p"
  have i: "?i < width b" by (rule idx_of_valid(1) [OF p])
  have P: "?P r \<longleftrightarrow> j = ?i" if "r \<in> set (q_entries b Q s j)" for r j
    using q_entries_price(1,3) [OF core that] idx_of_valid(2) [OF p]
      price_of_less_iff(3) [OF core_basic(1) [OF core] _ i] by metis
  have "filter ?P (q_entries b Q s ?i) = q_entries b Q s ?i"
    using P by (intro filter_True) blast
  moreover have "filter ?P (concat (map (q_entries b Q s) js)) = []" if "?i \<notin> set js" for js
    using P that by (fastforce simp: filter_empty_conv)
  moreover have "?i \<notin> set (before s (width b) ?i)" "?i \<notin> set (after s (width b) ?i)"
    using in_before [OF _ i] in_after [OF _ i, of ?i s] by (blast, auto)
  ultimately show ?thesis
    unfolding at_price_def abs_book_side [OF core] q_side_split [OF i] filter_append
    by (metis append_Nil append_Nil2)
qed

lemma at_price_invalid:
  assumes core: "core_inv hash b Q" and p: "\<not> valid_price b p"
  shows "at_price (abs_book b) s p = []"
proof -
  have "rest_price r \<noteq> p" if "r \<in> set (q_entries b Q s j)" for r j
    using q_entries_price(1,3) [OF core that] price_of_index(1) [OF core_basic(1) [OF core]] p by metis
  then show ?thesis
    by (fastforce simp: at_price_def abs_book_side [OF core] q_side_def filter_empty_conv)
qed

lemma level_totals:
  assumes core: "core_inv hash b Q" and p: "valid_price b p"
  shows "total_qty (levels b s ! idx_of b p) = level_qty (abs_book b) s p"
    and "unat (order_count (levels b s ! idx_of b p)) = length (at_price (abs_book b) s p)"
proof -
  have l: "level_inv (book_orders b) (levels b s ! idx_of b p) (Q s (idx_of b p))"
    by (rule core_level [OF core idx_of_valid(1) [OF p]])
  then show "total_qty (levels b s ! idx_of b p) = level_qty (abs_book b) s p"
    by (simp add: level_qty_def at_price_eq [OF core p] level_inv_def q_entries_def entry_of_def comp_def)
  show "unat (order_count (levels b s ! idx_of b p)) = length (at_price (abs_book b) s p)"
    using level_count [OF l] by (simp add: at_price_eq [OF core p] q_entries_def)
qed

lemma quantity_at_eq:
  assumes "wf_clob hash b"
  shows "quantity_at b s p = Some (level_qty (abs_book b) s p)"
proof -
  obtain Q where core: "core_inv hash b Q" using assms by (auto simp: wf_clob_def clob_inv_def)
  show ?thesis
  proof (cases "valid_price b p")
    case True
    then show ?thesis by (simp add: quantity_at_def core_level_at [OF core] level_totals [OF core])
  next
    case False
    then show ?thesis by (simp add: quantity_at_def level_qty_def at_price_invalid [OF core])
  qed
qed

lemma order_count_at_eq:
  assumes "wf_clob hash b"
  shows "map_option unat (order_count_at b s p) = Some (length (at_price (abs_book b) s p))"
proof -
  obtain Q where core: "core_inv hash b Q" using assms by (auto simp: wf_clob_def clob_inv_def)
  show ?thesis
  proof (cases "valid_price b p")
    case True
    then show ?thesis by (simp add: order_count_at_def core_level_at [OF core] level_totals [OF core])
  next
    case False
    then show ?thesis by (simp add: order_count_at_def at_price_invalid [OF core])
  qed
qed

lemma head_not_null:
  assumes core: "core_inv hash b Q" and "x \<in> set (Q s i)"
  shows "x \<noteq> null_order_index"
  using core_slot(2) [OF assms] null_not_slot [OF core_basic(2) [OF core]] by blast

lemma front_back_eq:
  assumes "wf_clob hash b"
  shows "front_order_id b s p = Some (case at_price (abs_book b) s p of [] \<Rightarrow> None | r # _ \<Rightarrow> Some (rest_id r))"
    and "back_order_id b s p = Some (if at_price (abs_book b) s p = [] then None
      else Some (rest_id (last (at_price (abs_book b) s p))))"
proof -
  obtain Q where core: "core_inv hash b Q" using assms by (auto simp: wf_clob_def clob_inv_def)
  let ?i = "idx_of b p"
  have fr: "front_order_id b s p = Some (case at_price (abs_book b) s p of [] \<Rightarrow> None | r # _ \<Rightarrow> Some (rest_id r))
    \<and> back_order_id b s p = Some (if at_price (abs_book b) s p = [] then None
      else Some (rest_id (last (at_price (abs_book b) s p))))"
  proof (cases "valid_price b p")
    case False
    then show ?thesis by (simp add: front_order_id_def back_order_id_def at_price_invalid [OF core])
  next
    case p: True
    have l: "level_inv (book_orders b) (levels b s ! ?i) (Q s ?i)"
      by (rule core_level [OF core idx_of_valid(1) [OF p]])
    have hd: "head_idx (levels b s ! ?i) = hd_or null_order_index (Q s ?i)"
      and tl: "tail_idx (levels b s ! ?i) = last_or null_order_index (Q s ?i)"
      using l by (simp_all add: level_inv_def)
    show ?thesis
    proof (cases "Q s ?i")
      case Nil
      then show ?thesis
        using p by (simp add: front_order_id_def back_order_id_def core_level_at [OF core] hd tl
            at_price_eq [OF core] q_entries_def)
    next
      case (Cons x xs)
      have "hd_or null_order_index (Q s ?i) \<in> set (Q s ?i)" "last_or null_order_index (Q s ?i) \<in> set (Q s ?i)"
        using Cons by (auto intro: hd_or_in last_or_in)
      note at = this head_not_null [OF core this(1)] head_not_null [OF core this(2)]
        core_pool_get [OF core this(1)] core_pool_get [OF core this(2)]
      show ?thesis
        using p at Cons
        by (simp add: front_order_id_def back_order_id_def core_level_at [OF core] hd tl
            at_price_eq [OF core] q_entries_def entry_of_def last_map last_or_def)
    qed
  qed
  then show "front_order_id b s p = Some (case at_price (abs_book b) s p of [] \<Rightarrow> None | r # _ \<Rightarrow> Some (rest_id r))"
    and "back_order_id b s p = Some (if at_price (abs_book b) s p = [] then None
      else Some (rest_id (last (at_price (abs_book b) s p))))" by blast+
qed

lemma best_eq:
  assumes "wf_clob hash b"
  shows "best_bid b = Some (spec_best (abs_book b) Buy)" and "best_ask b = Some (spec_best (abs_book b) Sell)"
proof -
  obtain Q where inv: "clob_inv hash b Q" and core: "core_inv hash b Q"
    using assms by (auto simp: wf_clob_def clob_inv_def)
  have none: "spec_best (abs_book b) s = None" if "best_price b s = None" for s
  proof -
    have "Q s i = []" for i using inv that by (metis clob_inv_def is_best_None)
    then show ?thesis by (simp add: spec_best_def abs_book_side [OF core] q_side_def q_entries_def concat_map_Nil)
  qed
  have some: "spec_best (abs_book b) s = Some (p, total_qty (levels b s ! idx_of b p)) \<and> valid_price b p"
    if bp: "best_price b s = Some p" for s p
  proof -
    have best: "is_best b Q s (Some p)" using inv by (simp add: clob_inv_def flip: bp)
    then have v: "valid_price b p" and ne: "q_entries b Q s (idx_of b p) \<noteq> []"
      by (simp_all add: is_best_Some q_entries_def)
    then obtain r rs where r: "q_entries b Q s (idx_of b p) = r # rs" by (cases "q_entries b Q s (idx_of b p)") auto
    have "side_of (abs_book b) s = r # rs @ concat (map (q_entries b Q s) (after s (width b) (idx_of b p)))"
      using q_side_split [OF idx_of_valid(1) [OF v], of Q s] before_best [OF inv bp] r
      by (simp add: abs_book_side [OF core])
    moreover have "rest_price r = p"
      using q_entries_price(1) [OF core, of r s "idx_of b p"] r idx_of_valid(2) [OF v] by simp
    ultimately show ?thesis
      using level_totals(1) [OF core v] v by (simp add: spec_best_def)
  qed
  show "best_bid b = Some (spec_best (abs_book b) Buy)"
    using none [of Buy] some [of Buy] idx_of_valid(1) [of b] core_basic(6) [OF core, of Buy]
    by (auto simp: best_bid_def best_price_def levels_def run_simps idx_of_def split: option.split)
  show "best_ask b = Some (spec_best (abs_book b) Sell)"
    using none [of Sell] some [of Sell] idx_of_valid(1) [of b] core_basic(6) [OF core, of Sell]
    by (auto simp: best_ask_def best_price_def levels_def run_simps idx_of_def split: option.split)
qed

lemma counts_eq:
  assumes "wf_clob hash b"
  shows "unat (active_orders b) = resting_count (abs_book b)"
    and "unat (available_slots b) = slots (abs_book b) - resting_count (abs_book b)"
    and "clob_empty b \<longleftrightarrow> resting_count (abs_book b) = 0"
    and "resting_count (abs_book b) \<le> slots (abs_book b)"
proof -
  obtain Q where core: "core_inv hash b Q" using assms by (auto simp: wf_clob_def clob_inv_def)
  note pl = core_basic(2) [OF core]
  have sl: "slots (abs_book b) = unat (max_orders (pool b))" by (simp add: abs_book_def)
  show "unat (active_orders b) = resting_count (abs_book b)"
    and "resting_count (abs_book b) \<le> slots (abs_book b)"
    using unat_used [OF pl] live_slots_le [OF pl]
    by (simp_all add: active_orders_def resting_count_eq [OF core] sl)
  have "card (live_slots (pool b)) = card (all_slots (pool b)) - card (free_slots (pool b))"
    using pl by (simp add: live_slots_def card_Diff_subset pool_inv_def)
  moreover have "card (free_slots (pool b)) \<le> card (all_slots (pool b))"
    using pl by (auto intro: card_mono simp: pool_inv_def)
  moreover have "card (all_slots (pool b)) = unat (max_orders (pool b))"
    using pl by (simp add: card_all_slots pool_inv_def)
  ultimately show "unat (available_slots b) = slots (abs_book b) - resting_count (abs_book b)"
    using card_free_slots [OF pl]
    by (simp add: available_slots_def available_def resting_count_eq [OF core] sl)
  show "clob_empty b \<longleftrightarrow> resting_count (abs_book b) = 0"
    using pool_empty_iff [OF pl] finite_subset [of "live_slots (pool b)" "all_slots (pool b)"]
    by (auto simp: clob_empty_def resting_count_eq [OF core] live_slots_def)
qed

end
