(* ===== verification/Workload.thy ===== *)
theory Workload
  imports Clob_Types
begin

text \<open>
  \<open>workload.hpp\<close>: the command sequences the benchmarks and the profiling tools replay.
  Each loop pushes one command per index; the loop counter and all arithmetic are 64-bit
  unsigned. The lemmas give the ids, prices and quantities that come out.
\<close>

definition add_limit :: "OrderId \<Rightarrow> Price \<Rightarrow> Quantity \<Rightarrow> Side \<Rightarrow> OrderCommand" where
  "add_limit oid p q s = \<lparr>cmd_order_id = oid, cmd_price = p, cmd_qty = q, cmd_type = AddLimit, cmd_side = s\<rparr>"

text \<open>\<open>for (size_t i = 0; i < n; ++i) commands.push_back(f(i))\<close>\<close>

definition for_each :: "size_t \<Rightarrow> (size_t \<Rightarrow> OrderCommand) \<Rightarrow> OrderCommand list" where
  "for_each n f = map (\<lambda>k. f (word_of_nat k)) [0..<unat n]"

definition make_add_only_commands :: "size_t \<Rightarrow> OrderCommand list" where
  "make_add_only_commands n =
     (let base_bid = 10000; base_ask = 10001; levels = 1024 in
      for_each n (\<lambda>i.
        let side = (if i AND 1 \<noteq> 0 then Buy else Sell);
            offset = (i * 37) mod levels;
            price = (if side = Buy then base_bid - offset else base_ask + offset);
            qty = i mod 100 + 1;
            order_id = i + 1
        in add_limit order_id price qty side))"

definition make_resting_asks_commands :: "size_t \<Rightarrow> OrderCommand list" where
  "make_resting_asks_commands n =
     (let base_ask = 10001; levels = 1024 in
      for_each n (\<lambda>i.
        let offset = (i * 37) mod levels;
            price = base_ask + offset;
            qty = i mod 100 + 1;
            order_id = i + 1
        in add_limit order_id price qty Sell))"

definition make_non_crossing_buys_commands :: "size_t \<Rightarrow> OrderCommand list" where
  "make_non_crossing_buys_commands n =
     (let base_bid = 10000; levels = 1024 in
      for_each n (\<lambda>i.
        let offset = (i * 37) mod levels;
            price = base_bid - offset;
            qty = i mod 100 + 1;
            order_id = i + 1
        in add_limit order_id price qty Buy))"

definition make_full_match_commands :: "size_t \<Rightarrow> OrderCommand list" where
  "make_full_match_commands n =
     (let price = 10000 in
      for_each n (\<lambda>i.
        let order_id = i + 1; qty = i mod 100 + 1 in add_limit order_id price qty Sell) @
      for_each n (\<lambda>i.
        let order_id = n + i + 1; qty = i mod 100 + 1 in add_limit order_id price qty Buy))"

subsection \<open>Ids, prices and quantities\<close>

lemma add_limit_sel [simp]:
  "cmd_order_id (add_limit i p q s) = i" "cmd_price (add_limit i p q s) = p"
  "cmd_qty (add_limit i p q s) = q" "cmd_side (add_limit i p q s) = s" "cmd_type (add_limit i p q s) = AddLimit"
  by (simp_all add: add_limit_def)

lemma length_for_each [simp]: "length (for_each n f) = unat n"
  by (simp add: for_each_def)

lemma for_each_nth:
  assumes "k < unat n"
  shows "for_each n f ! k = f (word_of_nat k)" and "unat (word_of_nat k :: size_t) = k"
proof -
  show "unat (word_of_nat k :: size_t) = k"
    using assms unat_less_2p64 [of n] by (intro unat_of_nat_less) simp
  show "for_each n f ! k = f (word_of_nat k)" using assms by (simp add: for_each_def)
qed

lemma in_for_each:
  assumes "c \<in> set (for_each n f)"
  obtains i where "i < n" "c = f i"
proof -
  obtain k where "k < unat n" "c = f (word_of_nat k)" using assms by (auto simp: for_each_def)
  moreover from this have "word_of_nat k < n" using for_each_nth(2) [of k n] by (simp add: word_less_nat_alt)
  ultimately show ?thesis by (intro that)
qed

lemma qty_range: "unat ((i :: size_t) mod 100 + 1) = unat i mod 100 + 1"
proof -
  have "unat (i mod 100) = unat i mod 100" by (simp add: unat_mod)
  moreover from this have "unat (i mod 100) + 1 < 2 ^ 64" by (simp add: order_less_trans [OF mod_less_divisor])
  ultimately show ?thesis using unat_plus_if' [of "i mod 100" 1] by simp
qed

lemma offset_range: "unat ((x :: size_t) mod 1024) < 1024"
  by (simp add: unat_mod)

lemma ask_price: "unat (10001 + (x :: size_t) mod 1024) = 10001 + unat (x mod 1024)"
  using offset_range [of x] by (subst unat_plus_if') simp

lemma bid_price: "unat (10000 - (x :: size_t) mod 1024) = 10000 - unat (x mod 1024)"
  using offset_range [of x] by (subst unat_sub) (simp_all add: word_le_nat_alt)

lemma id_of_index: "(i :: size_t) < n \<Longrightarrow> unat (i + 1) = Suc (unat i)"
  by (rule unat_inc)

text \<open>The ids are 1, 2, and so on; the quantities lie between 1 and 100.\<close>

lemma ids_in_order:
  assumes "k < unat n"
  shows "unat (cmd_order_id (make_add_only_commands n ! k)) = Suc k"
    and "unat (cmd_order_id (make_resting_asks_commands n ! k)) = Suc k"
    and "unat (cmd_order_id (make_non_crossing_buys_commands n ! k)) = Suc k"
proof -
  have "(word_of_nat k :: size_t) < n" using assms for_each_nth(2) [of k n] by (simp add: word_less_nat_alt)
  then have "unat (word_of_nat k + 1 :: size_t) = Suc k" using id_of_index for_each_nth(2) [OF assms] by simp
  then show "unat (cmd_order_id (make_add_only_commands n ! k)) = Suc k"
    and "unat (cmd_order_id (make_resting_asks_commands n ! k)) = Suc k"
    and "unat (cmd_order_id (make_non_crossing_buys_commands n ! k)) = Suc k"
    by (simp_all add: make_add_only_commands_def make_resting_asks_commands_def
        make_non_crossing_buys_commands_def for_each_nth(1) [OF assms] Let_def)
qed

definition command_ok :: "Price \<Rightarrow> Price \<Rightarrow> OrderCommand \<Rightarrow> bool" where
  "command_ok lo hi c \<longleftrightarrow> cmd_order_id c \<noteq> 0 \<and> cmd_type c = AddLimit \<and> cmd_qty c \<noteq> 0 \<and>
     lo \<le> cmd_price c \<and> cmd_price c \<le> hi"

lemma qty_nonzero: "(i :: size_t) mod 100 + 1 \<noteq> 0"
  using qty_range [of i] by (metis add_is_0 one_neq_zero unat_0)

lemma id_nonzero: "(i :: size_t) < n \<Longrightarrow> i + 1 \<noteq> 0"
  using id_of_index [of i n] by (metis nat.distinct(1) unat_0)

lemma ask_ok: "10001 \<le> (10001 + (x :: size_t) mod 1024)" "(10001 + (x :: size_t) mod 1024) \<le> 11024"
  using ask_price [of x] offset_range [of x] by (simp_all add: word_le_nat_alt)

lemma bid_ok: "8977 \<le> (10000 - (x :: size_t) mod 1024)" "(10000 - (x :: size_t) mod 1024) \<le> 10000"
  using bid_price [of x] offset_range [of x] by (simp_all add: word_le_nat_alt)

lemma add_only_ok:
  assumes "c \<in> set (make_add_only_commands n)"
  shows "command_ok 8977 11024 c"
    and "case cmd_side c of Buy \<Rightarrow> cmd_price c \<le> 10000 | Sell \<Rightarrow> 10001 \<le> cmd_price c"
proof -
  have lo: "8977 \<le> (10001 + (x :: size_t) mod 1024)" and hi: "10000 - (x :: size_t) mod 1024 \<le> 11024" for x
    using ask_ok(1) [of x] bid_ok(2) [of x] order_trans by (fastforce simp: word_le_nat_alt ask_price bid_price)+
  obtain i where "i < n" "c = (let side = (if i AND 1 \<noteq> 0 then Buy else Sell); offset = (i * 37) mod 1024;
      price = (if side = Buy then 10000 - offset else 10001 + offset); qty = i mod 100 + 1; order_id = i + 1
      in add_limit order_id price qty side)"
    using assms unfolding make_add_only_commands_def Let_def [of 10000] Let_def [of 10001] Let_def [of 1024]
    by (rule in_for_each)
  then show "command_ok 8977 11024 c"
    and "case cmd_side c of Buy \<Rightarrow> cmd_price c \<le> 10000 | Sell \<Rightarrow> 10001 \<le> cmd_price c"
    using qty_nonzero id_nonzero [of i n] ask_ok bid_ok lo hi
    by (simp_all add: command_ok_def Let_def)
qed

lemma resting_asks_ok:
  assumes "c \<in> set (make_resting_asks_commands n)"
  shows "command_ok 10001 11024 c" and "cmd_side c = Sell"
proof -
  obtain i where "i < n" "c = (let offset = (i * 37) mod 1024; price = 10001 + offset;
      qty = i mod 100 + 1; order_id = i + 1 in add_limit order_id price qty Sell)"
    using assms unfolding make_resting_asks_commands_def Let_def [of 10001] Let_def [of 1024]
    by (rule in_for_each)
  then show "command_ok 10001 11024 c" and "cmd_side c = Sell"
    using qty_nonzero id_nonzero [of i n] ask_ok by (simp_all add: command_ok_def Let_def)
qed

lemma non_crossing_buys_ok:
  assumes "c \<in> set (make_non_crossing_buys_commands n)"
  shows "command_ok 8977 10000 c" and "cmd_side c = Buy"
proof -
  obtain i where "i < n" "c = (let offset = (i * 37) mod 1024; price = 10000 - offset;
      qty = i mod 100 + 1; order_id = i + 1 in add_limit order_id price qty Buy)"
    using assms unfolding make_non_crossing_buys_commands_def Let_def [of 10000] Let_def [of 1024]
    by (rule in_for_each)
  then show "command_ok 8977 10000 c" and "cmd_side c = Buy"
    using qty_nonzero id_nonzero [of i n] bid_ok by (simp_all add: command_ok_def Let_def)
qed

lemma distinct_ids_from:
  assumes "\<And>k. k < length cs \<Longrightarrow> unat (cmd_order_id (cs ! k)) = Suc k"
  shows "distinct (map cmd_order_id cs)"
  unfolding distinct_conv_nth length_map
proof (intro allI impI)
  fix i j assume "i < length cs" "j < length cs" "i \<noteq> j"
  then show "map cmd_order_id cs ! i \<noteq> map cmd_order_id cs ! j"
    using assms [of i] assms [of j] by (metis Suc_inject nth_map)
qed

text \<open>The two halves of the full-match workload: sell \<open>k\<close> and buy \<open>k\<close> agree in quantity.\<close>

definition fm_qty :: "nat \<Rightarrow> Quantity" where
  "fm_qty k = word_of_nat k mod 100 + 1"

definition fm_sell :: "nat \<Rightarrow> OrderCommand" where
  "fm_sell k = add_limit (word_of_nat k + 1) 10000 (fm_qty k) Sell"

definition fm_buy :: "size_t \<Rightarrow> nat \<Rightarrow> OrderCommand" where
  "fm_buy n k = add_limit (n + word_of_nat k + 1) 10000 (fm_qty k) Buy"

lemma full_match_halves:
  "make_full_match_commands n = map fm_sell [0..<unat n] @ map (fm_buy n) [0..<unat n]"
  by (simp add: make_full_match_commands_def for_each_def fm_sell_def fm_buy_def fm_qty_def Let_def)

lemma fm_qty_nonzero [simp]: "fm_qty k \<noteq> 0"
  by (simp add: fm_qty_def qty_nonzero)

lemma fm_ids:
  assumes "2 * unat n < 2 ^ 64" and "k < unat n"
  shows "unat (cmd_order_id (fm_sell k)) = Suc k" and "unat (cmd_order_id (fm_buy n k)) = Suc (unat n + k)"
proof -
  have k: "unat (word_of_nat k :: size_t) = k" by (rule for_each_nth(2) [OF assms(2)])
  show "unat (cmd_order_id (fm_sell k)) = Suc k"
    using assms k by (simp add: fm_sell_def) (subst unat_plus_if', simp add: k)
  have nk: "unat (n + word_of_nat k) = unat n + k"
    using assms k by (subst unat_plus_if') simp
  then have "unat (n + word_of_nat k + 1) = Suc (unat n + k)"
    using assms by (subst unat_plus_if') simp
  then show "unat (cmd_order_id (fm_buy n k)) = Suc (unat n + k)" by (simp add: fm_buy_def)
qed

subsection \<open>What the generators promise\<close>

lemma workload_lengths [simp]:
  "length (make_add_only_commands n) = unat n" "length (make_resting_asks_commands n) = unat n"
  "length (make_non_crossing_buys_commands n) = unat n" "length (make_full_match_commands n) = 2 * unat n"
  by (simp_all add: make_add_only_commands_def make_resting_asks_commands_def
      make_non_crossing_buys_commands_def make_full_match_commands_def Let_def)

lemma workload_distinct:
  "distinct (map cmd_order_id (make_add_only_commands n))"
  "distinct (map cmd_order_id (make_resting_asks_commands n))"
  "distinct (map cmd_order_id (make_non_crossing_buys_commands n))"
  by (auto intro!: distinct_ids_from ids_in_order)

lemma full_match_ids:
  assumes "2 * unat n < 2 ^ 64" and "k < 2 * unat n"
  shows "unat (cmd_order_id (make_full_match_commands n ! k)) = Suc k"
proof (cases "k < unat n")
  case True
  then show ?thesis using fm_ids(1) [OF assms(1)] by (simp add: full_match_halves nth_append)
next
  case False
  then have "k - unat n < unat n" "Suc (unat n + (k - unat n)) = Suc k" using assms(2) by simp_all
  then show ?thesis using fm_ids(2) [OF assms(1), of "k - unat n"] False by (simp add: full_match_halves nth_append)
qed

lemma command_ok_mono: "command_ok lo hi c \<Longrightarrow> lo' \<le> lo \<Longrightarrow> hi \<le> hi' \<Longrightarrow> command_ok lo' hi' c"
  by (auto simp: command_ok_def)

lemma full_match_ok:
  assumes "2 * unat n < 2 ^ 64" and "c \<in> set (make_full_match_commands n)"
  shows "command_ok 10000 10000 c"
proof -
  obtain k where "k < 2 * unat n" "c = make_full_match_commands n ! k"
    using assms(2) by (auto simp: in_set_conv_nth)
  then have "cmd_order_id c \<noteq> 0" using full_match_ids [OF assms(1)] by (metis nat.distinct(1) unat_0)
  moreover have "cmd_type c = AddLimit" "cmd_qty c \<noteq> 0" "cmd_price c = 10000"
    using assms(2) by (auto simp: full_match_halves fm_sell_def fm_buy_def)
  ultimately show ?thesis by (simp add: command_ok_def)
qed

text \<open>C37: each generator yields the number of commands asked for (two per pair for the
  full-match one), all of them limit orders with a positive quantity, a price between 8977 and
  11024, and pairwise different nonzero ids.\<close>

theorem workloads_well_formed:
  assumes "2 * unat n < 2 ^ 64"
  shows "length (make_add_only_commands n) = unat n \<and> length (make_resting_asks_commands n) = unat n \<and>
    length (make_non_crossing_buys_commands n) = unat n \<and> length (make_full_match_commands n) = 2 * unat n \<and>
    (\<forall>cs \<in> {make_add_only_commands n, make_resting_asks_commands n, make_non_crossing_buys_commands n,
       make_full_match_commands n}. distinct (map cmd_order_id cs) \<and> (\<forall>c \<in> set cs. command_ok 8977 11024 c))"
proof -
  have "distinct (map cmd_order_id (make_full_match_commands n))"
    by (rule distinct_ids_from) (simp add: full_match_ids [OF assms])
  moreover have "command_ok 8977 11024 c" if "c \<in> set (make_full_match_commands n)" for c
    by (rule command_ok_mono [OF full_match_ok [OF assms that]]) (simp_all add: word_le_nat_alt)
  moreover have "command_ok 8977 11024 c" if "c \<in> set (make_resting_asks_commands n)" for c
    by (rule command_ok_mono [OF resting_asks_ok(1) [OF that]]) (simp_all add: word_le_nat_alt)
  moreover have "command_ok 8977 11024 c" if "c \<in> set (make_non_crossing_buys_commands n)" for c
    by (rule command_ok_mono [OF non_crossing_buys_ok(1) [OF that]]) (simp_all add: word_le_nat_alt)
  ultimately show ?thesis using workload_distinct add_only_ok(1) by simp
qed

theorem workloads_well_formed_witness:
  "length (make_full_match_commands 1000000) = 2000000 \<and>
   distinct (map cmd_order_id (make_full_match_commands 1000000))"
  using workloads_well_formed [of 1000000] by simp

end
