(* ===== verification/Replay.thy ===== *)
theory Replay
  imports Clob_Correct Workload
begin

text \<open>
  A sequence of commands against one book: the body of every consumer loop of the
  benchmarks and tools (\<open>if AddLimit: submit ... else if Cancel: cancel\<close>), and the loop
  itself over commands that are already in hand. The specification replays the same
  commands on the abstract book. \<open>results\<close> collects what each call returned.
\<close>

definition handle_command ::
    "hash_fn \<Rightarrow> 's emplace \<Rightarrow> FixedClob \<Rightarrow> OrderCommand \<Rightarrow> 's \<Rightarrow> (bool \<times> FixedClob \<times> 's) option" where
  "handle_command hash emplace b command ex =
     (case cmd_type command of
        AddLimit \<Rightarrow> submit_limit_order hash emplace b (cmd_order_id command) (cmd_side command)
          (cmd_price command) (cmd_qty command) ex
      | Cancel \<Rightarrow> do { (ok, b) \<leftarrow> cancel_order hash b (cmd_order_id command); Some (ok, b, ex) })"

fun replay ::
    "hash_fn \<Rightarrow> 's emplace \<Rightarrow> FixedClob \<Rightarrow> OrderCommand list \<Rightarrow> 's \<Rightarrow> (bool list \<times> FixedClob \<times> 's) option" where
  "replay hash emplace b [] ex = Some ([], b, ex)"
| "replay hash emplace b (c # cs) ex = do {
     (ok, b, ex) \<leftarrow> handle_command hash emplace b c ex;
     (oks, b, ex) \<leftarrow> replay hash emplace b cs ex;
     Some (ok # oks, b, ex)
   }"

definition spec_command :: "book \<Rightarrow> OrderCommand \<Rightarrow> bool \<times> book \<times> Execution list" where
  "spec_command bk c =
     (case cmd_type c of
        AddLimit \<Rightarrow> spec_submit bk (cmd_order_id c) (cmd_side c) (cmd_price c) (cmd_qty c)
      | Cancel \<Rightarrow> (case spec_cancel bk (cmd_order_id c) of (ok, bk') \<Rightarrow> (ok, bk', [])))"

fun spec_replay :: "book \<Rightarrow> OrderCommand list \<Rightarrow> bool list \<times> book \<times> Execution list" where
  "spec_replay bk [] = ([], bk, [])"
| "spec_replay bk (c # cs) = (case spec_command bk c of (ok, bk1, es) \<Rightarrow>
     case spec_replay bk1 cs of (oks, bk', es') \<Rightarrow> (ok # oks, bk', es @ es'))"

lemma replay_append:
  "replay hash em b (cs @ cs') ex = do {
     (oks, b, ex) \<leftarrow> replay hash em b cs ex;
     (oks', b, ex) \<leftarrow> replay hash em b cs' ex;
     Some (oks @ oks', b, ex) }"
  by (induction cs arbitrary: b ex) (auto simp: bind_assoc split: bind_splits)

lemma spec_replay_append:
  "spec_replay bk (cs @ cs') = (case spec_replay bk cs of (oks, bk1, es) \<Rightarrow>
     case spec_replay bk1 cs' of (oks', bk', es') \<Rightarrow> (oks @ oks', bk', es @ es'))"
  by (induction cs arbitrary: bk) (auto split: prod.splits)

lemma length_replay: "replay hash em b cs ex = Some (oks, b', ex') \<Longrightarrow> length oks = length cs"
  by (induction cs arbitrary: b ex oks) (auto simp: bind_eq_Some_conv)

subsection \<open>Replaying refines the specification, with any sink\<close>

lemma handle_refines:
  assumes "wf_clob hash b" and "cmd_order_id c \<noteq> 0"
    and spec: "spec_command (abs_book b) c = (ok, bk, es)"
  obtains b' where "wf_clob hash b'" "abs_book b' = bk"
    "handle_command hash null_emplace_back b c () = Some (ok, b', ())"
    "\<And>ex. handle_command hash em b c ex = do { ex' \<leftarrow> emit_all em ex es; Some (ok, b', ex') }"
proof (cases "cmd_type c")
  case AddLimit
  then show ?thesis
    using submit_wf [OF assms(1,2), of "cmd_side c" "cmd_price c" "cmd_qty c" em] spec that
    by (auto simp: handle_command_def spec_command_def)
next
  case Cancel
  obtain ok' b' where "cancel_order hash b (cmd_order_id c) = Some (ok', b')" "wf_clob hash b'"
      "spec_cancel (abs_book b) (cmd_order_id c) = (ok', abs_book b')"
    by (rule cancel_wf [OF assms(1,2)])
  then show ?thesis
    using Cancel spec by (intro that [of b']) (auto simp: handle_command_def spec_command_def)
qed

lemma replay_refines:
  "wf_clob hash b \<Longrightarrow> \<forall>c \<in> set cs. cmd_order_id c \<noteq> 0 \<Longrightarrow>
   spec_replay (abs_book b) cs = (oks, bk, es) \<Longrightarrow>
   \<exists>b'. wf_clob hash b' \<and> abs_book b' = bk \<and>
     replay hash null_emplace_back b cs () = Some (oks, b', ()) \<and>
     (\<forall>ex. replay hash em b cs ex = do { ex' \<leftarrow> emit_all em ex es; Some (oks, b', ex') })"
proof (induction cs arbitrary: b oks es)
  case Nil
  then show ?case by auto
next
  case (Cons c cs)
  obtain ok bk1 es1 where c: "spec_command (abs_book b) c = (ok, bk1, es1)" by (metis prod.exhaust)
  obtain oks2 es2 where cs: "spec_replay bk1 cs = (oks2, bk, es2)" and eq: "oks = ok # oks2" "es = es1 @ es2"
    using Cons.prems(3) c by (auto split: prod.splits)
  obtain b1 where b1: "wf_clob hash b1" "abs_book b1 = bk1"
      and n1: "handle_command hash null_emplace_back b c () = Some (ok, b1, ())"
      and v1: "\<And>ex. handle_command hash em b c ex = do { ex' \<leftarrow> emit_all em ex es1; Some (ok, b1, ex') }"
    using handle_refines [OF Cons.prems(1) _ c, of em] Cons.prems(2) by auto
  obtain b' where "wf_clob hash b'" "abs_book b' = bk"
      "replay hash null_emplace_back b1 cs () = Some (oks2, b', ())"
      "\<And>ex. replay hash em b1 cs ex = do { ex' \<leftarrow> emit_all em ex es2; Some (oks2, b', ex') }"
    using Cons.IH [OF b1(1), of oks2 es2] Cons.prems(2) cs b1(2) by auto
  then show ?case
    using n1 v1 by (intro exI [of _ b']) (simp add: eq emit_all_append bind_assoc)
qed

context recording_sink
begin

lemma replay_reports:
  assumes "wf_clob hash b" and "\<forall>c \<in> set cs. cmd_order_id c \<noteq> 0"
    and "spec_replay (abs_book b) cs = (oks, bk, es)"
    and "sink_ok ex" "fits ex (length es)"
  obtains b' ex' where "replay hash emplace b cs ex = Some (oks, b', ex')"
    "wf_clob hash b'" "abs_book b' = bk" "sink_ok ex'" "reports ex' = reports ex @ es"
proof -
  obtain b' where b': "wf_clob hash b'" "abs_book b' = bk"
      "replay hash emplace b cs ex = do { ex' \<leftarrow> emit_all emplace ex es; Some (oks, b', ex') }"
    using replay_refines [OF assms(1-3), of emplace] by blast
  obtain ex' where "emit_all emplace ex es = Some ex'" "sink_ok ex'" "reports ex' = reports ex @ es"
    using emit_all_reports [OF assms(4,5)] by blast
  with b' show ?thesis by (intro that [of b' ex']) simp_all
qed

end

subsection \<open>Invariants of a replay on the abstract book\<close>

lemma spec_command_ok:
  "book_ok bk \<Longrightarrow> spec_command bk c = (ok, bk', es) \<Longrightarrow> book_ok bk'"
  by (cases "cmd_type c")
     (auto simp: spec_command_def split: prod.splits intro: spec_submit_ok spec_cancel_ok)

lemma spec_command_uncrossed:
  "book_ok bk \<Longrightarrow> uncrossed bk \<Longrightarrow> spec_command bk c = (ok, bk', es) \<Longrightarrow> uncrossed bk'"
  by (cases "cmd_type c")
     (auto simp: spec_command_def split: prod.splits intro: spec_submit_uncrossed spec_cancel_uncrossed)

lemma spec_replay_invariants:
  "book_ok bk \<Longrightarrow> uncrossed bk \<Longrightarrow> spec_replay bk cs = (oks, bk', es) \<Longrightarrow> book_ok bk' \<and> uncrossed bk'"
proof (induction cs arbitrary: bk oks es)
  case (Cons c cs)
  obtain ok bk1 es1 where c: "spec_command bk c = (ok, bk1, es1)" by (metis prod.exhaust)
  then obtain oks2 es2 where "spec_replay bk1 cs = (oks2, bk', es2)"
    using Cons.prems(3) by (auto split: prod.splits)
  then show ?case
    using Cons.IH spec_command_ok [OF Cons.prems(1) c] spec_command_uncrossed [OF Cons.prems(1,2) c] by blast
qed auto

lemma book_ok_new: "lo \<le> hi \<Longrightarrow> book_ok (spec_new n lo hi)" "uncrossed (spec_new n lo hi)"
  by (simp_all add: spec_new_def book_ok_def uncrossed_def sorted_side_def resting_count_def)

end
