(* ===== verification/Workload_Runs.thy ===== *)
theory Workload_Runs
  imports Replay
begin

text \<open>
  What the workloads do to a book. The add-only family (buys at or below a price, sells
  above it) never trades and leaves every order resting; the full-match workload trades
  every buy with exactly one sell and leaves the book empty, which is what the
  profiling tools check after a run.
\<close>

subsection \<open>Workloads that do not cross\<close>

definition one_sided :: "Price \<Rightarrow> Side \<Rightarrow> Price \<Rightarrow> bool" where
  "one_sided m s p \<longleftrightarrow> (case s of Buy \<Rightarrow> p \<le> m | Sell \<Rightarrow> m < p)"

definition book_one_sided :: "Price \<Rightarrow> book \<Rightarrow> bool" where
  "book_one_sided m bk \<longleftrightarrow> (\<forall>s. \<forall>r \<in> set (side_of bk s). one_sided m s (rest_price r))"

lemma one_sided_blocked:
  assumes "one_sided m s p" and "\<forall>r \<in> set rs. one_sided m (opposite s) (rest_price r)"
  shows "fill s p oid q rs = ([], q, rs)"
proof (rule fill_blocked)
  fix r assume "r \<in> set rs"
  then have "one_sided m (opposite s) (rest_price r)" using assms(2) by blast
  then show "\<not> accepts s p (rest_price r)"
    using assms(1) by (cases s) (auto simp: one_sided_def accepts_def)
qed

lemma resting_command:
  assumes ok: "command_ok lo hi c" and side: "one_sided m (cmd_side c) (cmd_price c)"
    and bk: "book_one_sided m bk" "lo_price bk \<le> lo" "hi \<le> hi_price bk" "resting_count bk < slots bk"
    and new: "cmd_order_id c \<notin> book_ids bk"
  obtains bk' where "spec_command bk c = (True, bk', [])" "book_one_sided m bk'"
    "lo_price bk' = lo_price bk" "hi_price bk' = hi_price bk" "slots bk' = slots bk"
    "resting_count bk' = Suc (resting_count bk)" "book_ids bk' = insert (cmd_order_id c) (book_ids bk)"
proof -
  let ?s = "cmd_side c" and ?p = "cmd_price c" and ?q = "cmd_qty c" and ?i = "cmd_order_id c"
  have q: "?q \<noteq> 0" and type: "cmd_type c = AddLimit" and p: "book_valid_price bk ?p"
    using ok bk(2,3) by (auto simp: command_ok_def book_valid_price_def)
  have "\<forall>r \<in> set (side_of bk (opposite ?s)). one_sided m (opposite ?s) (rest_price r)"
    using bk(1) by (simp add: book_one_sided_def)
  then have fill: "fill ?s ?p ?i ?q (side_of bk (opposite ?s)) = ([], ?q, side_of bk (opposite ?s))"
    by (rule one_sided_blocked [OF side])
  let ?bk = "set_side bk ?s (enqueue ?s (?i, ?p, ?q) (side_of bk ?s))"
  have "spec_add bk ?i ?s ?p ?q = (True, ?bk)" using q p new bk(4) by (simp add: spec_add_def)
  then have "spec_command bk c = (True, ?bk, [])"
    using q p new type fill by (simp add: spec_command_def spec_submit_def)
  moreover have "book_one_sided m ?bk"
    using bk(1) side unfolding book_one_sided_def by (auto simp del: rest_simps) (simp_all add: rest_price_def)
  moreover have "resting_count ?bk = Suc (resting_count bk)"
    by (simp add: resting_count_side [of _ ?s])
  moreover have "book_ids ?bk = insert ?i (book_ids bk)"
    by (simp add: book_ids_side [of _ ?s])
  ultimately show ?thesis by (intro that) simp_all
qed

lemma resting_replay:
  "\<forall>c \<in> set cs. command_ok lo hi c \<and> one_sided m (cmd_side c) (cmd_price c) \<and> cmd_order_id c \<notin> book_ids bk \<Longrightarrow>
   distinct (map cmd_order_id cs) \<Longrightarrow> book_one_sided m bk \<Longrightarrow> lo_price bk \<le> lo \<Longrightarrow> hi \<le> hi_price bk \<Longrightarrow>
   resting_count bk + length cs \<le> slots bk \<Longrightarrow>
   \<exists>bk'. spec_replay bk cs = (replicate (length cs) True, bk', []) \<and>
     resting_count bk' = resting_count bk + length cs \<and> book_ids bk' = book_ids bk \<union> cmd_order_id ` set cs"
proof (induction cs arbitrary: bk)
  case (Cons c cs)
  obtain bk1 where 1: "spec_command bk c = (True, bk1, [])" "book_one_sided m bk1"
    "lo_price bk1 = lo_price bk" "hi_price bk1 = hi_price bk" "slots bk1 = slots bk"
    "resting_count bk1 = Suc (resting_count bk)" "book_ids bk1 = insert (cmd_order_id c) (book_ids bk)"
    using resting_command [of lo hi c m bk] Cons.prems by auto
  obtain bk' where "spec_replay bk1 cs = (replicate (length cs) True, bk', [])"
     "resting_count bk' = resting_count bk1 + length cs" "book_ids bk' = book_ids bk1 \<union> cmd_order_id ` set cs"
  proof -
    have "\<forall>c \<in> set cs. command_ok lo hi c \<and> one_sided m (cmd_side c) (cmd_price c) \<and> cmd_order_id c \<notin> book_ids bk1"
      using Cons.prems(1,2) by (auto simp: 1(7) image_iff)
    then show thesis using Cons.IH [of bk1] Cons.prems 1 that by fastforce
  qed
  then show ?case using 1 by auto
qed simp

text \<open>The three workloads that do not cross leave one order resting per command.\<close>

lemma resting_workloads:
  assumes "cs \<in> {make_add_only_commands n, make_resting_asks_commands n, make_non_crossing_buys_commands n}"
    and "unat n \<le> unat m" and "lo \<le> 8977" "11024 \<le> hi"
  shows "\<exists>bk. spec_replay (spec_new m lo hi) cs = (replicate (unat n) True, bk, []) \<and>
    resting_count bk = unat n \<and> book_ids bk = cmd_order_id ` set cs"
proof -
  have len: "length cs = unat n" and dist: "distinct (map cmd_order_id cs)"
    using assms(1) workload_distinct by auto
  have ok: "command_ok 8977 11024 c \<and> one_sided 10000 (cmd_side c) (cmd_price c)" if c: "c \<in> set cs" for c
  proof -
    consider "c \<in> set (make_add_only_commands n)" | "c \<in> set (make_resting_asks_commands n)"
      | "c \<in> set (make_non_crossing_buys_commands n)" using assms(1) c by auto
    then show ?thesis
    proof cases
      case 1
      have lt: "10000 < p" if "10001 \<le> p" for p :: Price
        using that by (rule less_le_trans [rotated]) (simp add: word_less_nat_alt)
      then show ?thesis using add_only_ok [OF 1] by (auto simp: one_sided_def split: Side.splits)
    next
      case 2
      have "command_ok 8977 11024 c"
        by (rule command_ok_mono [OF resting_asks_ok(1) [OF 2]]) (simp_all add: word_le_nat_alt)
      moreover have "10000 < cmd_price c" using resting_asks_ok(1) [OF 2]
        by (auto simp: command_ok_def intro: less_le_trans [rotated])
      ultimately show ?thesis using resting_asks_ok(2) [OF 2] by (simp add: one_sided_def)
    next
      case 3
      have "command_ok 8977 11024 c"
        by (rule command_ok_mono [OF non_crossing_buys_ok(1) [OF 3]]) (simp_all add: word_le_nat_alt)
      then show ?thesis
        using non_crossing_buys_ok [OF 3] by (simp add: one_sided_def command_ok_def)
    qed
  qed
  let ?bk = "spec_new m lo hi"
  have bk: "book_one_sided 10000 ?bk" "lo_price ?bk \<le> 8977" "11024 \<le> hi_price ?bk" "book_ids ?bk = {}"
      "resting_count ?bk = 0" "resting_count ?bk + length cs \<le> slots ?bk"
    using assms(2-4) len
    by (auto simp: spec_new_def book_one_sided_def side_of_def book_ids_def resting_count_def split: Side.splits)
  then show ?thesis
    using resting_replay [of cs 8977 11024 10000 ?bk] ok dist len by auto
qed

subsection \<open>The full-match workload\<close>

definition fm_resting :: "nat \<Rightarrow> resting" where
  "fm_resting k = (word_of_nat k + 1, 10000, fm_qty k)"

definition fm_execution :: "size_t \<Rightarrow> nat \<Rightarrow> Execution" where
  "fm_execution n k = mk_execution (n + word_of_nat k + 1) (word_of_nat k + 1) 10000 (fm_qty k)"

definition fm_book :: "book \<Rightarrow> nat list \<Rightarrow> book" where
  "fm_book bk ks = bk\<lparr>bids := [], asks := map fm_resting ks\<rparr>"

lemma fm_book_simps [simp]:
  "side_of (fm_book bk ks) Buy = []" "side_of (fm_book bk ks) Sell = map fm_resting ks"
  "slots (fm_book bk ks) = slots bk" "book_valid_price (fm_book bk ks) = book_valid_price bk"
  "resting_count (fm_book bk ks) = length ks"
  "set_side (fm_book bk ks) Sell (map fm_resting ks') = fm_book bk ks'"
  "set_side (fm_book bk ks) Buy [] = fm_book bk ks"
  by (simp_all add: fm_book_def side_of_def book_valid_price_def resting_count_def set_side_def fun_eq_iff)

lemma fm_book_ids:
  assumes "2 * unat (n :: size_t) < 2 ^ 64" and "set ks \<subseteq> {..<unat n}"
  shows "i \<in> book_ids (fm_book bk ks) \<longleftrightarrow> (\<exists>k \<in> set ks. unat i = Suc k)"
proof -
  have "rest_id (fm_resting k) = i \<longleftrightarrow> unat i = Suc k" if "k \<in> set ks" for k
  proof -
    have "unat (rest_id (fm_resting k)) = Suc k"
      using fm_ids(1) [OF assms(1), of k] assms(2) that by (auto simp: fm_resting_def fm_sell_def)
    then show ?thesis by (metis unat_inject)
  qed
  then show ?thesis by (auto simp: book_ids_def fm_book_def image_iff)
qed

lemma fm_sell_step:
  assumes "2 * unat (n :: size_t) < 2 ^ 64" and k: "k < unat n" and "k < slots bk" and p: "book_valid_price bk 10000"
  shows "spec_command (fm_book bk [0..<k]) (fm_sell k) = (True, fm_book bk [0..<Suc k], [])"
proof -
  have new: "word_of_nat k + 1 \<notin> book_ids (fm_book bk [0..<k])"
  proof -
    have "set [0..<k] \<subseteq> {..<unat n}" using k by auto
    then show ?thesis using fm_ids(1) [OF assms(1) k] fm_book_ids [OF assms(1)] by (auto simp: fm_sell_def)
  qed
  have "enqueue Sell (word_of_nat k + 1, 10000, fm_qty k) (map fm_resting [0..<k]) = map fm_resting [0..<Suc k]"
    unfolding enqueue_def by (subst takeWhile_eq_all_conv [THEN iffD2], simp add: fm_resting_def)
      (subst dropWhile_eq_Nil_conv [THEN iffD2], simp_all add: fm_resting_def)
  then show ?thesis
    using new p assms(3)
    by (simp add: fm_sell_def spec_command_def spec_submit_def spec_add_def Let_def del: upt_Suc)
qed

lemma fm_sells:
  assumes "2 * unat (n :: size_t) < 2 ^ 64" and p: "book_valid_price bk 10000"
  shows "k \<le> unat n \<Longrightarrow> k \<le> slots bk \<Longrightarrow>
    spec_replay (fm_book bk []) (map fm_sell [0..<k]) = (replicate k True, fm_book bk [0..<k], [])"
proof (induction k)
  case (Suc k)
  then show ?case
    using fm_sell_step [OF assms(1), of k bk] p by (simp add: spec_replay_append replicate_append_same del: upt_Suc)
      (simp add: spec_replay_append replicate_append_same)
qed simp

lemma fm_buy_step:
  assumes "2 * unat (n :: size_t) < 2 ^ 64" and k: "k < unat n" and p: "book_valid_price bk 10000"
  shows "spec_command (fm_book bk [k..<unat n]) (fm_buy n k) =
    (True, fm_book bk [Suc k..<unat n], [fm_execution n k])"
proof -
  have new: "n + word_of_nat k + 1 \<notin> book_ids (fm_book bk [k..<unat n])"
  proof -
    have "set [k..<unat n] \<subseteq> {..<unat n}" by auto
    then show ?thesis using fm_ids(2) [OF assms(1) k] fm_book_ids [OF assms(1)] by (auto simp: fm_buy_def)
  qed
  have "map fm_resting [k..<unat n] = (word_of_nat k + 1, 10000, fm_qty k) # map fm_resting [Suc k..<unat n]"
    using k by (simp add: upt_conv_Cons fm_resting_def)
  then have "fill Buy 10000 (n + word_of_nat k + 1) (fm_qty k) (map fm_resting [k..<unat n]) =
      ([fm_execution n k], 0, map fm_resting [Suc k..<unat n])"
    by (simp add: accepts_def fm_execution_def)
  then show ?thesis
    using new p by (simp add: fm_buy_def spec_command_def spec_submit_def Let_def)
qed

lemma fm_buys:
  assumes "2 * unat (n :: size_t) < 2 ^ 64" and p: "book_valid_price bk 10000"
  shows "k \<le> unat n \<Longrightarrow>
    spec_replay (fm_book bk [k..<unat n]) (map (fm_buy n) [k..<unat n]) =
      (replicate (unat n - k) True, fm_book bk [], map (fm_execution n) [k..<unat n])"
proof (induction "unat n - k" arbitrary: k)
  case 0
  then show ?case by simp
next
  case (Suc d)
  then have k: "k < unat n" by simp
  have "spec_replay (fm_book bk [Suc k..<unat n]) (map (fm_buy n) [Suc k..<unat n]) =
      (replicate (unat n - Suc k) True, fm_book bk [], map (fm_execution n) [Suc k..<unat n])"
    using Suc by simp
  moreover have "replicate (unat n - k) True = True # replicate (unat n - Suc k) True"
    using k by (metis Suc_diff_Suc replicate_Suc)
  ultimately show ?case
    using fm_buy_step [OF assms(1) k p] upt_conv_Cons [OF k] by simp
qed

lemma full_match_replay:
  assumes "2 * unat (n :: size_t) < 2 ^ 64" and "unat n \<le> unat m" and "lo \<le> 10000" "10000 \<le> hi"
  shows "spec_replay (spec_new m lo hi) (make_full_match_commands n) =
    (replicate (2 * unat n) True, spec_new m lo hi, map (fm_execution n) [0..<unat n])"
proof -
  let ?bk = "spec_new m lo hi"
  have bk: "?bk = fm_book ?bk []" by (simp add: spec_new_def fm_book_def)
  have p: "book_valid_price ?bk 10000" using assms(3,4) by (simp add: spec_new_def book_valid_price_def)
  have "unat n \<le> slots ?bk" using assms(2) by (simp add: spec_new_def)
  then have "spec_replay (fm_book ?bk []) (map fm_sell [0..<unat n]) =
      (replicate (unat n) True, fm_book ?bk [0..<unat n], [])"
    by (intro fm_sells [OF assms(1) p]) simp_all
  moreover have "spec_replay (fm_book ?bk [0..<unat n]) (map (fm_buy n) [0..<unat n]) =
      (replicate (unat n) True, fm_book ?bk [], map (fm_execution n) [0..<unat n])"
    using fm_buys [OF assms(1) p, of 0] by simp
  ultimately show ?thesis
    unfolding full_match_halves spec_replay_append
    by (subst bk) (simp add: replicate_add [symmetric] mult_2 flip: bk)
qed

end
