(* ===== verification/Clob_Promises.thy ===== *)
theory Clob_Promises
  imports Workload_Runs
begin

text \<open>
  What \<open>FixedClob\<close> promises its callers, for any well-formed book, any hash and any sink
  with the contract of one: the public operations implement the abstract book, trades
  respect price-time priority, no quantity is created or lost, and a refused order
  leaves no trace. The examples all start from one small book, built by running the code.
\<close>

subsection \<open>A small book\<close>

definition limit_command :: "OrderId \<Rightarrow> Side \<Rightarrow> Price \<Rightarrow> Quantity \<Rightarrow> OrderCommand" where
  "limit_command i s p q = \<lparr>cmd_order_id = i, cmd_price = p, cmd_qty = q, cmd_type = AddLimit, cmd_side = s\<rparr>"

definition example_commands :: "OrderCommand list" where
  "example_commands = [limit_command 1 Sell 105 5, limit_command 2 Sell 105 3, limit_command 3 Buy 101 4]"

definition example_book :: book where
  "example_book = \<lparr>bids = [(3, 101, 4)], asks = [(1, 105, 5), (2, 105, 3)],
     slots = 4, lo_price = 100, hi_price = 110\<rparr>"

lemmas spec_eval = spec_submit_def spec_cancel_def spec_add_def book_valid_price_def book_ids_def
  resting_count_def side_of_def set_side_def enqueue_def accepts_def ahead_eq_def

lemma example_params: "params_ok 4 100 110"
  by (simp add: params_ok_def) code_simp

lemma example_replay:
  "spec_replay (spec_new 4 100 110) example_commands = ([True, True, True], example_book, [])"
  by (simp add: example_commands_def example_book_def limit_command_def spec_command_def spec_new_def spec_eval)

lemma example_run:
  obtains b0 b where "fixed_clob_new ks vs 4 100 110 = Some b0"
    "replay hash null_emplace_back b0 example_commands () = Some ([True, True, True], b, ())"
    "wf_clob hash b" "abs_book b = example_book"
proof -
  obtain b0 where b0: "fixed_clob_new ks vs 4 100 110 = Some b0" "wf_clob hash b0"
      "abs_book b0 = spec_new 4 100 110"
    by (rule new_wf [OF example_params])
  have "\<forall>c \<in> set example_commands. cmd_order_id c \<noteq> 0"
    by (simp add: example_commands_def limit_command_def)
  then show ?thesis
    using replay_refines [OF b0(2)] example_replay b0 that by metis
qed

lemma example_exists: "\<exists>b. wf_clob hash b \<and> abs_book b = example_book"
  using example_run by metis

lemma example_submit:
  assumes "wf_clob hash b" and "abs_book b = example_book" and "oid \<noteq> 0"
    and "spec_submit example_book oid s p q = (acc, bk, es)"
  obtains b' where "submit_limit_order hash vector_emplace_back b oid s p q [] = Some (acc, b', es)"
    "wf_clob hash b'" "abs_book b' = bk"
  using vector_sink.submit_reports [OF assms(1,3), of s p q acc bk es "[]"] assms(2,4) by auto

lemma asks_set: "bk\<lparr>asks := a\<rparr> = bk' \<Longrightarrow> asks bk' = a"
  by auto

subsection \<open>The abstract outcome of a submission\<close>

lemma spec_submit_outcome:
  assumes ok: "book_ok bk" and sub: "spec_submit bk oid s p q = (acc, bk', es)"
  obtains q' where "fills s p oid (side_of bk (opposite s)) (if acc then q else 0) es q' (side_of bk' (opposite s))"
    "side_of bk' s = (if q' = 0 then side_of bk s else enqueue s (oid, p, q') (side_of bk s))"
    "acc \<Longrightarrow> oid \<notin> book_ids bk"
proof (cases acc)
  case False
  then have "bk' = bk" "es = []" using spec_submit_refused [OF ok] sub by auto
  moreover have "fills s p oid rs 0 [] 0 rs" for rs
    by (cases rs) (auto intro: fills.none fills.stop)
  ultimately show ?thesis using False by (intro that [of 0]) simp_all
next
  case acc: True
  show ?thesis
  proof (cases rule: spec_submit_cases [of bk oid s p q])
    case refused
    then show ?thesis using acc sub by simp
  next
    case (matched es1 q' rs)
    let ?bk = "set_side bk (opposite s) rs"
    have es: "es = es1" and bk': "bk' = (if q' = 0 then ?bk else set_side ?bk s (enqueue s (oid, p, q') (side_of ?bk s)))"
      using matched(5) sub acc by (auto simp: spec_add_def split: if_splits)
    have "side_of bk' (opposite s) = rs" using bk' by simp
    moreover have "side_of bk' s = (if q' = 0 then side_of bk s else enqueue s (oid, p, q') (side_of bk s))"
      using bk' by simp
    ultimately show ?thesis using matched(3,4) acc es by (intro that [of q']) simp_all
  qed
qed

lemma session_refines_new:
  assumes "params_ok n lo hi" and "\<forall>c \<in> set cs. cmd_order_id c \<noteq> 0"
    and "fixed_clob_new ks vs n lo hi = Some b0" and "replay hash vector_emplace_back b0 cs [] = Some (oks, b, es)"
  shows "wf_clob hash b \<and> spec_replay (spec_new n lo hi) cs = (oks, abs_book b, es)"
proof -
  have b0: "wf_clob hash b0" "abs_book b0 = spec_new n lo hi"
    using new_wf [OF assms(1), of ks vs hash] assms(3) by auto
  obtain oks' bk es' where spec: "spec_replay (abs_book b0) cs = (oks', bk, es')" by (metis prod.exhaust)
  show ?thesis
    using vector_sink.replay_reports [OF b0(1) assms(2) spec, of "[]"] assms(4) spec b0(2) by auto
qed

lemma spec_command_frame:
  "spec_command bk c = (ok, bk', es) \<Longrightarrow>
   slots bk' = slots bk \<and> lo_price bk' = lo_price bk \<and> hi_price bk' = hi_price bk"
  by (auto simp: spec_command_def spec_submit_def spec_add_def spec_cancel_def Let_def
      split: CommandType.splits prod.splits if_splits)

lemma spec_replay_frame:
  "spec_replay bk cs = (oks, bk', es) \<Longrightarrow>
   slots bk' = slots bk \<and> lo_price bk' = lo_price bk \<and> hi_price bk' = hi_price bk"
proof (induction cs arbitrary: bk oks es)
  case (Cons c cs)
  obtain ok bk1 es1 where c: "spec_command bk c = (ok, bk1, es1)" by (metis prod.exhaust)
  then obtain oks2 es2 where "spec_replay bk1 cs = (oks2, bk', es2)"
    using Cons.prems by (auto split: prod.splits)
  from Cons.IH [OF this] spec_command_frame [OF c] show ?case by simp
qed simp

lemma spec_best_in:
  "spec_best bk s = Some (p, q) \<Longrightarrow> \<exists>r \<in> set (side_of bk s). rest_price r = p"
  by (cases "side_of bk s") (simp_all add: spec_best_def)

lemma example_run_vector:
  obtains b0 b where "fixed_clob_new ks vs 4 100 110 = Some b0"
    "replay hash vector_emplace_back b0 example_commands [] = Some ([True, True, True], b, [])"
    "wf_clob hash b" "abs_book b = example_book"
proof -
  obtain b0 where b0: "fixed_clob_new ks vs 4 100 110 = Some b0" "wf_clob hash b0"
      "abs_book b0 = spec_new 4 100 110"
    by (rule new_wf [OF example_params])
  have ids: "\<forall>c \<in> set example_commands. cmd_order_id c \<noteq> 0"
    by (simp add: example_commands_def limit_command_def)
  have "spec_replay (abs_book b0) example_commands = ([True, True, True], example_book, [])"
    by (simp add: b0(3) example_replay)
  from vector_sink.replay_reports [OF b0(2) ids this, of "[]"] show ?thesis
    using b0(1) that by auto
qed

subsection \<open>The code implements the abstract book\<close>

text \<open>C1: a book made by the constructor runs any sequence of commands (with nonzero ids)
  without a fault; every result, every reported execution and the final book are those of
  the abstract book, whatever the hash and the old contents of the index's memory.\<close>

theorem session_refinement:
  assumes "params_ok n lo hi" and "\<forall>c \<in> set cs. cmd_order_id c \<noteq> 0"
  shows "\<exists>b0 oks b es. fixed_clob_new ks vs n lo hi = Some b0 \<and>
    replay hash vector_emplace_back b0 cs [] = Some (oks, b, es) \<and>
    spec_replay (spec_new n lo hi) cs = (oks, abs_book b, es) \<and> wf_clob hash b"
proof -
  obtain b0 where b0: "fixed_clob_new ks vs n lo hi = Some b0" "wf_clob hash b0"
      "abs_book b0 = spec_new n lo hi"
    by (rule new_wf [OF assms(1)])
  obtain oks bk es where spec: "spec_replay (abs_book b0) cs = (oks, bk, es)" by (metis prod.exhaust)
  obtain b ex where "replay hash vector_emplace_back b0 cs [] = Some (oks, b, ex)" "wf_clob hash b"
      "abs_book b = bk" "ex = [] @ es"
    by (rule vector_sink.replay_reports [OF b0(2) assms(2) spec, of "[]"]) auto
  then show ?thesis using b0 spec by auto
qed

theorem session_refinement_witness:
  "\<exists>b0 b. fixed_clob_new (\<lambda>_. 7) (\<lambda>_. 9) 4 100 110 = Some b0 \<and>
    replay FastOrderIdHash vector_emplace_back b0 example_commands [] = Some ([True, True, True], b, []) \<and>
    abs_book b = example_book"
proof -
  have "\<forall>c \<in> set example_commands. cmd_order_id c \<noteq> 0"
    by (simp add: example_commands_def limit_command_def)
  from session_refinement [OF example_params this, of "\<lambda>_. 7" "\<lambda>_. 9" FastOrderIdHash] show ?thesis
    by (auto simp: example_replay dest: sym)
qed

text \<open>C2: submitting to a well-formed book never faults, answers and reports what the
  abstract book says, and leaves the book well formed.\<close>

theorem submit_refinement:
  assumes "wf_clob hash b" and "oid \<noteq> 0"
  shows "\<exists>ok b' es. submit_limit_order hash vector_emplace_back b oid s p q ex = Some (ok, b', ex @ es) \<and>
    spec_submit (abs_book b) oid s p q = (ok, abs_book b', es) \<and> wf_clob hash b'"
proof -
  obtain ok bk es where spec: "spec_submit (abs_book b) oid s p q = (ok, bk, es)" by (metis prod.exhaust)
  then show ?thesis
    using vector_sink.submit_reports [OF assms spec, of ex] by auto
qed

theorem submit_refinement_witness:
  "\<exists>b b'. abs_book b = example_book \<and>
    submit_limit_order FastOrderIdHash vector_emplace_back b 4 Buy 105 6 [] =
      Some (True, b', [mk_execution 4 1 105 5, mk_execution 4 2 105 1]) \<and>
    asks (abs_book b') = [(2, 105, 2)]"
proof -
  obtain b where b: "wf_clob FastOrderIdHash b" "abs_book b = example_book" using example_exists by blast
  from submit_refinement [OF b(1), of 4 Buy 105 6 "[]"] obtain b' where
    b': "submit_limit_order FastOrderIdHash vector_emplace_back b 4 Buy 105 6 [] =
      Some (True, b', [mk_execution 4 1 105 5, mk_execution 4 2 105 1])"
    and "example_book\<lparr>asks := [(2, 105, 2)]\<rparr> = abs_book b'"
    by (auto simp: b(2) example_book_def spec_eval)
  from this(2) have "asks (abs_book b') = [(2, 105, 2)]" by (rule asks_set)
  with b(2) b' show ?thesis by blast
qed

text \<open>C3: cancelling succeeds exactly for a resting order and removes that order alone,
  from wherever in its queue it is.\<close>

theorem cancel_refinement:
  assumes "wf_clob hash b" and "oid \<noteq> 0"
  shows "\<exists>ok b'. cancel_order hash b oid = Some (ok, b') \<and>
    spec_cancel (abs_book b) oid = (ok, abs_book b') \<and> wf_clob hash b'"
  using cancel_wf [OF assms] by metis

theorem cancel_refinement_witness:
  "\<exists>b b'. abs_book b = example_book \<and> cancel_order FastOrderIdHash b 1 = Some (True, b') \<and>
    asks (abs_book b') = [(2, 105, 3)]"
proof -
  obtain b where b: "wf_clob FastOrderIdHash b" "abs_book b = example_book" using example_exists by blast
  from cancel_refinement [OF b(1), of 1] obtain b' where
    b': "cancel_order FastOrderIdHash b 1 = Some (True, b')"
    and "example_book\<lparr>asks := [(2, 105, 3)]\<rparr> = abs_book b'"
    by (auto simp: b(2) example_book_def spec_eval)
  from this(2) have "asks (abs_book b') = [(2, 105, 3)]" by (rule asks_set)
  with b(2) b' show ?thesis by blast
qed

text \<open>C4: price-time priority. The executions of a submission name the first orders of the
  opposite side, which is sorted best price first and oldest first, in that order, each at
  its own resting price and within the incoming limit; every order named but the last is
  filled completely, and the side keeps the orders behind.\<close>

theorem price_time_priority:
  assumes "wf_clob hash b" and "oid \<noteq> 0"
    and "submit_limit_order hash vector_emplace_back b oid s p q [] = Some (ok, b', es)"
  shows "let rs = side_of (abs_book b) (opposite s) in
    sorted_side (opposite s) rs \<and> length es \<le> length rs \<and>
    map (\<lambda>e. (resting_order_id e, exec_price e)) es =
      map (\<lambda>r. (rest_id r, rest_price r)) (take (length es) rs) \<and>
    (\<forall>k. Suc k < length es \<longrightarrow> exec_qty (es ! k) = rest_qty (rs ! k)) \<and>
    (\<forall>e \<in> set es. incoming_order_id e = oid \<and> accepts s p (exec_price e) \<and> exec_qty e \<noteq> 0) \<and>
    side_of (abs_book b') (opposite s) = remaining_after es rs"
proof -
  note ok = wf_book_ok [OF assms(1)]
  obtain ok' bk es' where spec: "spec_submit (abs_book b) oid s p q = (ok', bk, es')" by (metis prod.exhaust)
  have run: "bk = abs_book b'" "es' = es"
    using vector_sink.submit_reports [OF assms(1,2) spec, of "[]"] assms(3) by auto
  obtain q' where f: "fills s p oid (side_of (abs_book b) (opposite s)) (if ok' then q else 0) es q'
      (side_of (abs_book b') (opposite s))"
    using spec_submit_outcome [OF ok spec] run by metis
  have "book_sides_ok (opposite s) (side_of (abs_book b) (opposite s))" by (rule book_ok_sides [OF ok])
  then show ?thesis
    using fills_priority [OF f] fills_executions [OF f] unfolding Let_def book_sides_ok_def by blast
qed

theorem price_time_priority_witness:
  "\<exists>b b' es. abs_book b = example_book \<and>
    submit_limit_order FastOrderIdHash vector_emplace_back b 4 Buy 107 6 [] = Some (True, b', es) \<and>
    length es = 2 \<and> map resting_order_id es = [1, 2] \<and> exec_qty (es ! 0) = 5 \<and>
    asks (abs_book b') = remaining_after es (asks example_book)"
proof -
  obtain b where b: "wf_clob FastOrderIdHash b" "abs_book b = example_book" using example_exists by blast
  obtain b' where run: "submit_limit_order FastOrderIdHash vector_emplace_back b 4 Buy 107 6 [] =
      Some (True, b', [mk_execution 4 1 105 5, mk_execution 4 2 105 1])"
    using vector_sink.submit_reports [OF b(1), of 4 Buy 107 6 True _ "[mk_execution 4 1 105 5, mk_execution 4 2 105 1]" "[]"]
    by (auto simp: b(2) example_book_def spec_eval)
  have "asks (abs_book b') = remaining_after [mk_execution 4 1 105 5, mk_execution 4 2 105 1] (asks example_book)"
    using price_time_priority [OF b(1) _ run] by (simp add: Let_def side_of_def b(2))
  with b run show ?thesis
    by (intro exI [of _ b] exI [of _ b'] exI [of _ "[mk_execution 4 1 105 5, mk_execution 4 2 105 1]"]) simp
qed

text \<open>C5: no quantity is created or lost. What an accepted order traded and what it left
  resting add up to its quantity, the opposite side lost exactly what was traded, and the
  order rests only when no remaining opposite order is within its limit.\<close>

theorem quantity_conserved:
  assumes "wf_clob hash b" and "oid \<noteq> 0"
    and "submit_limit_order hash vector_emplace_back b oid s p q [] = Some (ok, b', es)"
  shows "let own = filter (\<lambda>r. rest_id r = oid) (side_of (abs_book b') s);
             opp = side_of (abs_book b) (opposite s); opp' = side_of (abs_book b') (opposite s) in
    (ok \<longrightarrow> traded es + depth own = unat q) \<and> traded es + depth opp' = depth opp \<and>
    (ok \<and> own \<noteq> [] \<longrightarrow> (\<forall>r \<in> set opp'. \<not> accepts s p (rest_price r)))"
proof -
  note ok = wf_book_ok [OF assms(1)]
  obtain ok' bk es' where spec: "spec_submit (abs_book b) oid s p q = (ok', bk, es')" by (metis prod.exhaust)
  have run: "bk = abs_book b'" "es' = es" "ok' = ok"
    using vector_sink.submit_reports [OF assms(1,2) spec, of "[]"] assms(3) by auto
  obtain q' where f: "fills s p oid (side_of (abs_book b) (opposite s)) (if ok then q else 0) es q'
      (side_of (abs_book b') (opposite s))"
    and own: "side_of (abs_book b') s =
      (if q' = 0 then side_of (abs_book b) s else enqueue s (oid, p, q') (side_of (abs_book b) s))"
    and new: "ok \<Longrightarrow> oid \<notin> book_ids (abs_book b)"
    using spec_submit_outcome [OF ok spec] unfolding run by metis
  have srt: "sorted_side (opposite s) (side_of (abs_book b) (opposite s))"
    using book_ok_sides(2) [OF ok, of s] by (simp add: book_sides_ok_def)
  have mine: "filter (\<lambda>r. rest_id r = oid) (side_of (abs_book b') s) = (if q' = 0 then [] else [(oid, p, q')])"
    if ok
  proof -
    have none: "filter (\<lambda>r. rest_id r = oid) (side_of (abs_book b) s) = []"
      using new [OF that] by (auto simp: filter_empty_conv book_ids_side [of _ s] simp del: rest_simps)
    show ?thesis
      by (rule enqueue_split [of "side_of (abs_book b) s" s "(oid, p, q')"]) (use none own in auto)
  qed
  have blocked: "\<forall>r \<in> set (side_of (abs_book b') (opposite s)). \<not> accepts s p (rest_price r)" if "q' \<noteq> 0"
    using fills_blocked_all [OF f srt that] by blast
  show ?thesis
    using fills_conserve [OF f] mine blocked unfolding Let_def by (cases "q' = 0"; cases ok) simp_all
qed

theorem quantity_conserved_witness:
  "\<exists>b b' es. abs_book b = example_book \<and>
    submit_limit_order FastOrderIdHash vector_emplace_back b 4 Buy 107 9 [] = Some (True, b', es) \<and>
    traded es + depth (filter (\<lambda>r. rest_id r = 4) (bids (abs_book b'))) = 9"
proof -
  obtain b where b: "wf_clob FastOrderIdHash b" "abs_book b = example_book" using example_exists by blast
  obtain b' where run: "submit_limit_order FastOrderIdHash vector_emplace_back b 4 Buy 107 9 [] =
      Some (True, b', [mk_execution 4 1 105 5, mk_execution 4 2 105 3])"
    using vector_sink.submit_reports [OF b(1), of 4 Buy 107 9 True _ "[mk_execution 4 1 105 5, mk_execution 4 2 105 3]" "[]"]
    by (auto simp: b(2) example_book_def spec_eval)
  from quantity_conserved [OF b(1) _ run]
  have "traded [mk_execution 4 1 105 5, mk_execution 4 2 105 3] +
      depth (filter (\<lambda>r. rest_id r = 4) (bids (abs_book b'))) = 9"
    by (simp add: Let_def side_of_def)
  with b run show ?thesis by blast
qed

text \<open>C6: the book is never crossed. After any session from the constructor on, a best bid
  is below a best ask, and both are prices of the range.\<close>

theorem no_crossed_book:
  assumes "params_ok n lo hi" and "\<forall>c \<in> set cs. cmd_order_id c \<noteq> 0"
    and "fixed_clob_new ks vs n lo hi = Some b0" and "replay hash vector_emplace_back b0 cs [] = Some (oks, b, es)"
    and "best_bid b = Some (Some (bp, bq))" and "best_ask b = Some (Some (ap, aq))"
  shows "lo \<le> bp \<and> bp < ap \<and> ap \<le> hi"
proof -
  have wf: "wf_clob hash b" and spec: "spec_replay (spec_new n lo hi) cs = (oks, abs_book b, es)"
    using session_refines_new [OF assms(1-4)] by auto
  have "lo \<le> hi" using assms(1) by (simp add: params_ok_def)
  then have ok: "book_ok (abs_book b)" and unc: "uncrossed (abs_book b)"
    using spec_replay_invariants [OF book_ok_new spec] by auto
  have frame: "lo_price (abs_book b) = lo" "hi_price (abs_book b) = hi"
    using spec_replay_frame [OF spec] by (simp_all add: spec_new_def)
  have "spec_best (abs_book b) Buy = Some (bp, bq)" "spec_best (abs_book b) Sell = Some (ap, aq)"
    using best_eq [OF wf] assms(5,6) by simp_all
  then obtain r r' where r: "r \<in> set (bids (abs_book b))" "rest_price r = bp"
      and r': "r' \<in> set (asks (abs_book b))" "rest_price r' = ap"
    using spec_best_in [of "abs_book b" Buy] spec_best_in [of "abs_book b" Sell] unfolding side_of_def Side.case by metis
  have "rest_price r < rest_price r'" using unc r(1) r'(1) unfolding uncrossed_def by blast
  moreover have "book_valid_price (abs_book b) (rest_price r)" "book_valid_price (abs_book b) (rest_price r')"
    using ok r(1) r'(1) unfolding book_ok_def set_append by blast+
  ultimately show ?thesis using r r' frame by (simp add: book_valid_price_def)
qed

theorem no_crossed_book_witness:
  "\<exists>b0 b bp bq ap aq. fixed_clob_new (\<lambda>_. 7) (\<lambda>_. 9) 4 100 110 = Some b0 \<and>
    replay FastOrderIdHash vector_emplace_back b0 example_commands [] = Some ([True, True, True], b, []) \<and>
    best_bid b = Some (Some (bp, bq)) \<and> best_ask b = Some (Some (ap, aq)) \<and> bp < ap"
proof -
  have ids: "\<forall>c \<in> set example_commands. cmd_order_id c \<noteq> 0"
    by (simp add: example_commands_def limit_command_def)
  obtain b0 b where b0: "fixed_clob_new (\<lambda>_. 7) (\<lambda>_. 9) 4 100 110 = Some b0"
    and run: "replay FastOrderIdHash vector_emplace_back b0 example_commands [] = Some ([True, True, True], b, [])"
    and wf: "wf_clob FastOrderIdHash b" and bk: "abs_book b = example_book"
    by (rule example_run_vector)
  have q: "best_bid b = Some (Some (101, 4))" "best_ask b = Some (Some (105, 8))"
    using best_eq [OF wf] by (simp_all add: bk example_book_def spec_best_def level_qty_def at_price_def side_of_def)
  from no_crossed_book [OF example_params ids b0 run q] b0 run q show ?thesis by blast
qed

text \<open>C7: a submission is accepted exactly when its quantity is positive, its price is in the
  range, its id is not resting, and there is a free slot or at least one execution.\<close>

theorem submit_accepted_iff:
  assumes "wf_clob hash b" and "oid \<noteq> 0"
    and "submit_limit_order hash vector_emplace_back b oid s p q [] = Some (ok, b', es)"
  shows "ok \<longleftrightarrow> q \<noteq> 0 \<and> valid_price b p \<and> oid \<notin> book_ids (abs_book b) \<and>
    (available_slots b \<noteq> 0 \<or> es \<noteq> [])"
proof -
  obtain ok' bk es' where spec: "spec_submit (abs_book b) oid s p q = (ok', bk, es')" by (metis prod.exhaust)
  have run: "bk = abs_book b'" "es' = es" "ok' = ok"
    using vector_sink.submit_reports [OF assms(1,2) spec, of "[]"] assms(3) by auto
  have "available_slots b \<noteq> 0 \<longleftrightarrow> resting_count (abs_book b) < slots (abs_book b)"
    using counts_eq(2) [OF assms(1)] unat_eq_zero [of "available_slots b"] by linarith
  moreover have "book_valid_price (abs_book b) p \<longleftrightarrow> valid_price b p"
    by (simp add: book_valid_price_def valid_price_def abs_book_def)
  ultimately show ?thesis
    using spec_submit_accepted [OF wf_book_ok [OF assms(1)] spec] unfolding run by simp
qed

theorem submit_accepted_iff_witness:
  "\<exists>b b'. abs_book b = example_book \<and>
    submit_limit_order FastOrderIdHash vector_emplace_back b 4 Buy 105 2 [] =
      Some (True, b', [mk_execution 4 1 105 2]) \<and>
    valid_price b 105 \<and> 4 \<notin> book_ids (abs_book b)"
proof -
  obtain b where b: "wf_clob FastOrderIdHash b" "abs_book b = example_book" using example_exists by blast
  obtain b' where run: "submit_limit_order FastOrderIdHash vector_emplace_back b 4 Buy 105 2 [] =
      Some (True, b', [mk_execution 4 1 105 2])"
    using vector_sink.submit_reports [OF b(1), of 4 Buy 105 2 True _ "[mk_execution 4 1 105 2]" "[]"]
    by (auto simp: b(2) example_book_def spec_eval)
  from submit_accepted_iff [OF b(1) _ run] b run show ?thesis by auto
qed

text \<open>The abstract book determines the answer of every query.\<close>

lemma queries_same:
  assumes "wf_clob hash b" and "wf_clob hash b'" and "abs_book b' = abs_book b"
  shows "best_bid b' = best_bid b" and "best_ask b' = best_ask b" and "quantity_at b' t r = quantity_at b t r"
    and "order_count_at b' t r = order_count_at b t r" and "front_order_id b' t r = front_order_id b t r"
    and "back_order_id b' t r = back_order_id b t r" and "active_orders b' = active_orders b"
    and "available_slots b' = available_slots b" and "clob_empty b' = clob_empty b"
proof -
  note c = counts_eq [OF assms(1)] and c' = counts_eq [OF assms(2)]
  show "best_bid b' = best_bid b" "best_ask b' = best_ask b" "quantity_at b' t r = quantity_at b t r"
    "front_order_id b' t r = front_order_id b t r" "back_order_id b' t r = back_order_id b t r"
    using best_eq [OF assms(1)] best_eq [OF assms(2)] quantity_at_eq [OF assms(1)] quantity_at_eq [OF assms(2)]
      front_back_eq [OF assms(1)] front_back_eq [OF assms(2)] assms(3) by simp_all
  show "order_count_at b' t r = order_count_at b t r"
    using order_count_at_eq [OF assms(1), of t r] order_count_at_eq [OF assms(2), of t r]
    by (cases "order_count_at b' t r"; cases "order_count_at b t r") (simp_all add: assms(3) word_unat_eq_iff)
  have "unat (active_orders b') = unat (active_orders b)" "unat (available_slots b') = unat (available_slots b)"
    using c c' assms(3) by simp_all
  then show "active_orders b' = active_orders b" "available_slots b' = available_slots b" by (simp_all only: unat_inject)
  show "clob_empty b' = clob_empty b" using c(3) c'(3) assms(3) by simp
qed

text \<open>C16: a refused submission reports nothing and changes nothing that can be observed: the
  book stays well-formed, holds the same orders, and every query, at every price of either
  side, answers as before.\<close>

theorem rejected_submit_changes_nothing:
  assumes "wf_clob hash b" and "oid \<noteq> 0"
    and "submit_limit_order hash vector_emplace_back b oid s p q ex = Some (False, b', ex')"
  shows "ex' = ex \<and> wf_clob hash b' \<and> abs_book b' = abs_book b \<and>
    best_bid b' = best_bid b \<and> best_ask b' = best_ask b \<and>
    (\<forall>t r. quantity_at b' t r = quantity_at b t r \<and> order_count_at b' t r = order_count_at b t r \<and>
      front_order_id b' t r = front_order_id b t r \<and> back_order_id b' t r = back_order_id b t r) \<and>
    active_orders b' = active_orders b \<and> available_slots b' = available_slots b \<and>
    clob_empty b' = clob_empty b"
proof -
  obtain ok' bk es' where spec: "spec_submit (abs_book b) oid s p q = (ok', bk, es')" by (metis prod.exhaust)
  have run: "bk = abs_book b'" "ex' = ex @ es'" "ok' = False" "wf_clob hash b'"
    using vector_sink.submit_reports [OF assms(1,2) spec, of ex] assms(3) by auto
  have same: "abs_book b' = abs_book b \<and> es' = []"
    using spec_submit_refused [OF wf_book_ok [OF assms(1)]] spec run(1,3) by metis
  with run(2,4) queries_same [OF assms(1) run(4)] show ?thesis by simp
qed

theorem rejected_submit_changes_nothing_witness:
  "\<exists>b b'. abs_book b = example_book \<and>
    submit_limit_order FastOrderIdHash vector_emplace_back b 4 Buy 99 6 [] = Some (False, b', []) \<and>
    abs_book b' = example_book"
proof -
  obtain b where b: "wf_clob FastOrderIdHash b" "abs_book b = example_book" using example_exists by blast
  obtain b' where run: "submit_limit_order FastOrderIdHash vector_emplace_back b 4 Buy 99 6 [] = Some (False, b', [])"
    using vector_sink.submit_reports [OF b(1), of 4 Buy 99 6 False _ "[]" "[]"]
    by (auto simp: b(2) example_book_def spec_eval)
  from rejected_submit_changes_nothing [OF b(1) _ run] b(2) run show ?thesis by auto
qed

text \<open>C17: an order that rested without trading can be cancelled at once, which restores the
  book exactly.\<close>

theorem submit_cancel_roundtrip:
  assumes "wf_clob hash b" and "oid \<noteq> 0"
    and "submit_limit_order hash vector_emplace_back b oid s p q [] = Some (True, b1, [])"
  shows "\<exists>b2. cancel_order hash b1 oid = Some (True, b2) \<and> abs_book b2 = abs_book b \<and> wf_clob hash b2"
proof -
  obtain ok bk es where spec: "spec_submit (abs_book b) oid s p q = (ok, bk, es)" by (metis prod.exhaust)
  have run: "bk = abs_book b1" "es = []" "ok = True" and wf: "wf_clob hash b1"
    using vector_sink.submit_reports [OF assms(1,2) spec, of "[]"] assms(3) by auto
  have "spec_cancel (abs_book b1) oid = (True, abs_book b)"
    using spec_submit_cancel [OF wf_book_ok [OF assms(1)]] spec unfolding run by blast
  then show ?thesis using cancel_wf [OF wf assms(2)] by (metis prod.inject)
qed

theorem submit_cancel_roundtrip_witness:
  "\<exists>b b1 b2. abs_book b = example_book \<and>
    submit_limit_order FastOrderIdHash vector_emplace_back b 4 Buy 104 6 [] = Some (True, b1, []) \<and>
    bids (abs_book b1) = [(4, 104, 6), (3, 101, 4)] \<and>
    cancel_order FastOrderIdHash b1 4 = Some (True, b2) \<and> abs_book b2 = example_book"
proof -
  obtain b where b: "wf_clob FastOrderIdHash b" "abs_book b = example_book" using example_exists by blast
  have "spec_submit example_book 4 Buy 104 6 = (True, example_book\<lparr>bids := [(4, 104, 6), (3, 101, 4)]\<rparr>, [])"
    by (simp add: example_book_def spec_eval)
  then obtain b1 where run: "submit_limit_order FastOrderIdHash vector_emplace_back b 4 Buy 104 6 [] = Some (True, b1, [])"
    and bk: "abs_book b1 = example_book\<lparr>bids := [(4, 104, 6), (3, 101, 4)]\<rparr>"
    by (rule example_submit [OF b, of 4, rotated]) (rule that, simp_all)
  obtain b2 where "cancel_order FastOrderIdHash b1 4 = Some (True, b2)" "abs_book b2 = abs_book b"
    using submit_cancel_roundtrip [OF b(1) _ run] by auto
  moreover from bk have "bids (abs_book b1) = [(4, 104, 6), (3, 101, 4)]" by simp
  ultimately show ?thesis using b(2) run by (intro exI [of _ b] exI [of _ b1] exI [of _ b2]) simp
qed

text \<open>C21: the sink does not influence the engine. With any sink the result and the book are
  those of the null sink, and what is reported to it, one call each and in order, is what a
  vector records; a submission faults only if the sink refuses one of those reports.\<close>

theorem sink_independence:
  assumes "wf_clob hash b" and "oid \<noteq> 0"
  shows "\<exists>ok b' es. submit_limit_order hash null_emplace_back b oid s p q () = Some (ok, b', ()) \<and>
    submit_limit_order hash vector_emplace_back b oid s p q [] = Some (ok, b', es) \<and>
    (\<forall>ex. submit_limit_order hash em b oid s p q ex = do { ex' \<leftarrow> emit_all em ex es; Some (ok, b', ex') })"
proof -
  obtain ok b' es where 1: "spec_submit (abs_book b) oid s p q = (ok, abs_book b', es)"
      "submit_limit_order hash null_emplace_back b oid s p q () = Some (ok, b', ())"
      "\<And>ex. submit_limit_order hash em b oid s p q ex = do { ex' \<leftarrow> emit_all em ex es; Some (ok, b', ex') }"
    by (rule submit_wf [OF assms, of s p q em]) (rule that)
  obtain ok2 b2 es2 where 2: "spec_submit (abs_book b) oid s p q = (ok2, abs_book b2, es2)"
      "submit_limit_order hash null_emplace_back b oid s p q () = Some (ok2, b2, ())"
      "\<And>ex. submit_limit_order hash vector_emplace_back b oid s p q ex =
        do { ex' \<leftarrow> emit_all vector_emplace_back ex es2; Some (ok2, b2, ex') }"
    by (rule submit_wf [OF assms, of s p q vector_emplace_back]) (rule that)
  have "ok2 = ok" "b2 = b'" "es2 = es" using 1(1,2) 2(1,2) by simp_all
  then have "submit_limit_order hash vector_emplace_back b oid s p q [] = Some (ok, b', es)"
    using 2(3) vector_sink.emit_all_reports [of "[]" es] by auto
  with 1 show ?thesis by blast
qed

theorem sink_independence_witness:
  "\<exists>b ok b' es. abs_book b = example_book \<and>
    submit_limit_order RobustOrderIdHash vector_emplace_back b 4 Buy 105 6 [] = Some (ok, b', es) \<and>
    submit_limit_order RobustOrderIdHash buffer_emplace_back b 4 Buy 105 6 (buffer_reserve buffer_new 2) =
      do { ex' \<leftarrow> emit_all buffer_emplace_back (buffer_reserve buffer_new 2) es; Some (ok, b', ex') }"
proof -
  obtain b where b: "wf_clob RobustOrderIdHash b" "abs_book b = example_book" using example_exists by blast
  from sink_independence [OF b(1), of 4 Buy 105 6 buffer_emplace_back] b(2) show ?thesis by auto
qed

text \<open>C20: a submission overruns a raw buffer exactly when the buffer has less room left than the
  submission has executions to report. With that room the buffer holds exactly these executions
  behind what it held, and the book is as with any other sink. There are never more executions
  than active orders, so a buffer reserved for the reports it holds and one per active order
  is never overrun.\<close>

theorem raw_buffer_suffices:
  assumes "wf_clob hash b" and "oid \<noteq> 0" and "buffer_ok buf"
    and "spec_submit (abs_book b) oid s p q = (ok, bk, es)"
  shows "(submit_limit_order hash buffer_emplace_back b oid s p q buf = None \<longleftrightarrow>
      unat (buf_capacity buf) < unat (buffer_size buf) + length es) \<and>
    (unat (buffer_size buf) + length es \<le> unat (buf_capacity buf) \<longrightarrow>
      (\<exists>b' buf'. submit_limit_order hash buffer_emplace_back b oid s p q buf = Some (ok, b', buf') \<and>
        abs_book b' = bk \<and> wf_clob hash b' \<and> buffer_ok buf' \<and> buffer_reports buf' = buffer_reports buf @ es)) \<and>
    length es \<le> unat (active_orders b) \<and>
    (\<forall>n. unat (buffer_size buf) + unat (active_orders b) \<le> unat n \<longrightarrow>
      (\<exists>b' buf'. submit_limit_order hash buffer_emplace_back b oid s p q (buffer_reserve buf n) = Some (ok, b', buf') \<and>
        abs_book b' = bk \<and> wf_clob hash b' \<and> buffer_ok buf' \<and> buffer_reports buf' = buffer_reports buf @ es))"
proof -
  have fits: "\<exists>b' buf'. submit_limit_order hash buffer_emplace_back b oid s p q w = Some (ok, b', buf') \<and>
      abs_book b' = bk \<and> wf_clob hash b' \<and> buffer_ok buf' \<and> buffer_reports buf' = buffer_reports w @ es"
    if "buffer_ok w" "buffer_fits w (length es)" for w
    by (rule buffer_sink.submit_reports [OF assms(1,2,4) that]) blast
  have overrun: "submit_limit_order hash buffer_emplace_back b oid s p q buf = None" if "\<not> buffer_fits buf (length es)"
    by (rule submit_wf [OF assms(1,2), of s p q buffer_emplace_back])
       (use emit_all_overrun [OF assms(3) that] assms(4) in simp)
  have "length es \<le> length (side_of (abs_book b) (opposite s))"
    by (rule spec_submit_outcome [OF wf_book_ok [OF assms(1)] assms(4)]) (use fills_priority in blast)
  also have "\<dots> \<le> unat (active_orders b)"
    using counts_eq(1) [OF assms(1)] resting_count_side [of "abs_book b" s] by simp
  finally have le: "length es \<le> unat (active_orders b)" .
  have "\<exists>b' buf'. submit_limit_order hash buffer_emplace_back b oid s p q (buffer_reserve buf n) = Some (ok, b', buf') \<and>
      abs_book b' = bk \<and> wf_clob hash b' \<and> buffer_ok buf' \<and> buffer_reports buf' = buffer_reports buf @ es"
    if "unat (buffer_size buf) + unat (active_orders b) \<le> unat n" for n
    using fits [OF buffer_reserved(1,3) [OF assms(3)], of n] le that buffer_reserved(2) [OF assms(3), of n]
    by (simp add: buffer_size_def)
  moreover have "buffer_fits buf (length es) \<longleftrightarrow> \<not> unat (buf_capacity buf) < unat (buffer_size buf) + length es"
    by (simp add: buffer_fits_def buffer_size_def not_less)
  ultimately show ?thesis using fits [OF assms(3)] overrun le by (auto simp: not_less)
qed

text \<open>Two executions: a buffer with two places holds them, one with a single place is overrun.\<close>

theorem raw_buffer_suffices_witness:
  "\<exists>b ok b' buf'. abs_book b = example_book \<and>
    submit_limit_order FastOrderIdHash buffer_emplace_back b 4 Buy 105 6 (buffer_reserve buffer_new 2) =
      Some (ok, b', buf') \<and> buffer_reports buf' = [mk_execution 4 1 105 5, mk_execution 4 2 105 1] \<and>
    submit_limit_order FastOrderIdHash buffer_emplace_back b 4 Buy 105 6 (buffer_reserve buffer_new 1) = None"
proof -
  obtain b where b: "wf_clob FastOrderIdHash b" "abs_book b = example_book" using example_exists by blast
  have spec: "spec_submit (abs_book b) 4 Buy 105 6 =
      (True, example_book\<lparr>asks := [(2, 105, 2)]\<rparr>, [mk_execution 4 1 105 5, mk_execution 4 2 105 1])"
    by (simp add: b(2) example_book_def spec_eval)
  have new: "buffer_ok (buffer_reserve buffer_new n)" "buffer_reports (buffer_reserve buffer_new n) = []"
    "buffer_size (buffer_reserve buffer_new n) = 0" "buf_capacity (buffer_reserve buffer_new n) = n" for n :: size_t
    using buffer_reserved [of buffer_new]
    by (simp_all add: buffer_ok_def buffer_new_def buffer_reports_def buffer_size_def buffer_reserve_def)
  from raw_buffer_suffices [OF b(1) _ new(1) spec, of 2] raw_buffer_suffices [OF b(1) _ new(1) spec, of 1]
  show ?thesis using b(2) by (simp add: new) blast
qed

subsection \<open>Queries, construction and direct insertion\<close>

text \<open>C18: on a well-formed book every query runs without a fault and answers as the abstract
  book does: the best price of a side with its total quantity, and at any price, in the
  range or not, the total quantity, the number of orders and the oldest and newest id.\<close>

theorem queries_refine:
  assumes "wf_clob hash b"
  shows "best_bid b = Some (spec_best (abs_book b) Buy) \<and> best_ask b = Some (spec_best (abs_book b) Sell) \<and>
    quantity_at b s p = Some (level_qty (abs_book b) s p) \<and>
    map_option unat (order_count_at b s p) = Some (length (at_price (abs_book b) s p)) \<and>
    front_order_id b s p = Some (case at_price (abs_book b) s p of [] \<Rightarrow> None | r # _ \<Rightarrow> Some (rest_id r)) \<and>
    back_order_id b s p = Some (if at_price (abs_book b) s p = [] then None
      else Some (rest_id (last (at_price (abs_book b) s p))))"
  using best_eq [OF assms] quantity_at_eq [OF assms] order_count_at_eq [OF assms] front_back_eq [OF assms]
  by blast

theorem queries_refine_witness:
  "\<exists>b. abs_book b = example_book \<and> best_ask b = Some (Some (105, 8)) \<and> quantity_at b Buy 101 = Some 4 \<and>
    quantity_at b Buy 999 = Some 0 \<and> front_order_id b Sell 105 = Some (Some 1) \<and>
    back_order_id b Sell 105 = Some (Some 2)"
proof -
  obtain b where b: "wf_clob FastOrderIdHash b" "abs_book b = example_book" using example_exists by blast
  have "best_ask b = Some (Some (105, 8))" "front_order_id b Sell 105 = Some (Some 1)"
    "back_order_id b Sell 105 = Some (Some 2)"
    using queries_refine [OF b(1), of Sell 105]
    by (simp_all add: b(2) example_book_def spec_best_def level_qty_def at_price_def side_of_def)
  moreover have "quantity_at b Buy 101 = Some 4" "quantity_at b Buy 999 = Some 0"
    using queries_refine [OF b(1), of Buy 101] queries_refine [OF b(1), of Buy 999]
    by (simp_all add: b(2) example_book_def level_qty_def at_price_def side_of_def)
  ultimately show ?thesis using b(2) by blast
qed

text \<open>The order counters agree with the book: active orders are the resting ones, available
  slots the rest of the capacity, and the book is empty when nothing rests.\<close>

theorem counters_refine:
  assumes "wf_clob hash b"
  shows "unat (active_orders b) = resting_count (abs_book b) \<and>
    unat (active_orders b) + unat (available_slots b) = slots (abs_book b) \<and>
    (clob_empty b \<longleftrightarrow> book_ids (abs_book b) = {})"
proof -
  have "book_ids (abs_book b) = {} \<longleftrightarrow> resting_count (abs_book b) = 0"
    by (auto simp: book_ids_def resting_count_def)
  then show ?thesis using counts_eq [OF assms] by auto
qed

theorem counters_refine_witness:
  "\<exists>b. abs_book b = example_book \<and> unat (active_orders b) = 3 \<and> unat (available_slots b) = 1 \<and> \<not> clob_empty b"
proof -
  obtain b where b: "wf_clob FastOrderIdHash b" "abs_book b = example_book" using example_exists by blast
  from counters_refine [OF b(1)] b(2) show ?thesis
    by (intro exI [of _ b]) (simp add: example_book_def resting_count_def book_ids_def)
qed

text \<open>C19: time priority on insertion. \<open>add_order\<close> never faults on a well-formed book; a refused
  order changes nothing, and an accepted one is the last of the orders at its price, all
  other orders keeping their places.\<close>

theorem add_order_goes_last:
  assumes "wf_clob hash b" and "oid \<noteq> 0"
  shows "\<exists>ok b'. add_order hash b oid s p q = Some (ok, b') \<and> wf_clob hash b' \<and>
    (ok \<longleftrightarrow> q \<noteq> 0 \<and> valid_price b p \<and> available_slots b \<noteq> 0 \<and> oid \<notin> book_ids (abs_book b)) \<and>
    (\<not> ok \<longrightarrow> abs_book b' = abs_book b) \<and>
    at_price (abs_book b') t r = at_price (abs_book b) t r @ (if ok \<and> t = s \<and> r = p then [(oid, p, q)] else [])"
proof -
  obtain Q where "clob_inv hash b Q" using assms(1) by (auto simp: wf_clob_def)
  then obtain ok b' Q' where run: "add_order hash b oid s p q = Some (ok, b')" "clob_inv hash b' Q'"
      "spec_add (abs_book b) oid s p q = (ok, abs_book b')"
    by (rule add_refines [OF _ assms(2)])
  have full: "available_slots b \<noteq> 0 \<longleftrightarrow> resting_count (abs_book b) \<noteq> slots (abs_book b)"
    using counts_eq(2,4) [OF assms(1)] unat_eq_zero [of "available_slots b"] by linarith
  have valid: "book_valid_price (abs_book b) p \<longleftrightarrow> valid_price b p"
    by (simp add: book_valid_price_def valid_price_def abs_book_def)
  have "sorted_side s (side_of (abs_book b) s)"
    using book_ok_sides(1) [OF wf_book_ok [OF assms(1)], of s] by (simp add: book_sides_ok_def)
  note last = at_price_enqueue [OF this, of r "(oid, p, q)"]
  have "(ok \<longleftrightarrow> q \<noteq> 0 \<and> valid_price b p \<and> available_slots b \<noteq> 0 \<and> oid \<notin> book_ids (abs_book b)) \<and>
    (\<not> ok \<longrightarrow> abs_book b' = abs_book b) \<and>
    at_price (abs_book b') t r = at_price (abs_book b) t r @ (if ok \<and> t = s \<and> r = p then [(oid, p, q)] else [])"
  proof (cases rule: spec_add_cases [of "abs_book b" oid s p q])
    case refused
    then show ?thesis using run(3) full valid by auto
  next
    case added
    then have "ok" and bk: "abs_book b' = set_side (abs_book b) s (enqueue s (oid, p, q) (side_of (abs_book b) s))"
      using run(3) by simp_all
    moreover have "at_price (abs_book b') t r = at_price (abs_book b) t r @ (if t = s \<and> r = p then [(oid, p, q)] else [])"
      unfolding at_price_def bk using last by (cases "t = s") auto
    ultimately show ?thesis using added full valid by simp
  qed
  then show ?thesis using run by blast
qed

theorem add_order_goes_last_witness:
  "\<exists>b b'. abs_book b = example_book \<and> add_order FastOrderIdHash b 9 Sell 105 7 = Some (True, b') \<and>
    at_price (abs_book b') Sell 105 = [(1, 105, 5), (2, 105, 3), (9, 105, 7)]"
proof -
  obtain b where b: "wf_clob FastOrderIdHash b" "abs_book b = example_book" using example_exists by blast
  have "9 \<notin> book_ids (abs_book b)" by (simp add: b(2) example_book_def book_ids_def)
  moreover have "valid_price b 105"
    using b(2) by (simp add: valid_price_def abs_book_def example_book_def)
  moreover have "available_slots b \<noteq> 0"
    using counts_eq [OF b(1)] by (auto simp: b(2) example_book_def resting_count_def)
  moreover have "at_price (abs_book b) Sell 105 = [(1, 105, 5), (2, 105, 3)]"
    by (simp add: b(2) example_book_def at_price_def side_of_def)
  ultimately show ?thesis using add_order_goes_last [OF b(1), of 9 Sell 105 7 Sell 105] b(2) by auto
qed

text \<open>For a pool size and range the class may be instantiated with, the constructor gives a
  well-formed book that is empty on both sides at every price and has all its slots available.\<close>

theorem constructor_gives_empty_book:
  assumes "params_ok n lo hi"
  shows "\<exists>b. fixed_clob_new ks vs n lo hi = Some b \<and> wf_clob hash b \<and> abs_book b = spec_new n lo hi \<and>
    clob_empty b \<and> available_slots b = n \<and> best_bid b = Some None \<and> best_ask b = Some None \<and>
    quantity_at b s p = Some 0 \<and> front_order_id b s p = Some None"
proof -
  obtain b where b: "fixed_clob_new ks vs n lo hi = Some b" "wf_clob hash b" "abs_book b = spec_new n lo hi"
    by (rule new_wf [OF assms])
  have none: "side_of (spec_new n lo hi) t = []" for t by (cases t) (simp_all add: spec_new_def side_of_def)
  have "unat (available_slots b) = unat n" "clob_empty b"
    using counts_eq [OF b(2)] by (simp_all add: b(3) spec_new_def resting_count_def)
  moreover have "best_bid b = Some None" "best_ask b = Some None" "quantity_at b s p = Some 0"
      "front_order_id b s p = Some None"
    using best_eq [OF b(2)] quantity_at_eq [OF b(2)] front_back_eq(1) [OF b(2)]
    by (simp_all add: b(3) spec_best_def level_qty_def at_price_def none)
  ultimately show ?thesis using b by (auto simp: unat_inject)
qed

theorem constructor_gives_empty_book_witness:
  "\<exists>b. fixed_clob_new (\<lambda>_. 7) (\<lambda>_. 9) (2 ^ 20) 8000 12000 = Some b \<and> clob_empty b \<and>
    available_slots b = 2 ^ 20 \<and> best_bid b = Some None"
proof -
  have "params_ok (2 ^ 20) 8000 12000" by (simp add: params_ok_def) code_simp
  from constructor_gives_empty_book [OF this] show ?thesis by blast
qed

end
