(* ===== verification/Index_Sessions.thy ===== *)
theory Index_Sessions
  imports Order_Index
begin

text \<open>
  Sequences of operations on the order index, against a finite map with a bound on its
  size. The answers a client sees are the map's: neither the hash, nor collisions, nor the
  deletion marks that earlier erasures left, nor what the key and value arrays held before
  construction can be observed.
\<close>

datatype index_op =
    Insert OrderId OrderIndex
  | Find OrderId
  | Erase OrderId
  | Contains OrderId
  | Clear
  | Size

datatype index_answer =
    Inserted bool
  | Found "OrderIndex option"
  | Erased bool
  | Contained bool
  | Cleared
  | Sized size_t

fun index_step :: "hash_fn \<Rightarrow> FixedOrderIndex \<Rightarrow> index_op \<Rightarrow> (index_answer \<times> FixedOrderIndex) option" where
  "index_step hash t (Insert k v) = do { (ok, t) \<leftarrow> index_insert hash t k v; Some (Inserted ok, t) }"
| "index_step hash t (Find k) = do { r \<leftarrow> index_find hash t k; Some (Found r, t) }"
| "index_step hash t (Erase k) = do { (ok, t) \<leftarrow> index_erase hash t k; Some (Erased ok, t) }"
| "index_step hash t (Contains k) = do { r \<leftarrow> index_contains hash t k; Some (Contained r, t) }"
| "index_step hash t Clear = Some (Cleared, index_clear t)"
| "index_step hash t Size = Some (Sized (index_size t), t)"

fun index_run :: "hash_fn \<Rightarrow> FixedOrderIndex \<Rightarrow> index_op list \<Rightarrow> (index_answer list \<times> FixedOrderIndex) option" where
  "index_run hash t [] = Some ([], t)"
| "index_run hash t (c # cs) = do {
     (r, t) \<leftarrow> index_step hash t c;
     (rs, t) \<leftarrow> index_run hash t cs;
     Some (r # rs, t)
   }"

text \<open>The same on a map of at most \<open>n\<close> entries, \<open>s\<close> of them at present.\<close>

fun map_step :: "nat \<Rightarrow> (OrderId \<rightharpoonup> OrderIndex) \<times> nat \<Rightarrow> index_op
    \<Rightarrow> index_answer \<times> (OrderId \<rightharpoonup> OrderIndex) \<times> nat" where
  "map_step n (m, s) (Insert k v) =
     (if m k = None \<and> s < n then (Inserted True, m(k \<mapsto> v), Suc s) else (Inserted False, m, s))"
| "map_step n (m, s) (Find k) = (Found (m k), m, s)"
| "map_step n (m, s) (Erase k) =
     (if m k \<noteq> None then (Erased True, m(k := None), s - 1) else (Erased False, m, s))"
| "map_step n (m, s) (Contains k) = (Contained (m k \<noteq> None), m, s)"
| "map_step n (m, s) Clear = (Cleared, Map.empty, 0)"
| "map_step n (m, s) Size = (Sized (word_of_nat s), m, s)"

fun map_run :: "nat \<Rightarrow> (OrderId \<rightharpoonup> OrderIndex) \<times> nat \<Rightarrow> index_op list \<Rightarrow> index_answer list" where
  "map_run n ms [] = []"
| "map_run n ms (c # cs) = (case map_step n ms c of (r, ms') \<Rightarrow> r # map_run n ms' cs)"

text \<open>The assertion of the operations: id 0 is not a key.\<close>

fun op_ok :: "index_op \<Rightarrow> bool" where
  "op_ok (Insert k v) \<longleftrightarrow> k \<noteq> 0"
| "op_ok (Find k) \<longleftrightarrow> k \<noteq> 0"
| "op_ok (Erase k) \<longleftrightarrow> k \<noteq> 0"
| "op_ok (Contains k) \<longleftrightarrow> k \<noteq> 0"
| "op_ok _ \<longleftrightarrow> True"

lemma index_clear_run:
  assumes "index_inv hash t"
  shows "index_inv hash (index_clear t)" and "index_map (index_clear t) = Map.empty"
    and "capacity (index_clear t) = capacity t"
proof -
  have none: "occupied (index_clear t) = {}" by (auto simp: occupied_def index_clear_def)
  then show "index_inv hash (index_clear t)"
    using assms by (auto simp: index_inv_def index_shape_def) (simp_all add: index_clear_def)
  show "index_map (index_clear t) = Map.empty"
    using none index_map_None_iff [of "index_clear t"] by (auto simp: fun_eq_iff)
  show "capacity (index_clear t) = capacity t" by (simp add: index_clear_def)
qed

lemma word_of_nat_unat_id: "word_of_nat (unat w) = (w :: size_t)"
  by simp

lemma index_size_eq:
  assumes "index_inv hash t"
  shows "index_size t = word_of_nat (card (dom (index_map t)))"
proof -
  have "unat (idx_size t) = card (dom (index_map t))"
    using assms card_dom_index_map [OF assms] by (simp add: index_inv_def)
  then show ?thesis unfolding index_size_def by (metis word_of_nat_unat_id)
qed

lemma finite_index_map [simp, intro]: "finite (dom (index_map t))"
  by (simp add: dom_index_map)

lemma index_step_run:
  assumes inv: "index_inv hash t" and ok: "op_ok c"
  shows "\<exists>r t'. index_step hash t c = Some (r, t') \<and> index_inv hash t' \<and> capacity t' = capacity t \<and>
    map_step (unat (capacity t)) (index_map t, card (dom (index_map t))) c =
      (r, index_map t', card (dom (index_map t')))"
proof (cases c)
  case (Insert k v)
  then have k: "k \<noteq> 0" using ok by simp
  consider (dup) "index_map t k \<noteq> None"
    | (new) "index_map t k = None" "card (dom (index_map t)) < unat (capacity t)"
    | (full) "index_map t k = None" "card (dom (index_map t)) = unat (capacity t)"
    using foi.bounded [OF inv] by linarith
  then show ?thesis
  proof cases
    case dup
    then show ?thesis using foi.ins_dup [OF inv k dup] inv Insert by simp
  next
    case new
    show ?thesis
      by (rule index_insert_new [OF inv new(1) k new(2), of v])
         (use Insert new in \<open>simp add: domIff\<close>)
  next
    case full
    then show ?thesis using foi.ins_full [OF inv k full] inv Insert by simp
  qed
next
  case (Erase k)
  then have k: "k \<noteq> 0" using ok by simp
  show ?thesis
  proof (cases "index_map t k")
    case None
    then show ?thesis using foi.del_miss [OF inv k None] inv Erase by simp
  next
    case (Some v)
    show ?thesis
      by (rule index_erase_hit [OF inv Some k]) (use Erase Some in \<open>simp add: domIff card_Diff_singleton\<close>)
  qed
qed (use ok inv in \<open>auto simp: index_contains_iff [OF inv] index_clear_run index_size_eq [OF inv]\<close>)

lemma index_run_refines:
  "index_inv hash t \<Longrightarrow> \<forall>c \<in> set cs. op_ok c \<Longrightarrow>
   \<exists>t'. index_run hash t cs = Some (map_run (unat (capacity t)) (index_map t, card (dom (index_map t))) cs, t') \<and>
     index_inv hash t' \<and> capacity t' = capacity t"
proof (induction cs arbitrary: t)
  case (Cons c cs)
  obtain r t1 where 1: "index_step hash t c = Some (r, t1)" "index_inv hash t1" "capacity t1 = capacity t"
      "map_step (unat (capacity t)) (index_map t, card (dom (index_map t))) c =
        (r, index_map t1, card (dom (index_map t1)))"
    using index_step_run [OF Cons.prems(1), of c] Cons.prems(2) by auto
  then show ?case using Cons.IH [OF 1(2)] Cons.prems(2) by auto
qed simp

text \<open>C15: a new table, for any power-of-two capacity and any initial memory, runs any sequence
  of operations with nonzero ids without a fault and answers each as a finite map of bounded
  size does, deletions, reinsertions over deletion marks and a full table included.\<close>

theorem index_session_is_map:
  assumes "has_single_bit cap" and "1 < cap" and "\<forall>c \<in> set cs. op_ok c"
  shows "\<exists>t. index_run hash (order_index_new ks vs cap) cs = Some (map_run (unat cap) (Map.empty, 0) cs, t)"
proof -
  have "1 < unat cap" using assms(2) by (simp add: word_less_nat_alt)
  note new = index_inv_new [OF assms(1) this]
  from index_run_refines [OF new(1) assms(3)] show ?thesis by (simp add: new(2,3)) blast
qed

theorem index_session_is_map_witness:
  "\<exists>t. index_run FastOrderIdHash (order_index_new (\<lambda>_. 5) (\<lambda>_. 6) 2)
     [Insert 5 1, Insert 7 2, Insert 9 3, Erase 5, Insert 9 3, Find 9, Find 5, Size] =
   Some ([Inserted True, Inserted True, Inserted False, Erased True, Inserted True, Found (Some 3), Found None, Sized 2], t)"
proof -
  have cap: "has_single_bit (2 :: size_t)" by code_simp
  have "\<forall>c \<in> set [Insert 5 1, Insert 7 2, Insert 9 3, Erase 5, Insert 9 3, Find 9, Find 5, Size]. op_ok c" by simp
  from index_session_is_map [OF cap _ this, of FastOrderIdHash "\<lambda>_. 5" "\<lambda>_. 6"] show ?thesis by simp
qed

end
