(* ===== verification/Fifo_Queue.thy ===== *)
theory Fifo_Queue
  imports Prelude
begin

text \<open>
  The interface the pipeline uses of a bounded queue between two threads, and its
  contract: an operation either finds the queue full (empty) and changes nothing, or
  appends (removes) at the right end; a batch operation moves a non-empty prefix of
  what it could move (\<open>batch_queue\<close>), or all of it (\<open>exact_queue\<close>). Both rings of the repository
  provide the first, the plain ring with fresh loads the second.
\<close>

text \<open>
  A single thread's operations, with the answer each one gets: whether a push succeeded;
  whether a pop did, with the variable it was given afterwards; how many items a batch moved,
  with the caller's buffer after a batch of pops. A batch is given a buffer and a count within it.
  \<open>apply_op\<close> also returns the variable the next pop writes to; \<open>list_op\<close> is the same
  operation on a list of at most \<open>n\<close> items.
\<close>

datatype 'a queue_op = Push 'a | Pop | PushMany "'a list" size_t | PopMany "'a list" size_t

datatype 'a queue_answer = Pushed bool | Popped bool 'a | PushedMany nat | PoppedMany nat "'a list"

fun batch_ok :: "'a queue_op \<Rightarrow> bool" where
  "batch_ok (PushMany ys m) = (unat m \<le> length ys)"
| "batch_ok (PopMany out m) = (unat m \<le> length out)"
| "batch_ok _ = True"

fun is_single :: "'a queue_op \<Rightarrow> bool" where
  "is_single (PushMany _ _) = False"
| "is_single (PopMany _ _) = False"
| "is_single _ = True"

fun apply_op :: "('q \<Rightarrow> 'a \<Rightarrow> (bool \<times> 'q) option) \<Rightarrow> ('q \<Rightarrow> 'a \<Rightarrow> (bool \<times> 'a \<times> 'q) option)
    \<Rightarrow> ('q \<Rightarrow> 'a list \<Rightarrow> size_t \<Rightarrow> (size_t \<times> 'q) option) \<Rightarrow> ('q \<Rightarrow> 'a list \<Rightarrow> size_t \<Rightarrow> (size_t \<times> 'a list \<times> 'q) option)
    \<Rightarrow> 'q \<Rightarrow> 'a \<Rightarrow> 'a queue_op \<Rightarrow> ('a queue_answer \<times> 'a \<times> 'q) option" where
  "apply_op push pop pushm popm q x (Push y) = do { (ok, q) \<leftarrow> push q y; Some (Pushed ok, x, q) }"
| "apply_op push pop pushm popm q x Pop = do { (ok, x, q) \<leftarrow> pop q x; Some (Popped ok x, x, q) }"
| "apply_op push pop pushm popm q x (PushMany ys m) = do { (k, q) \<leftarrow> pushm q ys m; Some (PushedMany (unat k), x, q) }"
| "apply_op push pop pushm popm q x (PopMany out m) = do { (k, out, q) \<leftarrow> popm q out m; Some (PoppedMany (unat k) out, x, q) }"

fun queue_run :: "('q \<Rightarrow> 'a \<Rightarrow> (bool \<times> 'q) option) \<Rightarrow> ('q \<Rightarrow> 'a \<Rightarrow> (bool \<times> 'a \<times> 'q) option)
    \<Rightarrow> ('q \<Rightarrow> 'a list \<Rightarrow> size_t \<Rightarrow> (size_t \<times> 'q) option) \<Rightarrow> ('q \<Rightarrow> 'a list \<Rightarrow> size_t \<Rightarrow> (size_t \<times> 'a list \<times> 'q) option)
    \<Rightarrow> 'q \<Rightarrow> 'a \<Rightarrow> 'a queue_op list \<Rightarrow> ('a queue_answer list \<times> 'q) option" where
  "queue_run push pop pushm popm q x [] = Some ([], q)"
| "queue_run push pop pushm popm q x (c # ops) = do {
     (a, x, q) \<leftarrow> apply_op push pop pushm popm q x c;
     (rs, q) \<leftarrow> queue_run push pop pushm popm q x ops;
     Some (a # rs, q)
   }"

fun list_op :: "nat \<Rightarrow> 'a list \<Rightarrow> 'a \<Rightarrow> 'a queue_op \<Rightarrow> 'a queue_answer \<times> 'a \<times> 'a list" where
  "list_op n xs x (Push y) = (if length xs < n then (Pushed True, x, xs @ [y]) else (Pushed False, x, xs))"
| "list_op n [] x Pop = (Popped False x, x, [])"
| "list_op n (z # zs) x Pop = (Popped True z, z, zs)"
| "list_op n xs x (PushMany ys m) = (let k = min (n - length xs) (unat m) in (PushedMany k, x, xs @ take k ys))"
| "list_op n xs x (PopMany out m) =
     (let k = min (length xs) (unat m) in (PoppedMany k (take k xs @ drop k out), x, drop k xs))"

fun list_run :: "nat \<Rightarrow> 'a list \<Rightarrow> 'a \<Rightarrow> 'a queue_op list \<Rightarrow> 'a queue_answer list \<times> 'a list" where
  "list_run n xs x [] = ([], xs)"
| "list_run n xs x (c # ops) = (let (a, x, xs) = list_op n xs x c; (rs, ys) = list_run n xs x ops in (a # rs, ys))"

text \<open>
  What a bounded first-in first-out queue may answer: a single operation as the list does, a batch
  with any number of items up to those the list moves, but not with none when there are some.
\<close>

fun op_allowed :: "nat \<Rightarrow> 'a list \<Rightarrow> 'a \<Rightarrow> 'a queue_op \<Rightarrow> 'a queue_answer \<times> 'a \<times> 'a list \<Rightarrow> bool" where
  "op_allowed n xs x (PushMany ys m) (PushedMany k, y, zs) \<longleftrightarrow>
     k \<le> min (n - length xs) (unat m) \<and> (k = 0 \<longrightarrow> min (n - length xs) (unat m) = 0) \<and> y = x \<and> zs = xs @ take k ys"
| "op_allowed n xs x (PopMany out m) (PoppedMany k out', y, zs) \<longleftrightarrow>
     k \<le> min (length xs) (unat m) \<and> (k = 0 \<longrightarrow> min (length xs) (unat m) = 0) \<and>
     out' = take k xs @ drop k out \<and> y = x \<and> zs = drop k xs"
| "op_allowed n xs x c r \<longleftrightarrow> r = list_op n xs x c"

inductive run_allowed :: "nat \<Rightarrow> 'a list \<Rightarrow> 'a \<Rightarrow> 'a queue_op list \<Rightarrow> 'a queue_answer list \<Rightarrow> 'a list \<Rightarrow> bool" for n where
  none: "run_allowed n xs x [] [] xs"
| some: "op_allowed n xs x c (a, y, ys) \<Longrightarrow> run_allowed n ys y ops rs zs \<Longrightarrow> run_allowed n xs x (c # ops) (a # rs) zs"

lemma op_allowed_single: "is_single c \<Longrightarrow> op_allowed n xs x c r \<longleftrightarrow> r = list_op n xs x c"
  by (cases c) auto

text \<open>Single operations leave no choice.\<close>

lemma run_allowed_single:
  assumes "run_allowed n xs x ops rs ys" and "list_all is_single ops"
  shows "list_run n xs x ops = (rs, ys)"
  using assms by (induction rule: run_allowed.induct) (auto simp: op_allowed_single Let_def split: prod.splits)

locale fifo_queue =
  fixes qinv :: "'q \<Rightarrow> bool"
    and items :: "'q \<Rightarrow> 'a list"
    and room :: "'q \<Rightarrow> nat"
    and push :: "'q \<Rightarrow> 'a \<Rightarrow> (bool \<times> 'q) option"
    and pop :: "'q \<Rightarrow> 'a \<Rightarrow> (bool \<times> 'a \<times> 'q) option"
  assumes push_law: "qinv q \<Longrightarrow>
      (if length (items q) = room q then \<exists>q'. push q x = Some (False, q') \<and> qinv q' \<and> items q' = items q \<and> room q' = room q
       else \<exists>q'. push q x = Some (True, q') \<and> qinv q' \<and> items q' = items q @ [x] \<and> room q' = room q)"
    and pop_law: "qinv q \<Longrightarrow>
      (case items q of
         [] \<Rightarrow> \<exists>q'. pop q x = Some (False, x, q') \<and> qinv q' \<and> items q' = [] \<and> room q' = room q
       | y # ys \<Rightarrow> \<exists>q'. pop q x = Some (True, y, q') \<and> qinv q' \<and> items q' = ys \<and> room q' = room q)"
    and room_law: "qinv q \<Longrightarrow> length (items q) \<le> room q \<and> 0 < room q"
begin

lemma push_cases:
  assumes "qinv q"
  obtains (full) q' where "push q x = Some (False, q')" "qinv q'" "items q' = items q" "room q' = room q"
      "length (items q) = room q"
  | (pushed) q' where "push q x = Some (True, q')" "qinv q'" "items q' = items q @ [x]" "room q' = room q"
      "length (items q) < room q"
  using push_law [OF assms, of x] room_law [OF assms] by (cases "length (items q) = room q") auto

lemma pop_cases:
  assumes "qinv q"
  obtains (empty) q' where "pop q x = Some (False, x, q')" "qinv q'" "items q' = []" "room q' = room q" "items q = []"
  | (popped) y ys q' where "pop q x = Some (True, y, q')" "qinv q'" "items q = y # ys" "items q' = ys" "room q' = room q"
  using pop_law [OF assms, of x] by (cases "items q") auto

text \<open>What was pushed comes out, in order: a queue filled with \<open>xs\<close> and emptied again.\<close>

fun push_all :: "'q \<Rightarrow> 'a list \<Rightarrow> 'q option" where
  "push_all q [] = Some q"
| "push_all q (x # xs) = do { (pushed, q') \<leftarrow> push q x; assert_that pushed; push_all q' xs }"

fun pop_n :: "'q \<Rightarrow> 'a \<Rightarrow> nat \<Rightarrow> ('a list \<times> 'q) option" where
  "pop_n q x 0 = Some ([], q)"
| "pop_n q x (Suc n) = do { (got, y, q') \<leftarrow> pop q x; assert_that got; (ys, q'') \<leftarrow> pop_n q' y n; Some (y # ys, q'') }"

lemma push_all_run:
  "qinv q \<Longrightarrow> length (items q) + length xs \<le> room q \<Longrightarrow>
   \<exists>q'. push_all q xs = Some q' \<and> qinv q' \<and> items q' = items q @ xs \<and> room q' = room q"
proof (induction xs arbitrary: q)
  case (Cons x xs)
  show ?case
  proof (rule push_cases [OF Cons.prems(1), of x])
    fix q' assume "push q x = Some (True, q')" "qinv q'" "items q' = items q @ [x]" "room q' = room q"
    then show ?thesis using Cons.IH [of q'] Cons.prems(2) by auto
  qed (use Cons.prems(2) in auto)
qed simp

lemma pop_n_run:
  "qinv q \<Longrightarrow> n \<le> length (items q) \<Longrightarrow>
   \<exists>q'. pop_n q x n = Some (take n (items q), q') \<and> qinv q' \<and> items q' = drop n (items q) \<and> room q' = room q"
proof (induction n arbitrary: q x)
  case (Suc n)
  show ?case
  proof (rule pop_cases [OF Suc.prems(1), of x])
    fix y ys q' assume "pop q x = Some (True, y, q')" "qinv q'" "items q = y # ys" "items q' = ys" "room q' = room q"
    then show ?thesis using Suc.IH [of q' y] Suc.prems(2) by auto
  qed (use Suc.prems(2) in auto)
qed simp

end

locale batch_queue = fifo_queue qinv items room push pop
  for qinv :: "'q \<Rightarrow> bool"
    and items :: "'q \<Rightarrow> 'a list"
    and room :: "'q \<Rightarrow> nat"
    and push :: "'q \<Rightarrow> 'a \<Rightarrow> (bool \<times> 'q) option"
    and pop :: "'q \<Rightarrow> 'a \<Rightarrow> (bool \<times> 'a \<times> 'q) option" +
  fixes push_many :: "'q \<Rightarrow> 'a list \<Rightarrow> size_t \<Rightarrow> (size_t \<times> 'q) option"
    and pop_many :: "'q \<Rightarrow> 'a list \<Rightarrow> size_t \<Rightarrow> (size_t \<times> 'a list \<times> 'q) option"
  assumes push_many_law: "qinv q \<Longrightarrow> unat n \<le> length xs \<Longrightarrow>
      \<exists>k q'. push_many q xs n = Some (k, q') \<and> qinv q' \<and> room q' = room q \<and> k \<le> n \<and>
        items q' = items q @ take (unat k) xs \<and> (0 < n \<and> length (items q) < room q \<longrightarrow> 0 < k)"
    and pop_many_law: "qinv q \<Longrightarrow> unat n \<le> length out \<Longrightarrow>
      \<exists>k q'. pop_many q out n = Some (k, take (unat k) (items q) @ drop (unat k) out, q') \<and>
        qinv q' \<and> room q' = room q \<and> k \<le> n \<and> unat k \<le> length (items q) \<and>
        items q' = drop (unat k) (items q) \<and> (0 < n \<and> items q \<noteq> [] \<longrightarrow> 0 < k)"
begin

lemma apply_op_allowed:
  assumes q: "qinv q" and c: "batch_ok c"
  shows "\<exists>a y q'. apply_op push pop push_many pop_many q x c = Some (a, y, q') \<and> qinv q' \<and> room q' = room q \<and>
    op_allowed (room q) (items q) x c (a, y, items q')"
proof (cases c)
  case (Push z)
  then show ?thesis by (cases rule: push_cases [OF q, of z]) auto
next
  case Pop
  then show ?thesis by (cases rule: pop_cases [OF q, of x]) auto
next
  case (PushMany ys m)
  then have m: "unat m \<le> length ys" using c by simp
  obtain k q' where run: "push_many q ys m = Some (k, q')" "qinv q'" "room q' = room q" "k \<le> m"
      "items q' = items q @ take (unat k) ys" "0 < m \<and> length (items q) < room q \<longrightarrow> 0 < k"
    using push_many_law [OF q m] by blast
  have k: "unat k \<le> unat m" using run(4) by (simp add: word_le_nat_alt)
  have "length (items q) + unat k \<le> room q" using room_law [OF run(2)] run(3,5) k m by simp
  moreover have "min (room q - length (items q)) (unat m) = 0" if "unat k = 0"
    using run(6) that by (auto simp: word_less_nat_alt)
  ultimately show ?thesis using PushMany run(1-3,5) k by auto
next
  case (PopMany out m)
  then have m: "unat m \<le> length out" using c by simp
  obtain k q' where run: "pop_many q out m = Some (k, take (unat k) (items q) @ drop (unat k) out, q')" "qinv q'"
      "room q' = room q" "k \<le> m" "unat k \<le> length (items q)" "items q' = drop (unat k) (items q)"
      "0 < m \<and> items q \<noteq> [] \<longrightarrow> 0 < k"
    using pop_many_law [OF q m] by blast
  have k: "unat k \<le> unat m" using run(4) by (simp add: word_le_nat_alt)
  moreover have "min (length (items q)) (unat m) = 0" if "unat k = 0"
    using run(7) that by (auto simp: word_less_nat_alt)
  ultimately show ?thesis using PopMany run(1-3,5,6) by auto
qed

lemma queue_run_allowed:
  "qinv q \<Longrightarrow> list_all batch_ok ops \<Longrightarrow>
   \<exists>rs q'. queue_run push pop push_many pop_many q x ops = Some (rs, q') \<and> qinv q' \<and> room q' = room q \<and>
     run_allowed (room q) (items q) x ops rs (items q')"
proof (induction ops arbitrary: q x)
  case (Cons c ops)
  from Cons.prems have "batch_ok c" and ops: "list_all batch_ok ops" by simp_all
  from apply_op_allowed [OF Cons.prems(1) this(1), of x] obtain a y q1 where
      1: "apply_op push pop push_many pop_many q x c = Some (a, y, q1)" "qinv q1" "room q1 = room q"
        "op_allowed (room q) (items q) x c (a, y, items q1)"
    by blast
  from Cons.IH [OF 1(2) ops, of y] obtain rs q' where
      "queue_run push pop push_many pop_many q1 y ops = Some (rs, q')" "qinv q'" "room q' = room q1"
      "run_allowed (room q1) (items q1) y ops rs (items q')"
    by blast
  then show ?case using 1 by (auto intro: run_allowed.some)
qed (auto intro: run_allowed.none)

end

text \<open>A queue whose batches move all there is to move, the caller's count permitting.\<close>

locale exact_queue = batch_queue qinv items room push pop push_many pop_many
  for qinv :: "'q \<Rightarrow> bool"
    and items :: "'q \<Rightarrow> 'a list"
    and room :: "'q \<Rightarrow> nat"
    and push :: "'q \<Rightarrow> 'a \<Rightarrow> (bool \<times> 'q) option"
    and pop :: "'q \<Rightarrow> 'a \<Rightarrow> (bool \<times> 'a \<times> 'q) option"
    and push_many :: "'q \<Rightarrow> 'a list \<Rightarrow> size_t \<Rightarrow> (size_t \<times> 'q) option"
    and pop_many :: "'q \<Rightarrow> 'a list \<Rightarrow> size_t \<Rightarrow> (size_t \<times> 'a list \<times> 'q) option" +
  assumes push_many_exact: "qinv q \<Longrightarrow> unat n \<le> length xs \<Longrightarrow> push_many q xs n = Some (k, q') \<Longrightarrow>
      unat k = min (room q - length (items q)) (unat n)"
    and pop_many_exact: "qinv q \<Longrightarrow> unat n \<le> length out \<Longrightarrow> pop_many q out n = Some (k, out', q') \<Longrightarrow>
      unat k = min (length (items q)) (unat n)"
begin

lemma apply_op_list:
  assumes "qinv q" and "batch_ok c"
  shows "\<exists>a y q'. apply_op push pop push_many pop_many q x c = Some (a, y, q') \<and> qinv q' \<and> room q' = room q \<and>
    list_op (room q) (items q) x c = (a, y, items q')"
proof -
  obtain a y q' where run: "apply_op push pop push_many pop_many q x c = Some (a, y, q')" "qinv q'" "room q' = room q"
      "op_allowed (room q) (items q) x c (a, y, items q')"
    using apply_op_allowed [OF assms, of x] by blast
  have "list_op (room q) (items q) x c = (a, y, items q')"
  proof (cases "is_single c")
    case True
    then show ?thesis using run(4) by (simp add: op_allowed_single)
  next
    case False
    then show ?thesis
    proof (cases c)
      case (PushMany ys m)
      obtain k q1 where k: "push_many q ys m = Some (k, q1)" "a = PushedMany (unat k)"
        using run(1) PushMany by (cases "push_many q ys m") auto
      have "unat k = min (room q - length (items q)) (unat m)"
        using push_many_exact [OF assms(1) _ k(1)] assms(2) PushMany by simp
      then show ?thesis using run(4) k(2) PushMany by (simp add: Let_def)
    next
      case (PopMany out m)
      obtain k out' q1 where k: "pop_many q out m = Some (k, out', q1)" "a = PoppedMany (unat k) out'"
        using run(1) PopMany by (cases "pop_many q out m") auto
      have "unat k = min (length (items q)) (unat m)"
        using pop_many_exact [OF assms(1) _ k(1)] assms(2) PopMany by simp
      then show ?thesis using run(4) k(2) PopMany by (simp add: Let_def)
    qed simp_all
  qed
  then show ?thesis using run(1-3) by blast
qed

lemma queue_run_list:
  "qinv q \<Longrightarrow> list_all batch_ok ops \<Longrightarrow>
   \<exists>q'. queue_run push pop push_many pop_many q x ops = Some (fst (list_run (room q) (items q) x ops), q') \<and>
     qinv q' \<and> items q' = snd (list_run (room q) (items q) x ops)"
proof (induction ops arbitrary: q x)
  case (Cons c ops)
  from Cons.prems have "batch_ok c" and ops: "list_all batch_ok ops" by simp_all
  from apply_op_list [OF Cons.prems(1) this(1), of x] obtain a y q1 where
      1: "apply_op push pop push_many pop_many q x c = Some (a, y, q1)" "qinv q1" "room q1 = room q"
        "list_op (room q) (items q) x c = (a, y, items q1)"
    by blast
  from Cons.IH [OF 1(2) ops, of y] 1 show ?case by (auto simp: Let_def split: prod.splits)
qed simp

end

text \<open>
  The same operations with a load of the other thread's counter that is \<open>s\<close> items behind, as an
  acquire load may be: such an operation may find less room (fewer items) than there is, but it
  still only appends and removes in order; with \<open>s = 0\<close> it is the operation above.
\<close>

locale stale_queue = batch_queue qinv items room push pop push_many pop_many
  for qinv :: "'q \<Rightarrow> bool"
    and items :: "'q \<Rightarrow> 'a list"
    and room :: "'q \<Rightarrow> nat"
    and push :: "'q \<Rightarrow> 'a \<Rightarrow> (bool \<times> 'q) option"
    and pop :: "'q \<Rightarrow> 'a \<Rightarrow> (bool \<times> 'a \<times> 'q) option"
    and push_many :: "'q \<Rightarrow> 'a list \<Rightarrow> size_t \<Rightarrow> (size_t \<times> 'q) option"
    and pop_many :: "'q \<Rightarrow> 'a list \<Rightarrow> size_t \<Rightarrow> (size_t \<times> 'a list \<times> 'q) option" +
  fixes push_at :: "nat \<Rightarrow> 'q \<Rightarrow> 'a \<Rightarrow> (bool \<times> 'q) option"
    and pop_at :: "nat \<Rightarrow> 'q \<Rightarrow> 'a \<Rightarrow> (bool \<times> 'a \<times> 'q) option"
    and push_many_at :: "nat \<Rightarrow> 'q \<Rightarrow> 'a list \<Rightarrow> size_t \<Rightarrow> (size_t \<times> 'q) option"
    and pop_many_at :: "nat \<Rightarrow> 'q \<Rightarrow> 'a list \<Rightarrow> size_t \<Rightarrow> (size_t \<times> 'a list \<times> 'q) option"
  assumes fresh: "push_at 0 q x = push q x" "pop_at 0 q x = pop q x"
      "push_many_at 0 q xs n = push_many q xs n" "pop_many_at 0 q xs n = pop_many q xs n"
    and push_at_law: "qinv q \<Longrightarrow>
      \<exists>ok q'. push_at s q x = Some (ok, q') \<and> qinv q' \<and> items q' = items q @ (if ok then [x] else [])"
    and pop_at_law: "qinv q \<Longrightarrow>
      \<exists>ok y q'. pop_at s q x = Some (ok, y, q') \<and> qinv q' \<and>
        (if ok then items q = y # items q' else y = x \<and> items q' = items q)"
    and push_many_at_law: "qinv q \<Longrightarrow> unat n \<le> length xs \<Longrightarrow>
      \<exists>k q'. push_many_at s q xs n = Some (k, q') \<and> qinv q' \<and> k \<le> n \<and> items q' = items q @ take (unat k) xs"
    and pop_many_at_law: "qinv q \<Longrightarrow> unat n \<le> length out \<Longrightarrow>
      \<exists>k q'. pop_many_at s q out n = Some (k, take (unat k) (items q) @ drop (unat k) out, q') \<and>
        qinv q' \<and> k \<le> n \<and> unat k \<le> length (items q) \<and> items q' = drop (unat k) (items q)"
begin

text \<open>Each operation, with what it achieves when its load was fresh.\<close>

lemma push_at_run:
  assumes "qinv q"
  obtains ok q' where "push_at s q x = Some (ok, q')" "qinv q'" "items q' = items q @ (if ok then [x] else [])"
    "s = 0 \<and> \<not> ok \<Longrightarrow> items q \<noteq> []"
proof -
  obtain ok q' where run: "push_at s q x = Some (ok, q')" "qinv q'" "items q' = items q @ (if ok then [x] else [])"
    using push_at_law [OF assms, of s x] by blast
  moreover have "items q \<noteq> []" if "s = 0 \<and> \<not> ok"
  proof (rule push_cases [OF assms, of x])
    fix q1 assume "length (items q) = room q"
    then show ?thesis using room_law [OF assms] by auto
  next
    fix q1 assume "push q x = Some (True, q1)"
    then show ?thesis using that run(1) fresh(1) [of q x] by simp
  qed
  ultimately show ?thesis by (rule that)
qed

lemma pop_at_run:
  assumes "qinv q"
  obtains ok y q' where "pop_at s q x = Some (ok, y, q')" "qinv q'"
    "if ok then items q = y # items q' else y = x \<and> items q' = items q" "s = 0 \<and> items q \<noteq> [] \<Longrightarrow> ok"
proof -
  obtain ok y q' where run: "pop_at s q x = Some (ok, y, q')" "qinv q'"
      "if ok then items q = y # items q' else y = x \<and> items q' = items q"
    using pop_at_law [OF assms, of s x] by blast
  moreover have "ok" if "s = 0 \<and> items q \<noteq> []"
    by (rule pop_cases [OF assms, of x]) (use that run(1) fresh(2) [of q x] in auto)
  ultimately show ?thesis by (rule that)
qed

lemma push_many_at_run:
  assumes "qinv q" and "unat n \<le> length xs" and "0 < n"
  obtains k q' where "push_many_at s q xs n = Some (k, q')" "qinv q'" "k \<le> n" "items q' = items q @ take (unat k) xs"
    "s = 0 \<and> k = 0 \<Longrightarrow> items q \<noteq> []"
proof -
  obtain k q' where run: "push_many_at s q xs n = Some (k, q')" "qinv q'" "k \<le> n" "items q' = items q @ take (unat k) xs"
    using push_many_at_law [OF assms(1,2), of s] by blast
  moreover have "items q \<noteq> []" if "s = 0 \<and> k = 0"
    using push_many_law [OF assms(1,2)] room_law [OF assms(1)] assms(3) that run(1) fresh(3) [of q xs n] by auto
  ultimately show ?thesis by (rule that)
qed

lemma pop_many_at_run:
  assumes "qinv q" and "unat n \<le> length out" and "0 < n"
  obtains k q' where "pop_many_at s q out n = Some (k, take (unat k) (items q) @ drop (unat k) out, q')"
    "qinv q'" "k \<le> n" "unat k \<le> length (items q)" "items q' = drop (unat k) (items q)" "s = 0 \<and> items q \<noteq> [] \<Longrightarrow> 0 < k"
proof -
  obtain k q' where run: "pop_many_at s q out n = Some (k, take (unat k) (items q) @ drop (unat k) out, q')"
      "qinv q'" "k \<le> n" "unat k \<le> length (items q)" "items q' = drop (unat k) (items q)"
    using pop_many_at_law [OF assms(1,2), of s] by blast
  moreover have "0 < k" if "s = 0 \<and> items q \<noteq> []"
    using pop_many_law [OF assms(1,2)] assms(3) that run(1) fresh(4) [of q out n] by auto
  ultimately show ?thesis by (rule that)
qed

end

end
