(* ===== verification/Spsc_Ring.thy ===== *)
theory Spsc_Ring
  imports Fifo_Queue
begin

text \<open>
  \<open>spsc_ring.hpp\<close>: the bounded single-producer single-consumer queue. The two counters
  are 64-bit and never reduced: \<open>head - tail\<close> is the number of items, also after they
  wrap around, and a counter masked by \<open>Capacity - 1\<close> is a position in the array.

  A thread reads its own counter exactly, but the acquire load of the other thread's
  counter may return an older value. That value is an argument of the operations here
  (\<open>tail_seen\<close>, \<open>head_seen\<close>); a sequential use passes the current counter.
  Capacity is the template parameter; the array starts value-initialised.
\<close>

record 'a SpscRing =
  ring_capacity :: size_t
  ring_data :: "'a list"
  ring_head :: size_t
  ring_tail :: size_t

definition ring_new :: "'a \<Rightarrow> size_t \<Rightarrow> 'a SpscRing" where
  "ring_new d c = \<lparr>ring_capacity = c, ring_data = replicate (unat c) d, ring_head = 0, ring_tail = 0\<rparr>"

definition ring_mask :: "size_t \<Rightarrow> size_t" where
  "ring_mask c = c - 1"

definition spsc_push :: "size_t \<Rightarrow> 'a SpscRing \<Rightarrow> 'a \<Rightarrow> (bool \<times> 'a SpscRing) option" where
  "spsc_push tail_seen r x = do {
     let head = ring_head r;
     let tail = tail_seen;
     if head - tail \<ge> ring_capacity r then Some (False, r)
     else do {
       d \<leftarrow> write_at (ring_data r) (unat (head AND (ring_capacity r - 1))) x;
       Some (True, r\<lparr>ring_data := d, ring_head := head + 1\<rparr>)
     }
   }"

text \<open>\<open>x\<close> is the reference parameter: it is left alone when the queue is empty.\<close>

definition spsc_pop :: "size_t \<Rightarrow> 'a SpscRing \<Rightarrow> 'a \<Rightarrow> (bool \<times> 'a \<times> 'a SpscRing) option" where
  "spsc_pop head_seen r x = do {
     let tail = ring_tail r;
     let head = head_seen;
     if head = tail then Some (False, x, r)
     else do {
       x \<leftarrow> read_at (ring_data r) (unat (tail AND (ring_capacity r - 1)));
       Some (True, x, r\<lparr>ring_tail := tail + 1\<rparr>)
     }
   }"

text \<open>The copying loops of the batch operations, from index \<open>i\<close>, \<open>n\<close> iterations to go.\<close>

fun copy_in :: "size_t \<Rightarrow> size_t \<Rightarrow> 'a list \<Rightarrow> size_t \<Rightarrow> nat \<Rightarrow> 'a list \<Rightarrow> 'a list option" where
  "copy_in m head xs i 0 d = Some d"
| "copy_in m head xs i (Suc n) d = do {
     x \<leftarrow> read_at xs (unat i);
     d \<leftarrow> write_at d (unat ((head + i) AND m)) x;
     copy_in m head xs (i + 1) n d
   }"

fun copy_out :: "size_t \<Rightarrow> size_t \<Rightarrow> 'a list \<Rightarrow> size_t \<Rightarrow> nat \<Rightarrow> 'a list \<Rightarrow> 'a list option" where
  "copy_out m tail d i 0 ys = Some ys"
| "copy_out m tail d i (Suc n) ys = do {
     x \<leftarrow> read_at d (unat ((tail + i) AND m));
     ys \<leftarrow> write_at ys (unat i) x;
     copy_out m tail d (i + 1) n ys
   }"

definition spsc_push_many ::
    "size_t \<Rightarrow> 'a SpscRing \<Rightarrow> 'a list \<Rightarrow> size_t \<Rightarrow> (size_t \<times> 'a SpscRing) option" where
  "spsc_push_many tail_seen r xs max_count = do {
     let head = ring_head r;
     let tail = tail_seen;
     let used = head - tail;
     let count = min (ring_capacity r - used) max_count;
     if count = 0 then Some (0, r)
     else do {
       d \<leftarrow> copy_in (ring_mask (ring_capacity r)) head xs 0 (unat count) (ring_data r);
       Some (count, r\<lparr>ring_data := d, ring_head := head + count\<rparr>)
     }
   }"

definition spsc_pop_many ::
    "size_t \<Rightarrow> 'a SpscRing \<Rightarrow> 'a list \<Rightarrow> size_t \<Rightarrow> (size_t \<times> 'a list \<times> 'a SpscRing) option" where
  "spsc_pop_many head_seen r out max_count = do {
     let tail = ring_tail r;
     let head = head_seen;
     let count = min (head - tail) max_count;
     if count = 0 then Some (0, out, r)
     else do {
       out \<leftarrow> copy_out (ring_mask (ring_capacity r)) tail (ring_data r) 0 (unat count) out;
       Some (count, out, r\<lparr>ring_tail := tail + count\<rparr>)
     }
   }"

subsection \<open>The queue a ring represents\<close>

definition ring_used :: "'a SpscRing \<Rightarrow> nat" where
  "ring_used r = unat (ring_head r - ring_tail r)"

definition ring_pos :: "size_t \<Rightarrow> size_t \<Rightarrow> nat" where
  "ring_pos c k = unat k mod unat c"

definition capacity_ok :: "size_t \<Rightarrow> bool" where
  "capacity_ok c \<longleftrightarrow> 1 < c \<and> has_single_bit c"

definition ring_inv :: "'a SpscRing \<Rightarrow> bool" where
  "ring_inv r \<longleftrightarrow> capacity_ok (ring_capacity r) \<and> length (ring_data r) = unat (ring_capacity r) \<and>
     ring_used r \<le> unat (ring_capacity r)"

text \<open>The \<open>n\<close> items from counter value \<open>k\<close> on.\<close>

definition items_from :: "size_t \<Rightarrow> 'a list \<Rightarrow> size_t \<Rightarrow> nat \<Rightarrow> 'a list" where
  "items_from c d k n = map (\<lambda>i. d ! ring_pos c (k + word_of_nat i)) [0..<n]"

definition ring_items :: "'a SpscRing \<Rightarrow> 'a list" where
  "ring_items r = items_from (ring_capacity r) (ring_data r) (ring_tail r) (ring_used r)"

text \<open>What an acquire load may return: the current counter of the other thread, or an older one.\<close>

definition tail_ok :: "'a SpscRing \<Rightarrow> size_t \<Rightarrow> bool" where
  "tail_ok r t \<longleftrightarrow> ring_used r \<le> unat (ring_head r - t) \<and> unat (ring_head r - t) \<le> unat (ring_capacity r)"

definition head_ok :: "'a SpscRing \<Rightarrow> size_t \<Rightarrow> bool" where
  "head_ok r h \<longleftrightarrow> unat (h - ring_tail r) \<le> ring_used r"

lemma current_ok [simp]: "ring_inv r \<Longrightarrow> tail_ok r (ring_tail r)" "head_ok r (ring_head r)"
  by (simp_all add: tail_ok_def head_ok_def ring_used_def ring_inv_def)

lemma length_ring_items [simp]: "length (ring_items r) = ring_used r"
  by (simp add: ring_items_def items_from_def)

lemma ring_inv_new: "capacity_ok c \<Longrightarrow> ring_inv (ring_new d c)"
  by (simp add: ring_inv_def ring_new_def ring_used_def)

lemma ring_items_new [simp]: "ring_items (ring_new d c) = []"
  by (simp add: ring_items_def items_from_def ring_used_def ring_new_def)

lemma capacity_pos [simp]: "capacity_ok c \<Longrightarrow> 0 < unat c"
  by (simp add: capacity_ok_def)

lemma mask_pos [simp]:
  "capacity_ok c \<Longrightarrow> unat (k AND (c - 1)) = ring_pos c k"
  by (simp add: ring_pos_def unat_and_mask capacity_ok_def)

lemma ring_pos_less [simp]: "capacity_ok c \<Longrightarrow> ring_pos c k < unat c"
  by (simp add: ring_pos_def)

text \<open>Positions of counter values less than a capacity apart differ.\<close>

lemma ring_pos_add:
  assumes "capacity_ok c" and "i < 2 ^ 64"
  shows "ring_pos c (k + word_of_nat i) = (unat k + i) mod unat c"
  using assms unat_add_mod [of c k "word_of_nat i"]
  by (simp add: ring_pos_def capacity_ok_def unat_of_nat_less)

lemma mod_add_inject:
  fixes a i j c :: nat
  assumes "(a + i) mod c = (a + j) mod c" and "i < c" and "j < c"
  shows "i = j"
proof -
  have "i = j" if "i \<le> j" "(a + j) mod c = (a + i) mod c" "j < c" for i j
  proof -
    have "c dvd a + j - (a + i)" using that by (subst mod_eq_dvd_iff_nat [symmetric]) simp_all
    then have "c dvd j - i" by simp
    then show ?thesis using that nat_dvd_not_less [of "j - i" c] by (cases "i = j") auto
  qed
  then show ?thesis using assms by (metis nat_le_linear)
qed

lemma capacity_bound: "unat (c :: size_t) < 2 ^ 64"
  using unsigned_less [of c] by simp

lemma ring_pos_inject:
  assumes "capacity_ok c" and "i < unat c" and "j < unat c"
    and "ring_pos c (k + word_of_nat i) = ring_pos c (k + word_of_nat j)"
  shows "i = j"
  using assms capacity_bound [of c] mod_add_inject [of "unat k" i "unat c" j]
  by (simp add: ring_pos_add)

lemma items_from_0 [simp]: "items_from c d k 0 = []"
  by (simp add: items_from_def)

lemma length_items_from [simp]: "length (items_from c d k n) = n"
  by (simp add: items_from_def)

lemma items_from_append:
  "items_from c d k (m + n) = items_from c d k m @ items_from c d (k + word_of_nat m) n"
proof -
  have "[0..<m + n] = [0..<m] @ map (\<lambda>i. i + m) [0..<n]"
    using upt_add_eq_append [of 0 m n] by (simp add: map_add_upt add.commute)
  then show ?thesis by (simp add: items_from_def comp_def ac_simps)
qed

lemma items_from_Suc:
  "items_from c d k (Suc n) = items_from c d k n @ [d ! ring_pos c (k + word_of_nat n)]"
  by (simp add: items_from_def)

lemma items_from_Cons:
  "items_from c d k (Suc n) = d ! ring_pos c k # items_from c d (k + 1) n"
  using items_from_append [of c d k 1 n] by (simp add: items_from_def)

text \<open>Writing a cell that is not among the items keeps them; writing the next one appends.\<close>

lemma items_from_write:
  assumes "capacity_ok c" and "n \<le> j" and "j < unat c"
  shows "items_from c (d[ring_pos c (k + word_of_nat j) := x]) k n = items_from c d k n"
proof -
  have "ring_pos c (k + word_of_nat j) \<noteq> ring_pos c (k + word_of_nat i)" if "i < n" for i
    using ring_pos_inject [OF assms(1), of i j k] assms(2,3) that by auto
  then show ?thesis by (simp add: items_from_def)
qed

lemma items_from_snoc:
  assumes "capacity_ok c" and "length d = unat c" and "n < unat c"
  shows "items_from c (d[ring_pos c (k + word_of_nat n) := x]) k (Suc n) = items_from c d k n @ [x]"
  using assms by (simp add: items_from_Suc items_from_write)

lemma unat_Suc_word: "Suc (unat (i :: size_t)) < 2 ^ 64 \<Longrightarrow> unat (i + 1) = Suc (unat i)"
  by (subst unat_plus_if') simp

lemma copy_in_run:
  assumes c: "capacity_ok c"
  shows "length d = unat c \<Longrightarrow> unat i + n \<le> length xs \<Longrightarrow> unat i + n < 2 ^ 64 \<Longrightarrow>
    u + n \<le> unat c \<Longrightarrow> head + i = k + word_of_nat u \<Longrightarrow>
    \<exists>d'. copy_in (c - 1) head xs i n d = Some d' \<and> length d' = unat c \<and>
      items_from c d' k (u + n) = items_from c d k u @ take n (drop (unat i) xs)"
proof (induction n arbitrary: i d u)
  case (Suc n)
  have i1: "unat (i + 1) = Suc (unat i)" using Suc.prems(3) by (intro unat_Suc_word) simp
  let ?x = "xs ! unat i" and ?d = "d[ring_pos c (k + word_of_nat u) := xs ! unat i]"
  have i: "unat i < length xs" using Suc.prems(2) by simp
  have "head + (i + 1) = k + word_of_nat (Suc u)" using Suc.prems(5) by (simp add: add.assoc [symmetric])
  then obtain d' where d': "copy_in (c - 1) head xs (i + 1) n ?d = Some d'" "length d' = unat c"
      "items_from c d' k (Suc u + n) = items_from c ?d k (Suc u) @ take n (drop (unat (i + 1)) xs)"
    using Suc.IH [of ?d "i + 1" "Suc u"] Suc.prems i1 by auto
  moreover have "items_from c ?d k (Suc u) = items_from c d k u @ [?x]"
    using Suc.prems(1,4) by (intro items_from_snoc [OF c]) simp_all
  ultimately show ?case
    using Suc.prems(1,5) i i1 c by (simp add: Cons_nth_drop_Suc [symmetric])
qed simp

lemma copy_out_run:
  assumes c: "capacity_ok c" and d: "length d = unat c"
  shows "unat i + n \<le> length ys \<Longrightarrow> unat i + n < 2 ^ 64 \<Longrightarrow>
    copy_out (c - 1) tail d i n ys =
      Some (take (unat i) ys @ items_from c d (tail + i) n @ drop (unat i + n) ys)"
proof (induction n arbitrary: i ys)
  case (Suc n)
  have i1: "unat (i + 1) = Suc (unat i)" using Suc.prems(2) by (intro unat_Suc_word) simp
  let ?x = "d ! ring_pos c (tail + i)"
  have "copy_out (c - 1) tail d i (Suc n) ys = copy_out (c - 1) tail d (i + 1) n (ys[unat i := ?x])"
    using Suc.prems(1) c d by simp
  also have "\<dots> = Some (take (Suc (unat i)) (ys[unat i := ?x]) @ items_from c d (tail + (i + 1)) n @
      drop (Suc (unat i) + n) (ys[unat i := ?x]))"
    using Suc.IH [of "i + 1" "ys[unat i := ?x]"] Suc.prems i1 by simp
  also have "take (Suc (unat i)) (ys[unat i := ?x]) = take (unat i) ys @ [?x]"
    using Suc.prems(1) by (simp add: take_Suc_conv_app_nth)
  finally show ?case by (simp add: items_from_Cons add.assoc)
qed simp

subsection \<open>The operations\<close>

lemma used_after_push:
  assumes "n + unat (h - t) < 2 ^ 64"
  shows "unat ((h :: size_t) + word_of_nat n - t) = n + unat (h - t)"
proof -
  have n: "unat (word_of_nat n :: size_t) = n" using assms by (intro unat_of_nat_less) simp
  have "h + word_of_nat n - t = word_of_nat n + (h - t)" by simp
  then have "unat (h + word_of_nat n - t) = unat (word_of_nat n + (h - t))" by (rule arg_cong)
  also have "\<dots> = n + unat (h - t)" using assms by (subst unat_plus_if') (simp only: n, simp)
  finally show ?thesis .
qed

lemma used_after_pop:
  assumes "n \<le> unat (h - t)"
  shows "unat ((h :: size_t) - (t + word_of_nat n)) = unat (h - t) - n"
proof -
  have n: "unat (word_of_nat n :: size_t) = n"
    using assms unat_less_2p64 [of "h - t"] by (intro unat_of_nat_less) simp
  have "h - (t + word_of_nat n) = h - t - word_of_nat n" by simp
  then have "unat (h - (t + word_of_nat n)) = unat (h - t - word_of_nat n)" by (rule arg_cong)
  also have "\<dots> = unat (h - t) - n" using assms by (subst unat_sub) (simp_all only: word_le_nat_alt n)
  finally show ?thesis .
qed

lemma push_run:
  assumes inv: "ring_inv r" and t: "tail_ok r t"
  shows "if unat (ring_head r - t) = unat (ring_capacity r) then spsc_push t r x = Some (False, r)
     else \<exists>r'. spsc_push t r x = Some (True, r') \<and> ring_inv r' \<and> ring_items r' = ring_items r @ [x] \<and>
       ring_tail r' = ring_tail r \<and> ring_head r' = ring_head r + 1 \<and> ring_capacity r' = ring_capacity r \<and>
       tail_ok r' t"
proof -
  let ?c = "ring_capacity r"
  have c: "capacity_ok ?c" and len: "length (ring_data r) = unat ?c" and used: "ring_used r \<le> unat ?c"
    using inv by (simp_all add: ring_inv_def)
  have seen: "ring_used r \<le> unat (ring_head r - t)" "unat (ring_head r - t) \<le> unat ?c"
    using t by (simp_all add: tail_ok_def)
  show ?thesis
  proof (cases "unat (ring_head r - t) = unat ?c")
    case True
    then show ?thesis by (simp add: spsc_push_def Let_def)
  next
    case False
    then have lt: "unat (ring_head r - t) < unat ?c" using seen(2) by (rule le_neq_implies_less [rotated])
    let ?d = "(ring_data r)[ring_pos ?c (ring_head r) := x]"
    let ?r = "r\<lparr>ring_data := ?d, ring_head := ring_head r + 1\<rparr>"
    have run: "spsc_push t r x = Some (True, ?r)"
      using lt c len by (simp add: spsc_push_def Let_def word_le_nat_alt)
    have h: "ring_head r = ring_tail r + word_of_nat (ring_used r)" by (simp add: ring_used_def)
    have "Suc (ring_used r) < 2 ^ 64" "Suc (unat (ring_head r - t)) < 2 ^ 64"
      using lt seen(1) capacity_bound [of ?c] by simp_all
    then have u: "ring_used ?r = Suc (ring_used r)" "unat (ring_head r + 1 - t) = Suc (unat (ring_head r - t))"
      using used_after_push [of 1 "ring_head r" "ring_tail r"] used_after_push [of 1 "ring_head r" t]
      by (simp_all add: ring_used_def)
    have "ring_items ?r = ring_items r @ [x]"
      using items_from_snoc [OF c len, of "ring_used r" "ring_tail r" x] lt seen(1) u(1)
      by (simp add: ring_items_def h [symmetric])
    then show ?thesis
      using False run c len lt seen u by (intro if_not_P [THEN iffD2] exI [of _ ?r])
        (simp_all add: ring_inv_def tail_ok_def)
  qed
qed

lemma pop_run:
  assumes inv: "ring_inv r" and h: "head_ok r h"
  shows "if h = ring_tail r then spsc_pop h r x = Some (False, x, r)
     else \<exists>y ys r'. ring_items r = y # ys \<and> spsc_pop h r x = Some (True, y, r') \<and> ring_inv r' \<and>
       ring_items r' = ys \<and> ring_head r' = ring_head r \<and> ring_tail r' = ring_tail r + 1 \<and>
       ring_capacity r' = ring_capacity r \<and> head_ok r' h"
proof (cases "h = ring_tail r")
  case True
  then show ?thesis by (simp add: spsc_pop_def Let_def)
next
  case False
  let ?c = "ring_capacity r" and ?t = "ring_tail r"
  have c: "capacity_ok ?c" and len: "length (ring_data r) = unat ?c" and used: "ring_used r \<le> unat ?c"
    using inv by (simp_all add: ring_inv_def)
  have "0 < unat (h - ?t)" using False by (simp add: unat_gt_0)
  then have pos: "0 < ring_used r" "0 < unat (h - ?t)" using h by (simp_all add: head_ok_def)
  then obtain n where n: "ring_used r = Suc n" by (cases "ring_used r") auto
  let ?r = "r\<lparr>ring_tail := ?t + 1\<rparr>"
  have run: "spsc_pop h r x = Some (True, ring_data r ! ring_pos ?c ?t, ?r)"
    using False c len by (simp add: spsc_pop_def Let_def)
  have items: "ring_items r = ring_data r ! ring_pos ?c ?t # items_from ?c (ring_data r) (?t + 1) n"
    by (simp add: ring_items_def n items_from_Cons)
  have u: "ring_used ?r = n" "unat (h - (?t + 1)) = unat (h - ?t) - 1"
    using used_after_pop [of 1 "ring_head r" ?t] used_after_pop [of 1 h ?t] pos n
    by (simp_all add: ring_used_def)
  then have "ring_items ?r = items_from ?c (ring_data r) (?t + 1) n" by (simp add: ring_items_def)
  moreover have "ring_inv ?r" "head_ok ?r h"
    using c len used n h u by (simp_all add: ring_inv_def head_ok_def)
  ultimately show ?thesis using False run items by auto
qed

lemma unat_min_word [simp]: "unat (min a b :: size_t) = min (unat a) (unat b)"
  by (simp add: min_def word_le_nat_alt)

lemma push_many_run:
  assumes inv: "ring_inv r" and t: "tail_ok r t" and xs: "unat m \<le> length xs"
  defines "k \<equiv> min (ring_capacity r - (ring_head r - t)) m"
  obtains r' where "spsc_push_many t r xs m = Some (k, r')" "ring_inv r'"
    "ring_items r' = ring_items r @ take (unat k) xs"
    "ring_tail r' = ring_tail r" "ring_head r' = ring_head r + k" "ring_capacity r' = ring_capacity r" "tail_ok r' t"
    "unat k = min (unat (ring_capacity r) - unat (ring_head r - t)) (unat m)"
proof -
  let ?c = "ring_capacity r"
  have c: "capacity_ok ?c" and len: "length (ring_data r) = unat ?c" and used: "ring_used r \<le> unat ?c"
    using inv by (simp_all add: ring_inv_def)
  have seen: "ring_used r \<le> unat (ring_head r - t)" "unat (ring_head r - t) \<le> unat ?c"
    using t by (simp_all add: tail_ok_def)
  have k: "unat k = min (unat ?c - unat (ring_head r - t)) (unat m)"
    using seen(2) by (simp add: k_def unat_sub word_le_nat_alt)
  show ?thesis
  proof (cases "k = 0")
    case True
    then have "spsc_push_many t r xs m = Some (k, r)" by (simp add: spsc_push_many_def Let_def k_def)
    then show ?thesis using True inv t k by (intro that [of r]) simp_all
  next
    case False
    have h: "ring_head r + 0 = ring_tail r + word_of_nat (ring_used r)" by (simp add: ring_used_def)
    have fit: "ring_used r + unat k \<le> unat ?c" "unat (ring_head r - t) + unat k \<le> unat ?c"
      using seen k by auto
    have b: "unat k < 2 ^ 64" "unat k + ring_used r < 2 ^ 64" "unat k + unat (ring_head r - t) < 2 ^ 64"
      using fit capacity_bound [of ?c] by simp_all
    have kx: "unat (0 :: size_t) + unat k \<le> length xs" "unat (0 :: size_t) + unat k < 2 ^ 64"
      using xs k b(1) by simp_all
    obtain d where run: "copy_in (?c - 1) (ring_head r) xs 0 (unat k) (ring_data r) = Some d"
        and d: "length d = unat ?c"
          "items_from ?c d (ring_tail r) (ring_used r + unat k) = ring_items r @ take (unat k) xs"
      using copy_in_run [OF c len kx fit(1) h] unfolding ring_items_def by auto
    let ?r = "r\<lparr>ring_data := d, ring_head := ring_head r + k\<rparr>"
    have u: "ring_used ?r = ring_used r + unat k"
        "unat (ring_head r + k - t) = unat (ring_head r - t) + unat k"
      using used_after_push [of "unat k" "ring_head r" "ring_tail r"] used_after_push [of "unat k" "ring_head r" t] b
      by (simp_all add: ring_used_def add.commute)
    have "spsc_push_many t r xs m = Some (k, ?r)"
      using False run by (simp add: spsc_push_many_def Let_def k_def [symmetric] ring_mask_def)
    moreover have "ring_items ?r = ring_items r @ take (unat k) xs"
      using d(2) u(1) by (simp add: ring_items_def)
    moreover have "ring_inv ?r" "tail_ok ?r t"
      using c d(1) fit u seen by (simp_all add: ring_inv_def tail_ok_def)
    ultimately show ?thesis using k by (intro that [of ?r]) simp_all
  qed
qed

lemma pop_many_run:
  assumes inv: "ring_inv r" and h: "head_ok r h" and ys: "unat m \<le> length ys"
  defines "k \<equiv> min (h - ring_tail r) m"
  obtains r' where
    "spsc_pop_many h r ys m = Some (k, take (unat k) (ring_items r) @ drop (unat k) ys, r')" "ring_inv r'"
    "ring_items r' = drop (unat k) (ring_items r)" "unat k \<le> length (ring_items r)"
    "ring_head r' = ring_head r" "ring_tail r' = ring_tail r + k" "ring_capacity r' = ring_capacity r" "head_ok r' h"
    "unat k = min (unat (h - ring_tail r)) (unat m)"
proof -
  let ?c = "ring_capacity r" and ?t = "ring_tail r"
  have c: "capacity_ok ?c" and len: "length (ring_data r) = unat ?c" and used: "ring_used r \<le> unat ?c"
    using inv by (simp_all add: ring_inv_def)
  have k: "unat k = min (unat (h - ?t)) (unat m)" by (simp add: k_def)
  have kle: "unat k \<le> unat (h - ?t)" "unat k \<le> ring_used r" using k h by (simp_all add: head_ok_def)
  show ?thesis
  proof (cases "k = 0")
    case True
    then have "spsc_pop_many h r ys m = Some (k, ys, r)" by (simp add: spsc_pop_many_def Let_def k_def)
    then show ?thesis using True inv h k by (intro that [of r]) simp_all
  next
    case False
    have "unat k \<le> length ys" "unat k < 2 ^ 64" using k ys capacity_bound [of k] by simp_all
    then have run: "copy_out (?c - 1) ?t (ring_data r) 0 (unat k) ys =
        Some (items_from ?c (ring_data r) ?t (unat k) @ drop (unat k) ys)"
      using copy_out_run [OF c len, of 0 "unat k" ys ?t] by simp
    have split: "ring_items r = items_from ?c (ring_data r) ?t (unat k) @
        items_from ?c (ring_data r) (?t + k) (ring_used r - unat k)"
      using items_from_append [of ?c "ring_data r" ?t "unat k" "ring_used r - unat k"] kle(2)
      by (simp add: ring_items_def)
    let ?r = "r\<lparr>ring_tail := ?t + k\<rparr>"
    have u: "ring_used ?r = ring_used r - unat k" "unat (h - (?t + k)) = unat (h - ?t) - unat k"
      using used_after_pop [of "unat k" "ring_head r" ?t] used_after_pop [of "unat k" h ?t] kle
      by (simp_all add: ring_used_def)
    have "spsc_pop_many h r ys m = Some (k, take (unat k) (ring_items r) @ drop (unat k) ys, ?r)"
      using False run split by (simp add: spsc_pop_many_def Let_def k_def [symmetric] ring_mask_def)
    moreover have "ring_items ?r = drop (unat k) (ring_items r)"
      using split u(1) by (simp add: ring_items_def [of ?r])
    moreover have "ring_inv ?r" "head_ok ?r h"
      using c len used h u by (simp_all add: ring_inv_def head_ok_def)
    ultimately show ?thesis using k kle(2) by (intro that [of ?r]) simp_all
  qed
qed

subsection \<open>The ring is a queue\<close>

definition ring_room :: "'a SpscRing \<Rightarrow> nat" where
  "ring_room r = unat (ring_capacity r)"

interpretation ring_queue: exact_queue ring_inv ring_items ring_room
  "\<lambda>r. spsc_push (ring_tail r) r" "\<lambda>r. spsc_pop (ring_head r) r"
  "\<lambda>r. spsc_push_many (ring_tail r) r" "\<lambda>r. spsc_pop_many (ring_head r) r"
proof unfold_locales
  fix r :: "'a SpscRing" and x
  assume inv: "ring_inv r"
  show "if length (ring_items r) = ring_room r
     then \<exists>q'. spsc_push (ring_tail r) r x = Some (False, q') \<and> ring_inv q' \<and> ring_items q' = ring_items r \<and> ring_room q' = ring_room r
     else \<exists>q'. spsc_push (ring_tail r) r x = Some (True, q') \<and> ring_inv q' \<and> ring_items q' = ring_items r @ [x] \<and> ring_room q' = ring_room r"
    using push_run [OF inv current_ok(1) [OF inv], of x] inv
    by (auto simp: ring_room_def ring_used_def [symmetric] simp del: unat_inject split: if_splits)
  show "case ring_items r of
      [] \<Rightarrow> \<exists>q'. spsc_pop (ring_head r) r x = Some (False, x, q') \<and> ring_inv q' \<and> ring_items q' = [] \<and> ring_room q' = ring_room r
    | y # ys \<Rightarrow> \<exists>q'. spsc_pop (ring_head r) r x = Some (True, y, q') \<and> ring_inv q' \<and> ring_items q' = ys \<and> ring_room q' = ring_room r"
  proof (cases "ring_head r = ring_tail r")
    case True
    then have "ring_items r = []" by (simp add: ring_items_def ring_used_def)
    then show ?thesis using pop_run [OF inv current_ok(2), of x] True inv by auto
  next
    case False
    then show ?thesis using pop_run [OF inv current_ok(2), of x] by (auto simp: ring_room_def)
  qed
  show "length (ring_items r) \<le> ring_room r \<and> 0 < ring_room r"
    using inv by (simp add: ring_inv_def ring_room_def)
  fix n :: size_t and xs :: "'a list"
  assume n: "unat n \<le> length xs"
  show "\<exists>k q'. spsc_push_many (ring_tail r) r xs n = Some (k, q') \<and> ring_inv q' \<and> ring_room q' = ring_room r \<and> k \<le> n \<and>
     ring_items q' = ring_items r @ take (unat k) xs \<and> (0 < n \<and> length (ring_items r) < ring_room r \<longrightarrow> 0 < k)"
    by (rule push_many_run [OF inv current_ok(1) [OF inv] n])
       (auto simp: ring_room_def ring_used_def word_le_nat_alt word_less_nat_alt)
  show "\<exists>k q'. spsc_pop_many (ring_head r) r xs n = Some (k, take (unat k) (ring_items r) @ drop (unat k) xs, q') \<and>
     ring_inv q' \<and> ring_room q' = ring_room r \<and> k \<le> n \<and> unat k \<le> length (ring_items r) \<and>
     ring_items q' = drop (unat k) (ring_items r) \<and> (0 < n \<and> ring_items r \<noteq> [] \<longrightarrow> 0 < k)"
    by (rule pop_many_run [OF inv current_ok(2) n])
       (auto simp: ring_room_def ring_used_def word_le_nat_alt word_less_nat_alt simp flip: length_greater_0_conv)
  fix k and q' :: "'a SpscRing" and out'
  show "unat k = min (ring_room r - length (ring_items r)) (unat n)"
    if "spsc_push_many (ring_tail r) r xs n = Some (k, q')"
    by (rule push_many_run [OF inv current_ok(1) [OF inv] n]) (use that in \<open>simp add: ring_room_def ring_used_def\<close>)
  show "unat k = min (length (ring_items r)) (unat n)"
    if "spsc_pop_many (ring_head r) r xs n = Some (k, out', q')"
    by (rule pop_many_run [OF inv current_ok(2) n]) (use that in \<open>simp add: ring_used_def\<close>)
qed

text \<open>A single thread's sequence of operations on the ring.\<close>

abbreviation ring_run ::
    "'a SpscRing \<Rightarrow> 'a \<Rightarrow> 'a queue_op list \<Rightarrow> ('a queue_answer list \<times> 'a SpscRing) option" where
  "ring_run \<equiv> queue_run (\<lambda>r. spsc_push (ring_tail r) r) (\<lambda>r. spsc_pop (ring_head r) r)
     (\<lambda>r. spsc_push_many (ring_tail r) r) (\<lambda>r. spsc_pop_many (ring_head r) r)"

text \<open>
  The operations after an acquire load that is \<open>s\<close> behind: the producer's copy of the tail may
  be any value the tail has had since the ring was last full at that distance, the consumer's
  copy of the head any value between the tail and the head.
\<close>

definition stale_tail :: "nat \<Rightarrow> 'a SpscRing \<Rightarrow> size_t" where
  "stale_tail s r = ring_tail r - word_of_nat (min s (unat (ring_capacity r) - ring_used r))"

definition stale_head :: "nat \<Rightarrow> 'a SpscRing \<Rightarrow> size_t" where
  "stale_head s r = ring_head r - word_of_nat (min s (ring_used r))"

definition ring_push :: "nat \<Rightarrow> 'a SpscRing \<Rightarrow> 'a \<Rightarrow> (bool \<times> 'a SpscRing) option" where
  "ring_push s r x = spsc_push (stale_tail s r) r x"

definition ring_pop :: "nat \<Rightarrow> 'a SpscRing \<Rightarrow> 'a \<Rightarrow> (bool \<times> 'a \<times> 'a SpscRing) option" where
  "ring_pop s r x = spsc_pop (stale_head s r) r x"

definition ring_push_many :: "nat \<Rightarrow> 'a SpscRing \<Rightarrow> 'a list \<Rightarrow> size_t \<Rightarrow> (size_t \<times> 'a SpscRing) option" where
  "ring_push_many s r xs n = spsc_push_many (stale_tail s r) r xs n"

definition ring_pop_many :: "nat \<Rightarrow> 'a SpscRing \<Rightarrow> 'a list \<Rightarrow> size_t \<Rightarrow> (size_t \<times> 'a list \<times> 'a SpscRing) option" where
  "ring_pop_many s r out n = spsc_pop_many (stale_head s r) r out n"

lemma stale_0 [simp]: "stale_tail 0 r = ring_tail r" "stale_head 0 r = ring_head r"
  by (simp_all add: stale_tail_def stale_head_def)

lemma stale_ok:
  assumes "ring_inv r"
  shows "tail_ok r (stale_tail s r)" and "head_ok r (stale_head s r)"
proof -
  let ?c = "unat (ring_capacity r)"
  have used: "ring_used r \<le> ?c" using assms by (simp add: ring_inv_def)
  have c: "?c < 2 ^ 64" by (rule capacity_bound)
  let ?m = "min s (?c - ring_used r)"
  have lt: "ring_used r + ?m < 2 ^ 64" using used c by linarith
  then have "unat (word_of_nat ?m :: size_t) = ?m" by (intro unat_of_nat_less) simp
  then have "unat (ring_head r - ring_tail r + word_of_nat ?m) = ring_used r + ?m"
    using lt by (simp only: unat_word_ariths ring_used_def [symmetric]) simp
  then show "tail_ok r (stale_tail s r)"
    using used by (simp add: tail_ok_def stale_tail_def algebra_simps)
  let ?k = "min s (ring_used r)"
  have "unat (word_of_nat ?k :: size_t) = ?k" using used c by (intro unat_of_nat_less) simp
  then have "unat (ring_head r - ring_tail r - word_of_nat ?k) = ring_used r - ?k"
    by (subst unat_sub) (simp_all add: word_le_nat_alt ring_used_def)
  then show "head_ok r (stale_head s r)" by (simp add: head_ok_def stale_head_def algebra_simps)
qed

interpretation ring_stale: stale_queue ring_inv ring_items ring_room
  "\<lambda>r. spsc_push (ring_tail r) r" "\<lambda>r. spsc_pop (ring_head r) r"
  "\<lambda>r. spsc_push_many (ring_tail r) r" "\<lambda>r. spsc_pop_many (ring_head r) r"
  ring_push ring_pop ring_push_many ring_pop_many
proof unfold_locales
  fix r :: "'a SpscRing" and x and xs :: "'a list" and n :: size_t and s
  show "ring_push 0 r x = spsc_push (ring_tail r) r x" "ring_pop 0 r x = spsc_pop (ring_head r) r x"
    "ring_push_many 0 r xs n = spsc_push_many (ring_tail r) r xs n"
    "ring_pop_many 0 r xs n = spsc_pop_many (ring_head r) r xs n"
    by (simp_all add: ring_push_def ring_pop_def ring_push_many_def ring_pop_many_def)
  assume inv: "ring_inv r"
  show "\<exists>ok q'. ring_push s r x = Some (ok, q') \<and> ring_inv q' \<and> ring_items q' = ring_items r @ (if ok then [x] else [])"
  proof (cases "unat (ring_head r - stale_tail s r) = unat (ring_capacity r)")
    case True
    then show ?thesis using push_run [OF inv stale_ok(1) [OF inv], of s x] inv by (intro exI [of _ False] exI [of _ r]) (simp add: ring_push_def)
  next
    case False
    then show ?thesis using push_run [OF inv stale_ok(1) [OF inv], of s x] unfolding ring_push_def if_not_P [OF False]
      by (elim exE conjE) (intro exI [of _ True] exI conjI, assumption+, simp)
  qed
  show "\<exists>ok y q'. ring_pop s r x = Some (ok, y, q') \<and> ring_inv q' \<and>
      (if ok then ring_items r = y # ring_items q' else y = x \<and> ring_items q' = ring_items r)"
  proof (cases "stale_head s r = ring_tail r")
    case True
    then show ?thesis using pop_run [OF inv stale_ok(2) [OF inv], of s x] inv by (intro exI [of _ False] exI [of _ x] exI [of _ r]) (simp add: ring_pop_def)
  next
    case False
    then show ?thesis using pop_run [OF inv stale_ok(2) [OF inv], of s x] unfolding ring_pop_def if_not_P [OF False]
      by (elim exE conjE) (intro exI [of _ True] exI conjI, assumption+, simp)
  qed
  assume n: "unat n \<le> length xs"
  show "\<exists>k q'. ring_push_many s r xs n = Some (k, q') \<and> ring_inv q' \<and> k \<le> n \<and> ring_items q' = ring_items r @ take (unat k) xs"
    unfolding ring_push_many_def
    by (rule push_many_run [OF inv stale_ok(1) [OF inv] n, of s]) (auto simp: word_le_nat_alt)
  show "\<exists>k q'. ring_pop_many s r xs n = Some (k, take (unat k) (ring_items r) @ drop (unat k) xs, q') \<and>
      ring_inv q' \<and> k \<le> n \<and> unat k \<le> length (ring_items r) \<and> ring_items q' = drop (unat k) (ring_items r)"
    unfolding ring_pop_many_def
    by (rule pop_many_run [OF inv stale_ok(2) [OF inv] n, of s]) (auto simp: word_le_nat_alt)
qed

subsection \<open>What the ring promises its single threads\<close>

text \<open>C12: used by one thread at a time the ring is a bounded first-in first-out queue, from any
  state of its counters, one where they are about to wrap around included: every answer of
  every sequence of pushes, pops and batches of either, the number of items each batch moves
  and the buffers the popped items are copied to included, and the contents left are those of
  a list of at most \<open>capacity\<close> items.\<close>

theorem ring_is_bounded_fifo:
  assumes "ring_inv r" and "list_all batch_ok ops"
  shows "\<exists>r'. ring_run r x ops = Some (fst (list_run (unat (ring_capacity r)) (ring_items r) x ops), r') \<and>
    ring_items r' = snd (list_run (unat (ring_capacity r)) (ring_items r) x ops) \<and> ring_inv r'"
  using ring_queue.queue_run_list [OF assms, of x] by (auto simp: ring_room_def)

theorem ring_is_bounded_fifo_witness:
  "\<exists>r'. ring_run \<lparr>ring_capacity = 2, ring_data = [0, 0], ring_head = - 1, ring_tail = - 1\<rparr> (9 :: nat)
      [Pop, Push 1, PushMany [2, 3] 2, Push 3, Pop, Push 4, PopMany [7, 8, 9] 3, Pop] =
    Some ([Popped False 9, Pushed True, PushedMany 1, Pushed False, Popped True 1, Pushed True,
      PoppedMany 2 [2, 4, 9], Popped False 1], r')"
proof -
  let ?ops = "[Pop, Push 1, PushMany [2, 3] 2, Push 3, Pop, Push 4, PopMany [7, 8, 9] 3, Pop]"
  have "capacity_ok 2" by (simp add: capacity_ok_def) code_simp
  then have "ring_inv \<lparr>ring_capacity = 2, ring_data = [0, 0 :: nat], ring_head = - 1, ring_tail = - 1\<rparr>"
    by (simp add: ring_inv_def ring_used_def)
  from ring_is_bounded_fifo [OF this, of ?ops 9] show ?thesis
    by (simp add: ring_items_def items_from_def ring_used_def del: queue_run.simps) (simp add: numeral_2_eq_2, blast)
qed

text \<open>C13: batches on a ring with any contents, after any loads of the other thread's counter that
  acquire may return: \<open>push_many\<close> stores exactly as many of the offered items as the room it
  sees and the count allow, behind the items already there and overwriting none of them;
  \<open>pop_many\<close> then takes the oldest items, earlier contents first, exactly as many as it sees
  and the count allow, into the front of the caller's buffer, and the rest of the buffer and
  of the ring is kept. With the current tail the room is the capacity less the contents, with
  the current head all of them are seen.\<close>

theorem batch_roundtrip:
  assumes "ring_inv r" and "tail_ok r t" and "unat n \<le> length xs" and "unat m \<le> length out"
  shows "\<exists>k r1. spsc_push_many t r xs n = Some (k, r1) \<and>
    unat k = min (unat (ring_capacity r) - unat (ring_head r - t)) (unat n) \<and>
    (t = ring_tail r \<longrightarrow> unat k = min (unat (ring_capacity r) - length (ring_items r)) (unat n)) \<and>
    ring_inv r1 \<and> ring_items r1 = ring_items r @ take (unat k) xs \<and>
    (\<forall>h. head_ok r1 h \<longrightarrow> (\<exists>j r2. spsc_pop_many h r1 out m =
        Some (j, take (unat j) (ring_items r @ take (unat k) xs) @ drop (unat j) out, r2) \<and>
      unat j = min (unat (h - ring_tail r)) (unat m) \<and>
      (h = ring_head r1 \<longrightarrow> unat j = min (length (ring_items r) + unat k) (unat m)) \<and>
      ring_inv r2 \<and> ring_items r2 = drop (unat j) (ring_items r @ take (unat k) xs)))"
proof -
  obtain k r1 where 1: "spsc_push_many t r xs n = Some (k, r1)" "ring_inv r1"
      "ring_items r1 = ring_items r @ take (unat k) xs" "ring_tail r1 = ring_tail r"
      "unat k = min (unat (ring_capacity r) - unat (ring_head r - t)) (unat n)"
    by (rule push_many_run [OF assms(1-3)]) (rule that)
  have len: "ring_used r1 = length (ring_items r) + unat k"
    using arg_cong [OF 1(3), of length] 1(5) assms(3) by simp
  have pop: "\<exists>j r2. spsc_pop_many h r1 out m = Some (j, take (unat j) (ring_items r1) @ drop (unat j) out, r2) \<and>
      unat j = min (unat (h - ring_tail r)) (unat m) \<and>
      (h = ring_head r1 \<longrightarrow> unat j = min (length (ring_items r) + unat k) (unat m)) \<and>
      ring_inv r2 \<and> ring_items r2 = drop (unat j) (ring_items r1)" if "head_ok r1 h" for h
    by (rule pop_many_run [OF 1(2) that assms(4)])
       (simp add: 1(4) len [unfolded ring_used_def 1(4)])
  have "t = ring_tail r \<longrightarrow> unat k = min (unat (ring_capacity r) - length (ring_items r)) (unat n)"
    by (simp add: 1(5) ring_used_def)
  then show ?thesis using 1(1-3,5) pop [unfolded 1(3)] by blast
qed

theorem batch_roundtrip_witness:
  "\<exists>r1 r2. spsc_push_many (- 1) \<lparr>ring_capacity = 4, ring_data = [0, 0, 0, 5], ring_head = 0, ring_tail = - 1\<rparr>
      [1, 2, 3, 4 :: nat] 4 = Some (3, r1) \<and>
    spsc_pop_many (ring_head r1) r1 [7, 8, 9] 3 = Some (3, [5, 1, 2], r2) \<and> ring_items r2 = [3]"
proof -
  let ?r = "\<lparr>ring_capacity = 4, ring_data = [0, 0, 0, 5 :: nat], ring_head = 0, ring_tail = - 1\<rparr>"
  have "capacity_ok 4" by (simp add: capacity_ok_def) code_simp
  then have inv: "ring_inv ?r" by (simp add: ring_inv_def ring_used_def)
  have items: "ring_items ?r = [5]" by (simp add: ring_items_def items_from_def ring_used_def ring_pos_def
    unsigned_minus_1_eq_mask mask_eq_exp_minus_1)
  obtain k r1 where 1: "spsc_push_many (- 1) ?r [1, 2, 3, 4] 4 = Some (k, r1)" "unat k = 3"
      "\<forall>h. head_ok r1 h \<longrightarrow> (\<exists>j r2. spsc_pop_many h r1 [7, 8, 9] 3 =
         Some (j, take (unat j) [5, 1, 2, 3] @ drop (unat j) [7, 8, 9], r2) \<and>
        (h = ring_head r1 \<longrightarrow> unat j = 3) \<and> ring_items r2 = drop (unat j) [5, 1, 2, 3])"
    using batch_roundtrip [OF inv, of "- 1" 4 "[1, 2, 3, 4]" 3 "[7, 8, 9]"] inv
    by (fastforce simp: items tail_ok_def ring_used_def)
  have "k = 3" using 1(2) by (simp add: word_unat_eq_iff)
  moreover obtain j r2 where "spsc_pop_many (ring_head r1) r1 [7, 8, 9] 3 =
      Some (j, take (unat j) [5, 1, 2, 3] @ drop (unat j) [7, 8, 9], r2)" "unat j = 3" "ring_items r2 = drop (unat j) [5, 1, 2, 3]"
    using 1(3) current_ok(2) by blast
  moreover have "j = 3" using \<open>unat j = 3\<close> by (simp add: word_unat_eq_iff)
  ultimately show ?thesis using 1(1) by auto
qed

end
