(* ===== verification/Spsc_Ring_Cached.thy ===== *)
theory Spsc_Ring_Cached
  imports Spsc_Ring
begin

text \<open>
  \<open>spsc_ring_cached.hpp\<close>: the same queue, where each thread keeps a copy of the other
  thread's counter and loads the counter anew only when the copy says full (empty). A
  copy is an old value of the counter, so every operation is one of the plain ring that
  saw the value the copy ends up with; the theory proves that and inherits the rest.
\<close>

record 'a SpscRingCached =
  c_capacity :: size_t
  c_data :: "'a list"
  prod_head :: size_t
  prod_cached_tail :: size_t
  cons_tail :: size_t
  cons_cached_head :: size_t

definition cached_new :: "'a \<Rightarrow> size_t \<Rightarrow> 'a SpscRingCached" where
  "cached_new d c = \<lparr>c_capacity = c, c_data = replicate (unat c) d,
     prod_head = 0, prod_cached_tail = 0, cons_tail = 0, cons_cached_head = 0\<rparr>"

definition cached_push :: "size_t \<Rightarrow> 'a SpscRingCached \<Rightarrow> 'a \<Rightarrow> (bool \<times> 'a SpscRingCached) option" where
  "cached_push tail_seen r x = do {
     let head = prod_head r;
     let r = (if head - prod_cached_tail r \<ge> c_capacity r then r\<lparr>prod_cached_tail := tail_seen\<rparr> else r);
     if head - prod_cached_tail r \<ge> c_capacity r then Some (False, r)
     else do {
       d \<leftarrow> write_at (c_data r) (unat (head AND (c_capacity r - 1))) x;
       Some (True, r\<lparr>c_data := d, prod_head := head + 1\<rparr>)
     }
   }"

definition cached_pop :: "size_t \<Rightarrow> 'a SpscRingCached \<Rightarrow> 'a \<Rightarrow> (bool \<times> 'a \<times> 'a SpscRingCached) option" where
  "cached_pop head_seen r x = do {
     let tail = cons_tail r;
     let r = (if cons_cached_head r = tail then r\<lparr>cons_cached_head := head_seen\<rparr> else r);
     if cons_cached_head r = tail then Some (False, x, r)
     else do {
       x \<leftarrow> read_at (c_data r) (unat (tail AND (c_capacity r - 1)));
       Some (True, x, r\<lparr>cons_tail := tail + 1\<rparr>)
     }
   }"

definition cached_push_many ::
    "size_t \<Rightarrow> 'a SpscRingCached \<Rightarrow> 'a list \<Rightarrow> size_t \<Rightarrow> (size_t \<times> 'a SpscRingCached) option" where
  "cached_push_many tail_seen r xs max_count = do {
     let head = prod_head r;
     let used = head - prod_cached_tail r;
     let (r, used) = (if used \<ge> c_capacity r then (r\<lparr>prod_cached_tail := tail_seen\<rparr>, head - tail_seen) else (r, used));
     if used \<ge> c_capacity r then Some (0, r)
     else do {
       let count = min (c_capacity r - used) max_count;
       if count = 0 then Some (0, r)
       else do {
         d \<leftarrow> copy_in (ring_mask (c_capacity r)) head xs 0 (unat count) (c_data r);
         Some (count, r\<lparr>c_data := d, prod_head := head + count\<rparr>)
       }
     }
   }"

definition cached_pop_many ::
    "size_t \<Rightarrow> 'a SpscRingCached \<Rightarrow> 'a list \<Rightarrow> size_t \<Rightarrow> (size_t \<times> 'a list \<times> 'a SpscRingCached) option" where
  "cached_pop_many head_seen r out max_count = do {
     let tail = cons_tail r;
     let r = (if cons_cached_head r = tail then r\<lparr>cons_cached_head := head_seen\<rparr> else r);
     if cons_cached_head r = tail then Some (0, out, r)
     else do {
       let count = min (cons_cached_head r - tail) max_count;
       if count = 0 then Some (0, out, r)
       else do {
         out \<leftarrow> copy_out (ring_mask (c_capacity r)) tail (c_data r) 0 (unat count) out;
         Some (count, out, r\<lparr>cons_tail := tail + count\<rparr>)
       }
     }
   }"

subsection \<open>The plain ring underneath\<close>

definition plain :: "'a SpscRingCached \<Rightarrow> 'a SpscRing" where
  "plain r = \<lparr>ring_capacity = c_capacity r, ring_data = c_data r, ring_head = prod_head r, ring_tail = cons_tail r\<rparr>"

lemma plain_simps [simp]:
  "ring_capacity (plain r) = c_capacity r" "ring_data (plain r) = c_data r"
  "ring_head (plain r) = prod_head r" "ring_tail (plain r) = cons_tail r"
  by (simp_all add: plain_def)

lemma plain_caches [simp]:
  "plain (r\<lparr>prod_cached_tail := t\<rparr>) = plain r" "plain (r\<lparr>cons_cached_head := h\<rparr>) = plain r"
  by (simp_all add: plain_def)

definition cached_inv :: "'a SpscRingCached \<Rightarrow> bool" where
  "cached_inv r \<longleftrightarrow> ring_inv (plain r) \<and> tail_ok (plain r) (prod_cached_tail r) \<and> head_ok (plain r) (cons_cached_head r)"

definition cached_items :: "'a SpscRingCached \<Rightarrow> 'a list" where
  "cached_items r = ring_items (plain r)"

definition cached_room :: "'a SpscRingCached \<Rightarrow> nat" where
  "cached_room r = ring_room (plain r)"

text \<open>The counter value an operation works with.\<close>

definition tail_used :: "size_t \<Rightarrow> 'a SpscRingCached \<Rightarrow> size_t" where
  "tail_used t r = (if prod_head r - prod_cached_tail r \<ge> c_capacity r then t else prod_cached_tail r)"

definition head_used :: "size_t \<Rightarrow> 'a SpscRingCached \<Rightarrow> size_t" where
  "head_used h r = (if cons_cached_head r = cons_tail r then h else cons_cached_head r)"

lemma cached_push_plain:
  "map_option (\<lambda>(ok, r'). (ok, plain r', prod_cached_tail r', cons_cached_head r')) (cached_push t r x) =
   map_option (\<lambda>(ok, p). (ok, p, tail_used t r, cons_cached_head r)) (spsc_push (tail_used t r) (plain r) x)"
  by (auto simp: cached_push_def spsc_push_def Let_def tail_used_def plain_def map_option_do)

lemma cached_pop_plain:
  "map_option (\<lambda>(ok, y, r'). (ok, y, plain r', prod_cached_tail r', cons_cached_head r')) (cached_pop h r x) =
   map_option (\<lambda>(ok, y, p). (ok, y, p, prod_cached_tail r, head_used h r)) (spsc_pop (head_used h r) (plain r) x)"
  by (auto simp: cached_pop_def spsc_pop_def Let_def head_used_def plain_def map_option_do)

lemma cached_push_many_plain:
  assumes "tail_ok (plain r) (tail_used t r)"
  shows "map_option (\<lambda>(k, r'). (k, plain r', prod_cached_tail r', cons_cached_head r')) (cached_push_many t r xs m) =
   map_option (\<lambda>(k, p). (k, p, tail_used t r, cons_cached_head r)) (spsc_push_many (tail_used t r) (plain r) xs m)"
proof -
  have "c_capacity r \<le> prod_head r - tail_used t r \<Longrightarrow> c_capacity r = prod_head r - tail_used t r"
    using assms by (simp add: tail_ok_def word_le_nat_alt)
  then have "c_capacity r \<le> prod_head r - tail_used t r \<Longrightarrow>
      min (c_capacity r - (prod_head r - tail_used t r)) m = 0"
    by simp
  then show ?thesis
    by (auto simp: cached_push_many_def spsc_push_many_def Let_def tail_used_def plain_def
        map_option_do)
qed

lemma cached_pop_many_plain:
  "map_option (\<lambda>(k, ys, r'). (k, ys, plain r', prod_cached_tail r', cons_cached_head r')) (cached_pop_many h r out m) =
   map_option (\<lambda>(k, ys, p). (k, ys, p, prod_cached_tail r, head_used h r)) (spsc_pop_many (head_used h r) (plain r) out m)"
  by (auto simp: cached_pop_many_def spsc_pop_many_def Let_def head_used_def plain_def min_def map_option_do)

subsection \<open>The operations\<close>

lemma cached_inv_new: "capacity_ok c \<Longrightarrow> cached_inv (cached_new d c)"
  using ring_inv_new [of c d]
  by (simp add: cached_inv_def cached_new_def plain_def ring_new_def tail_ok_def head_ok_def ring_used_def)

lemma cached_items_new [simp]: "cached_items (cached_new d c) = []"
  by (simp add: cached_items_def cached_new_def plain_def ring_items_def items_from_def ring_used_def)

lemma used_ok:
  assumes "cached_inv r"
  shows "tail_ok (plain r) t \<Longrightarrow> tail_ok (plain r) (tail_used t r)"
    and "head_ok (plain r) h \<Longrightarrow> head_ok (plain r) (head_used h r)"
  using assms by (simp_all add: cached_inv_def tail_used_def head_used_def)

lemma cached_push_run:
  assumes inv: "cached_inv r" and t: "tail_ok (plain r) t"
  shows "\<exists>r'. cached_push t r x = Some (unat (prod_head r - tail_used t r) \<noteq> unat (c_capacity r), r') \<and>
     cached_inv r' \<and> c_capacity r' = c_capacity r \<and>
     cached_items r' = (if unat (prod_head r - tail_used t r) \<noteq> unat (c_capacity r)
       then cached_items r @ [x] else cached_items r)"
proof -
  let ?t = "tail_used t r"
  have p: "ring_inv (plain r)" and h: "head_ok (plain r) (cons_cached_head r)"
    using inv by (simp_all add: cached_inv_def)
  note seen = used_ok(1) [OF inv t]
  note eq = cached_push_plain [of t r x]
  show ?thesis
  proof (cases "unat (prod_head r - ?t) = unat (c_capacity r)")
    case True
    then obtain r' where "cached_push t r x = Some (False, r')" "plain r' = plain r"
        "prod_cached_tail r' = ?t" "cons_cached_head r' = cons_cached_head r"
      using push_run [OF p seen, of x] eq by auto
    then show ?thesis
      using True p h seen plain_simps(1) [of r'] by (auto simp: cached_inv_def cached_items_def)
  next
    case False
    then obtain q r' where q: "ring_inv q" "ring_items q = ring_items (plain r) @ [x]"
        "ring_tail q = cons_tail r" "ring_head q = prod_head r + 1" "ring_capacity q = c_capacity r" "tail_ok q ?t"
      and r': "cached_push t r x = Some (True, r')" "plain r' = q"
        "prod_cached_tail r' = ?t" "cons_cached_head r' = cons_cached_head r"
      using push_run [OF p seen, of x] eq by auto
    have "ring_used (plain r) \<le> ring_used q"
      using arg_cong [OF q(2), of length] by simp
    then have "head_ok q (cons_cached_head r)" using h q(3) by (simp add: head_ok_def)
    then show ?thesis
      using False q r' plain_simps(1) [of r'] by (auto simp: cached_inv_def cached_items_def)
  qed
qed

lemma tail_ok_pop:
  assumes "tail_ok q t" and "ring_head q' = ring_head q" "ring_capacity q' = ring_capacity q"
    and "ring_used q' \<le> ring_used q"
  shows "tail_ok q' t"
  using assms by (simp add: tail_ok_def)

lemma cached_pop_run:
  assumes inv: "cached_inv r" and h: "head_ok (plain r) h"
  shows "if head_used h r = cons_tail r
     then \<exists>r'. cached_pop h r x = Some (False, x, r') \<and> cached_inv r' \<and> cached_items r' = cached_items r \<and>
       c_capacity r' = c_capacity r
     else \<exists>y ys r'. cached_items r = y # ys \<and> cached_pop h r x = Some (True, y, r') \<and> cached_inv r' \<and>
       cached_items r' = ys \<and> c_capacity r' = c_capacity r"
proof -
  let ?h = "head_used h r"
  have p: "ring_inv (plain r)" and t: "tail_ok (plain r) (prod_cached_tail r)"
    using inv by (simp_all add: cached_inv_def)
  note seen = used_ok(2) [OF inv h]
  note eq = cached_pop_plain [of h r x]
  show ?thesis
  proof (cases "?h = cons_tail r")
    case True
    then obtain r' where "cached_pop h r x = Some (False, x, r')" "plain r' = plain r"
        "prod_cached_tail r' = prod_cached_tail r" "cons_cached_head r' = ?h"
      using pop_run [OF p seen, of x] eq by auto
    then show ?thesis
      using True p t seen plain_simps(1) [of r'] by (auto simp: cached_inv_def cached_items_def)
  next
    case False
    then obtain y ys q r' where q: "ring_items (plain r) = y # ys" "ring_inv q" "ring_items q = ys"
        "ring_head q = prod_head r" "ring_capacity q = c_capacity r" "head_ok q ?h"
      and r': "cached_pop h r x = Some (True, y, r')" "plain r' = q"
        "prod_cached_tail r' = prod_cached_tail r" "cons_cached_head r' = ?h"
      using pop_run [OF p seen, of x] eq by auto
    have "ring_used q \<le> ring_used (plain r)"
      using arg_cong [OF q(1), of length] arg_cong [OF q(3), of length] by simp
    then have "tail_ok q (prod_cached_tail r)" using tail_ok_pop [OF t] q(4,5) by simp
    then show ?thesis
      using False q r' plain_simps(1) [of r'] by (auto simp: cached_inv_def cached_items_def)
  qed
qed

lemma cached_push_many_run:
  assumes inv: "cached_inv r" and t: "tail_ok (plain r) t" and xs: "unat m \<le> length xs"
  obtains k r' where "cached_push_many t r xs m = Some (k, r')" "cached_inv r'"
    "cached_items r' = cached_items r @ take (unat k) xs" "c_capacity r' = c_capacity r"
    "unat k = min (unat (c_capacity r) - unat (prod_head r - tail_used t r)) (unat m)"
proof -
  let ?t = "tail_used t r"
  have p: "ring_inv (plain r)" and h: "head_ok (plain r) (cons_cached_head r)"
    using inv by (simp_all add: cached_inv_def)
  note seen = used_ok(1) [OF inv t]
  obtain k q where q: "spsc_push_many ?t (plain r) xs m = Some (k, q)" "ring_inv q"
      "ring_items q = ring_items (plain r) @ take (unat k) xs" "ring_tail q = cons_tail r"
      "ring_capacity q = c_capacity r" "tail_ok q ?t"
      "unat k = min (unat (c_capacity r) - unat (prod_head r - ?t)) (unat m)"
    by (rule push_many_run [OF p seen xs]) (auto simp: that)
  then obtain r' where r': "cached_push_many t r xs m = Some (k, r')" "plain r' = q"
      "prod_cached_tail r' = ?t" "cons_cached_head r' = cons_cached_head r"
    using cached_push_many_plain [OF seen, of xs m] by auto
  have "ring_used (plain r) \<le> ring_used q"
    using arg_cong [OF q(3), of length] by simp
  then have "head_ok q (cons_cached_head r)" using h q(4) by (simp add: head_ok_def)
  then show ?thesis
    using q r' plain_simps(1) [of r'] by (intro that [of k r']) (auto simp: cached_inv_def cached_items_def)
qed

lemma cached_pop_many_run:
  assumes inv: "cached_inv r" and h: "head_ok (plain r) h" and ys: "unat m \<le> length ys"
  obtains k r' where
    "cached_pop_many h r ys m = Some (k, take (unat k) (cached_items r) @ drop (unat k) ys, r')" "cached_inv r'"
    "cached_items r' = drop (unat k) (cached_items r)" "unat k \<le> length (cached_items r)"
    "c_capacity r' = c_capacity r"
    "unat k = min (unat (head_used h r - cons_tail r)) (unat m)"
proof -
  let ?h = "head_used h r"
  have p: "ring_inv (plain r)" and t: "tail_ok (plain r) (prod_cached_tail r)"
    using inv by (simp_all add: cached_inv_def)
  note seen = used_ok(2) [OF inv h]
  obtain k q where q: "spsc_pop_many ?h (plain r) ys m =
        Some (k, take (unat k) (ring_items (plain r)) @ drop (unat k) ys, q)" "ring_inv q"
      "ring_items q = drop (unat k) (ring_items (plain r))" "unat k \<le> length (ring_items (plain r))"
      "ring_head q = prod_head r" "ring_capacity q = c_capacity r" "head_ok q ?h"
      "unat k = min (unat (?h - cons_tail r)) (unat m)"
    by (rule pop_many_run [OF p seen ys]) (auto simp: that)
  then obtain r' where r': "cached_pop_many h r ys m =
        Some (k, take (unat k) (ring_items (plain r)) @ drop (unat k) ys, r')" "plain r' = q"
      "prod_cached_tail r' = prod_cached_tail r" "cons_cached_head r' = ?h"
    using cached_pop_many_plain [of h r ys m] by auto
  have "ring_used q \<le> ring_used (plain r)"
    using arg_cong [OF q(3), of length] by simp
  then have "tail_ok q (prod_cached_tail r)" using tail_ok_pop [OF t] q(5,6) by simp
  then show ?thesis
    using q r' plain_simps(1) [of r'] by (intro that [of k r']) (auto simp: cached_inv_def cached_items_def)
qed

subsection \<open>The ring is a queue\<close>

lemma current_full:
  assumes "cached_inv r"
  shows "unat (prod_head r - tail_used (cons_tail r) r) = unat (c_capacity r) \<longleftrightarrow>
     length (cached_items r) = cached_room r"
    and "length (cached_items r) \<le> cached_room r" "0 < cached_room r"
  using assms
  by (auto simp: cached_inv_def tail_used_def cached_items_def cached_room_def ring_room_def tail_ok_def
      ring_used_def ring_inv_def word_le_nat_alt simp del: unat_inject)

lemma current_empty:
  assumes "cached_inv r"
  shows "head_used (prod_head r) r = cons_tail r \<longleftrightarrow> cached_items r = []"
proof -
  have le: "unat (cons_cached_head r - cons_tail r) \<le> unat (prod_head r - cons_tail r)"
    using assms by (simp add: cached_inv_def head_ok_def ring_used_def)
  have "cached_items r = [] \<longleftrightarrow> unat (prod_head r - cons_tail r) = 0"
    by (simp add: cached_items_def ring_used_def length_0_conv [symmetric] del: length_0_conv)
  also have "\<dots> \<longleftrightarrow> prod_head r = cons_tail r" by (simp add: unat_0_iff)
  also have "\<dots> \<longleftrightarrow> head_used (prod_head r) r = cons_tail r"
    using le by (auto simp: head_used_def unat_0_iff)
  finally show ?thesis by blast
qed

interpretation cached_queue: batch_queue cached_inv cached_items cached_room
  "\<lambda>r. cached_push (cons_tail r) r" "\<lambda>r. cached_pop (prod_head r) r"
  "\<lambda>r. cached_push_many (cons_tail r) r" "\<lambda>r. cached_pop_many (prod_head r) r"
proof unfold_locales
  fix r :: "'a SpscRingCached" and x
  assume inv: "cached_inv r"
  then have t: "tail_ok (plain r) (cons_tail r)" and h: "head_ok (plain r) (prod_head r)"
    using current_ok(1) [of "plain r"] current_ok(2) [of "plain r"] by (simp_all add: cached_inv_def)
  have room: "cached_room r' = cached_room r" if "c_capacity r' = c_capacity r" for r' :: "'a SpscRingCached"
    using that by (simp add: cached_room_def ring_room_def)
  show "if length (cached_items r) = cached_room r
     then \<exists>q'. cached_push (cons_tail r) r x = Some (False, q') \<and> cached_inv q' \<and> cached_items q' = cached_items r \<and> cached_room q' = cached_room r
     else \<exists>q'. cached_push (cons_tail r) r x = Some (True, q') \<and> cached_inv q' \<and> cached_items q' = cached_items r @ [x] \<and> cached_room q' = cached_room r"
    using cached_push_run [OF inv t, of x] unfolding current_full(1) [OF inv] by (auto dest: room)
  show "case cached_items r of
      [] \<Rightarrow> \<exists>q'. cached_pop (prod_head r) r x = Some (False, x, q') \<and> cached_inv q' \<and> cached_items q' = [] \<and> cached_room q' = cached_room r
    | y # ys \<Rightarrow> \<exists>q'. cached_pop (prod_head r) r x = Some (True, y, q') \<and> cached_inv q' \<and> cached_items q' = ys \<and> cached_room q' = cached_room r"
    using cached_pop_run [OF inv h, of x] unfolding current_empty [OF inv]
    by (cases "cached_items r") (auto dest: room)
  show "length (cached_items r) \<le> cached_room r \<and> 0 < cached_room r"
    using current_full [OF inv] by blast
  fix n :: size_t and xs :: "'a list"
  assume n: "unat n \<le> length xs"
  have free: "0 < unat (c_capacity r) - unat (prod_head r - tail_used (cons_tail r) r)"
    if "length (cached_items r) < cached_room r"
    using current_full(1) [OF inv] that used_ok(1) [OF inv t] by (simp add: tail_ok_def del: unat_inject)
  show "\<exists>k q'. cached_push_many (cons_tail r) r xs n = Some (k, q') \<and> cached_inv q' \<and> cached_room q' = cached_room r \<and> k \<le> n \<and>
     cached_items q' = cached_items r @ take (unat k) xs \<and> (0 < n \<and> length (cached_items r) < cached_room r \<longrightarrow> 0 < k)"
  proof -
    obtain k r' where run: "cached_push_many (cons_tail r) r xs n = Some (k, r')"
        and r': "cached_inv r'" "cached_items r' = cached_items r @ take (unat k) xs" "c_capacity r' = c_capacity r"
          "unat k = min (unat (c_capacity r) - unat (prod_head r - tail_used (cons_tail r) r)) (unat n)"
      by (rule cached_push_many_run [OF inv t n]) (rule that)
    have "k \<le> n" using r'(4) by (simp add: word_le_nat_alt)
    moreover have "0 < k" if "0 < n" "length (cached_items r) < cached_room r"
      using r'(4) free [OF that(2)] that(1) by (simp add: word_less_nat_alt)
    ultimately show ?thesis using run r'(1,2) room [OF r'(3)] by blast
  qed
  have some: "0 < unat (head_used (prod_head r) r - cons_tail r)" if "cached_items r \<noteq> []"
    using current_empty [OF inv] that by (simp add: unat_gt_0)
  show "\<exists>k q'. cached_pop_many (prod_head r) r xs n = Some (k, take (unat k) (cached_items r) @ drop (unat k) xs, q') \<and>
     cached_inv q' \<and> cached_room q' = cached_room r \<and> k \<le> n \<and> unat k \<le> length (cached_items r) \<and>
     cached_items q' = drop (unat k) (cached_items r) \<and> (0 < n \<and> cached_items r \<noteq> [] \<longrightarrow> 0 < k)"
  proof -
    obtain k r' where run: "cached_pop_many (prod_head r) r xs n =
          Some (k, take (unat k) (cached_items r) @ drop (unat k) xs, r')"
        and r': "cached_inv r'" "cached_items r' = drop (unat k) (cached_items r)"
          "unat k \<le> length (cached_items r)" "c_capacity r' = c_capacity r"
          "unat k = min (unat (head_used (prod_head r) r - cons_tail r)) (unat n)"
      by (rule cached_pop_many_run [OF inv h n]) (rule that)
    have "k \<le> n" using r'(5) by (simp add: word_le_nat_alt)
    moreover have "0 < k" if "0 < n" "cached_items r \<noteq> []"
      using r'(5) some [OF that(2)] that(1) by (simp add: word_less_nat_alt)
    ultimately show ?thesis using run r'(1-3) room [OF r'(4)] by blast
  qed
qed

text \<open>The operations when a load of the other thread's counter is \<open>s\<close> behind.\<close>

definition cached_push_at :: "nat \<Rightarrow> 'a SpscRingCached \<Rightarrow> 'a \<Rightarrow> (bool \<times> 'a SpscRingCached) option" where
  "cached_push_at s r x = cached_push (stale_tail s (plain r)) r x"

definition cached_pop_at :: "nat \<Rightarrow> 'a SpscRingCached \<Rightarrow> 'a \<Rightarrow> (bool \<times> 'a \<times> 'a SpscRingCached) option" where
  "cached_pop_at s r x = cached_pop (stale_head s (plain r)) r x"

definition cached_push_many_at ::
    "nat \<Rightarrow> 'a SpscRingCached \<Rightarrow> 'a list \<Rightarrow> size_t \<Rightarrow> (size_t \<times> 'a SpscRingCached) option" where
  "cached_push_many_at s r xs n = cached_push_many (stale_tail s (plain r)) r xs n"

definition cached_pop_many_at ::
    "nat \<Rightarrow> 'a SpscRingCached \<Rightarrow> 'a list \<Rightarrow> size_t \<Rightarrow> (size_t \<times> 'a list \<times> 'a SpscRingCached) option" where
  "cached_pop_many_at s r out n = cached_pop_many (stale_head s (plain r)) r out n"

interpretation cached_stale: stale_queue cached_inv cached_items cached_room
  "\<lambda>r. cached_push (cons_tail r) r" "\<lambda>r. cached_pop (prod_head r) r"
  "\<lambda>r. cached_push_many (cons_tail r) r" "\<lambda>r. cached_pop_many (prod_head r) r"
  cached_push_at cached_pop_at cached_push_many_at cached_pop_many_at
proof unfold_locales
  fix r :: "'a SpscRingCached" and x and xs :: "'a list" and n :: size_t and s
  show "cached_push_at 0 r x = cached_push (cons_tail r) r x" "cached_pop_at 0 r x = cached_pop (prod_head r) r x"
    "cached_push_many_at 0 r xs n = cached_push_many (cons_tail r) r xs n"
    "cached_pop_many_at 0 r xs n = cached_pop_many (prod_head r) r xs n"
    by (simp_all add: cached_push_at_def cached_pop_at_def cached_push_many_at_def cached_pop_many_at_def)
  assume inv: "cached_inv r"
  then have t: "tail_ok (plain r) (stale_tail s (plain r))" and h: "head_ok (plain r) (stale_head s (plain r))"
    using stale_ok [of "plain r"] by (simp_all add: cached_inv_def)
  show "\<exists>ok q'. cached_push_at s r x = Some (ok, q') \<and> cached_inv q' \<and> cached_items q' = cached_items r @ (if ok then [x] else [])"
    unfolding cached_push_at_def using cached_push_run [OF inv t, of x] by (auto split: if_splits)
  show "\<exists>ok y q'. cached_pop_at s r x = Some (ok, y, q') \<and> cached_inv q' \<and>
      (if ok then cached_items r = y # cached_items q' else y = x \<and> cached_items q' = cached_items r)"
    unfolding cached_pop_at_def using cached_pop_run [OF inv h, of x] by (auto split: if_splits)
  assume n: "unat n \<le> length xs"
  show "\<exists>k q'. cached_push_many_at s r xs n = Some (k, q') \<and> cached_inv q' \<and> k \<le> n \<and>
      cached_items q' = cached_items r @ take (unat k) xs"
    unfolding cached_push_many_at_def
    by (rule cached_push_many_run [OF inv t n]) (auto simp: word_le_nat_alt)
  show "\<exists>k q'. cached_pop_many_at s r xs n = Some (k, take (unat k) (cached_items r) @ drop (unat k) xs, q') \<and>
      cached_inv q' \<and> k \<le> n \<and> unat k \<le> length (cached_items r) \<and> cached_items q' = drop (unat k) (cached_items r)"
    unfolding cached_pop_many_at_def
    by (rule cached_pop_many_run [OF inv h n]) (auto simp: word_le_nat_alt)
qed

subsection \<open>Caching is invisible to a single thread\<close>

text \<open>A single thread's sequence of operations on the cached ring.\<close>

abbreviation cached_run ::
    "'a SpscRingCached \<Rightarrow> 'a \<Rightarrow> 'a queue_op list \<Rightarrow> ('a queue_answer list \<times> 'a SpscRingCached) option" where
  "cached_run \<equiv> queue_run (\<lambda>c. cached_push (cons_tail c) c) (\<lambda>c. cached_pop (prod_head c) c)
     (\<lambda>c. cached_push_many (cons_tail c) c) (\<lambda>c. cached_pop_many (prod_head c) c)"

text \<open>C14: whatever old values its caches hold, the cached ring is a bounded first-in first-out
  queue under every sequence of single and batch operations: each push and pop is answered as
  by a list, each batch moves items in order, at most as many as fit (as there are), and none
  only if none fit (there are none). It may move fewer than the plain ring does, because a copy
  that still shows some room (some items) is not loaded anew. Without batches there is no
  difference: the plain ring with the same contents and capacity gives the same answers to
  every sequence of pushes and pops and is left with the same contents.\<close>

theorem cached_ring_agrees:
  assumes "cached_inv c" and "list_all batch_ok ops"
  shows "\<exists>rs c'. cached_run c x ops = Some (rs, c') \<and> cached_inv c' \<and>
    run_allowed (unat (c_capacity c)) (cached_items c) x ops rs (cached_items c') \<and>
    (\<forall>r. list_all is_single ops \<and> ring_inv r \<and> ring_items r = cached_items c \<and> ring_capacity r = c_capacity c \<longrightarrow>
      (\<exists>r'. ring_run r x ops = Some (rs, r') \<and> ring_items r' = cached_items c'))"
proof -
  obtain rs c' where run: "cached_run c x ops = Some (rs, c')" "cached_inv c'"
      "run_allowed (unat (c_capacity c)) (cached_items c) x ops rs (cached_items c')"
    using cached_queue.queue_run_allowed [OF assms, of x] by (auto simp: cached_room_def ring_room_def)
  have "\<exists>r'. ring_run r x ops = Some (rs, r') \<and> ring_items r' = cached_items c'"
    if "list_all is_single ops" "ring_inv r" "ring_items r = cached_items c" "ring_capacity r = c_capacity c" for r
    using ring_queue.queue_run_list [OF that(2) assms(2), of x] run_allowed_single [OF run(3) that(1)] that(3,4)
    by (auto simp: ring_room_def)
  then show ?thesis using run by blast
qed

theorem cached_ring_agrees_witness:
  "(\<exists>rs c' r'. cached_run (cached_new (0 :: nat) 2) 9 [Push 1, Push 2, Push 3, Pop, Pop, Push 4, Pop] = Some (rs, c') \<and>
     ring_run (ring_new 0 2) 9 [Push 1, Push 2, Push 3, Pop, Pop, Push 4, Pop] = Some (rs, r') \<and>
     ring_items r' = cached_items c') \<and>
   (\<exists>rs c'. cached_run (cached_new (0 :: nat) 2) 9 [Push 1, Pop, PushMany [5, 6] 2] = Some (rs, c') \<and>
     run_allowed 2 [] 9 [Push 1, Pop, PushMany [5, 6] 2] rs (cached_items c'))"
proof -
  have c: "capacity_ok 2" by (simp add: capacity_ok_def) code_simp
  have inv: "cached_inv (cached_new (0 :: nat) 2)" "ring_inv (ring_new (0 :: nat) 2)"
    by (simp_all add: cached_inv_new [OF c] ring_inv_new [OF c])
  have eqs: "ring_items (ring_new (0 :: nat) 2) = cached_items (cached_new 0 2)" "c_capacity (cached_new (0 :: nat) 2) = 2"
    "ring_capacity (ring_new (0 :: nat) 2) = 2"
    by (simp, simp_all add: cached_new_def ring_new_def)
  let ?singles = "[Push 1, Push 2, Push 3, Pop, Pop, Push 4, Pop]" and ?batch = "[Push 1, Pop, PushMany [5, 6] 2]"
  obtain rs c' where 1: "cached_run (cached_new (0 :: nat) 2) 9 ?singles = Some (rs, c')"
      "ring_inv r \<and> ring_items r = cached_items (cached_new 0 2) \<and> ring_capacity r = c_capacity (cached_new (0 :: nat) 2) \<Longrightarrow>
        \<exists>r'. ring_run r 9 ?singles = Some (rs, r') \<and> ring_items r' = cached_items c'" for r
    using cached_ring_agrees [OF inv(1), of ?singles 9] by (simp del: queue_run.simps cached_items_new) blast
  have "\<exists>r'. ring_run (ring_new 0 2) 9 ?singles = Some (rs, r') \<and> ring_items r' = cached_items c'"
    by (rule 1(2)) (simp only: inv(2) eqs simp_thms)
  moreover have "\<exists>rs c'. cached_run (cached_new (0 :: nat) 2) 9 ?batch = Some (rs, c') \<and>
      run_allowed 2 [] 9 ?batch rs (cached_items c')"
    using cached_ring_agrees [OF inv(1), of ?batch 9] eqs by (simp del: queue_run.simps) blast
  ultimately show ?thesis using 1(1) by blast
qed

text \<open>The producer's copy of the tail is old here, so the batch finds one free cell of the two; the
  plain ring loads the tail and finds both.\<close>

lemma cached_batch_may_be_short:
  "map_option fst (cached_run (cached_new (0 :: nat) 2) 9 [Push 1, Pop, PushMany [5, 6] 2]) =
     Some [Pushed True, Popped True 1, PushedMany 1]"
  "map_option fst (ring_run (ring_new (0 :: nat) 2) 9 [Push 1, Pop, PushMany [5, 6] 2]) =
     Some [Pushed True, Popped True 1, PushedMany 2]"
  by code_simp+

end
