(* ===== verification/Ring_Threads.thy ===== *)
theory Ring_Threads
  imports Spsc_Ring_Cached
begin

text \<open>
  The rings under two threads. A state is the shared ring together with what each
  thread is doing; a step is one memory access of one thread, so the steps of a push
  and of a pop interleave in every way. The producer's acquire load of \<open>tail_\<close> may
  return any value from the last one it saw to the current one (and the consumer's of
  \<open>head_\<close> likewise); this covers the plain ring, whose loads may lag behind, and the
  cached ring, whose cached counter is the last value seen. A single push (pop) is a
  batch of one. The array cells are plain memory: that no two threads touch a cell at
  the same time is one of the theorems.
\<close>

datatype 'a producer =
    PIdle
  | PCopy (p_head: size_t) (p_in: "'a list") (p_count: size_t) (p_i: size_t)

datatype 'a consumer =
    CIdle
  | CCopy (c_tail: size_t) (c_count: size_t) (c_i: size_t) (c_out: "'a list")

record 'a ring_threads =
  shared :: "'a SpscRing"
  producer :: "'a producer"
  tail_last :: size_t
  consumer :: "'a consumer"
  head_last :: size_t
  sent :: "'a list"
  received :: "'a list"

definition threads_init :: "'a \<Rightarrow> size_t \<Rightarrow> 'a ring_threads" where
  "threads_init d c = \<lparr>shared = ring_new d c, producer = PIdle, tail_last = 0,
     consumer = CIdle, head_last = 0, sent = [], received = []\<rparr>"

text \<open>A load may return what was seen last, the current value, or one in between.\<close>

definition may_load :: "size_t \<Rightarrow> size_t \<Rightarrow> size_t \<Rightarrow> bool" where
  "may_load seen current v \<longleftrightarrow> unat (current - v) \<le> unat (current - seen)"

inductive ring_step :: "'a ring_threads \<Rightarrow> 'a ring_threads \<Rightarrow> bool" where
  push_begin:
    "producer s = PIdle \<Longrightarrow> unat max_count \<le> length xs \<Longrightarrow>
     may_load (tail_last s) (ring_tail (shared s)) t \<Longrightarrow>
     used = ring_head (shared s) - t \<Longrightarrow>
     count = min (ring_capacity (shared s) - used) max_count \<Longrightarrow>
     ring_step s (s\<lparr>tail_last := t,
       producer := if count = 0 then PIdle else PCopy (ring_head (shared s)) xs count 0\<rparr>)"
| push_copy:
    "producer s = PCopy h xs n i \<Longrightarrow> i < n \<Longrightarrow>
     read_at xs (unat i) = Some x \<Longrightarrow>
     write_at (ring_data (shared s)) (unat ((h + i) AND ring_mask (ring_capacity (shared s)))) x = Some d \<Longrightarrow>
     ring_step s (s\<lparr>shared := (shared s)\<lparr>ring_data := d\<rparr>, producer := PCopy h xs n (i + 1)\<rparr>)"
| push_end:
    "producer s = PCopy h xs n i \<Longrightarrow> \<not> i < n \<Longrightarrow>
     ring_step s (s\<lparr>shared := (shared s)\<lparr>ring_head := h + n\<rparr>, producer := PIdle,
       sent := sent s @ take (unat n) xs\<rparr>)"
| pop_begin:
    "consumer s = CIdle \<Longrightarrow>
     may_load (head_last s) (ring_head (shared s)) h \<Longrightarrow>
     count = min (h - ring_tail (shared s)) max_count \<Longrightarrow>
     ring_step s (s\<lparr>head_last := h,
       consumer := if count = 0 then CIdle else CCopy (ring_tail (shared s)) count 0 []\<rparr>)"
| pop_copy:
    "consumer s = CCopy t n i ys \<Longrightarrow> i < n \<Longrightarrow>
     read_at (ring_data (shared s)) (unat ((t + i) AND ring_mask (ring_capacity (shared s)))) = Some x \<Longrightarrow>
     ring_step s (s\<lparr>consumer := CCopy t n (i + 1) (ys @ [x])\<rparr>)"
| pop_end:
    "consumer s = CCopy t n i ys \<Longrightarrow> \<not> i < n \<Longrightarrow>
     ring_step s (s\<lparr>shared := (shared s)\<lparr>ring_tail := t + n\<rparr>, consumer := CIdle,
       received := received s @ ys\<rparr>)"

inductive ring_reachable :: "'a \<Rightarrow> size_t \<Rightarrow> 'a ring_threads \<Rightarrow> bool" for d c where
  start: "ring_reachable d c (threads_init d c)"
| step: "ring_reachable d c s \<Longrightarrow> ring_step s s' \<Longrightarrow> ring_reachable d c s'"

subsection \<open>The invariant\<close>

definition producer_inv :: "'a SpscRing \<Rightarrow> size_t \<Rightarrow> 'a producer \<Rightarrow> bool" where
  "producer_inv r t p \<longleftrightarrow> (case p of
       PIdle \<Rightarrow> True
     | PCopy h xs n i \<Rightarrow>
         h = ring_head r \<and> i \<le> n \<and> unat n \<le> length xs \<and>
         unat (ring_head r - t) + unat n \<le> unat (ring_capacity r) \<and>
         items_from (ring_capacity r) (ring_data r) (ring_tail r) (ring_used r + unat i) =
           ring_items r @ take (unat i) xs)"

definition consumer_inv :: "'a SpscRing \<Rightarrow> size_t \<Rightarrow> 'a consumer \<Rightarrow> bool" where
  "consumer_inv r h c \<longleftrightarrow> (case c of
       CIdle \<Rightarrow> True
     | CCopy t n i ys \<Rightarrow>
         t = ring_tail r \<and> i \<le> n \<and> unat n \<le> unat (h - ring_tail r) \<and> ys = take (unat i) (ring_items r))"

definition threads_inv :: "'a ring_threads \<Rightarrow> bool" where
  "threads_inv s \<longleftrightarrow>
     ring_inv (shared s) \<and> tail_ok (shared s) (tail_last s) \<and> head_ok (shared s) (head_last s) \<and>
     producer_inv (shared s) (tail_last s) (producer s) \<and>
     consumer_inv (shared s) (head_last s) (consumer s) \<and>
     sent s = received s @ ring_items (shared s)"

lemma producer_inv_simps [simp]:
  "producer_inv r t PIdle"
  "producer_inv r t (PCopy h xs n i) \<longleftrightarrow>
     h = ring_head r \<and> i \<le> n \<and> unat n \<le> length xs \<and>
     unat (ring_head r - t) + unat n \<le> unat (ring_capacity r) \<and>
     items_from (ring_capacity r) (ring_data r) (ring_tail r) (ring_used r + unat i) =
       ring_items r @ take (unat i) xs"
  by (simp_all add: producer_inv_def)

lemma consumer_inv_simps [simp]:
  "consumer_inv r h CIdle"
  "consumer_inv r h (CCopy t n i ys) \<longleftrightarrow>
     t = ring_tail r \<and> i \<le> n \<and> unat n \<le> unat (h - ring_tail r) \<and> ys = take (unat i) (ring_items r)"
  by (simp_all add: consumer_inv_def)

lemma threads_inv_init: "capacity_ok c \<Longrightarrow> threads_inv (threads_init d c)"
  by (simp add: threads_inv_def threads_init_def ring_inv_new)
     (simp add: ring_new_def tail_ok_def head_ok_def ring_used_def)

text \<open>Differences of counters add up as long as they stay below a capacity.\<close>

lemma diff_split:
  assumes "unat (a - b) + unat (b - c) < 2 ^ 64"
  shows "unat ((a :: size_t) - c) = unat (a - b) + unat (b - c)"
proof -
  have "a - c = (a - b) + (b - c)" by simp
  then have "unat (a - c) = unat ((a - b) + (b - c))" by (rule arg_cong)
  also have "\<dots> = unat (a - b) + unat (b - c)" using assms by (subst unat_plus_if') simp
  finally show ?thesis .
qed

lemma diff_split_le:
  assumes "unat (a - b) \<le> unat ((a :: size_t) - c)"
  shows "unat (a - c) = unat (a - b) + unat (b - c)"
proof -
  have "b - c = (a - c) - (a - b)" by simp
  then have "unat (b - c) = unat ((a - c) - (a - b))" by (rule arg_cong)
  also have "\<dots> = unat (a - c) - unat (a - b)" using assms by (subst unat_sub) (simp_all add: word_le_nat_alt)
  finally show ?thesis using assms by simp
qed

lemma tail_load_ok:
  assumes "tail_ok r l" and "may_load l (ring_tail r) t"
  shows "tail_ok r t"
proof -
  have 1: "unat (ring_head r - l) = unat (ring_head r - ring_tail r) + unat (ring_tail r - l)"
    using assms(1) by (intro diff_split_le) (simp add: tail_ok_def ring_used_def)
  have le: "unat (ring_tail r - t) \<le> unat (ring_tail r - l)" using assms(2) by (simp add: may_load_def)
  have "unat (ring_head r - t) = unat (ring_head r - ring_tail r) + unat (ring_tail r - t)"
    using 1 le unat_less_2p64 [of "ring_head r - l"] by (intro diff_split) simp
  then show ?thesis using 1 le assms(1) by (simp add: tail_ok_def ring_used_def)
qed

lemma head_load_ok:
  assumes "head_ok r l" and "may_load l (ring_head r) h"
  shows "head_ok r h" and "unat (l - ring_tail r) \<le> unat (h - ring_tail r)"
proof -
  let ?t = "ring_tail r" and ?h = "ring_head r"
  have l: "unat (l - ?t) \<le> unat (?h - ?t)" using assms(1) by (simp add: head_ok_def ring_used_def)
  have le: "unat (?h - h) \<le> unat (?h - l)" using assms(2) by (simp add: may_load_def)
  have "?h - l = (?h - ?t) - (l - ?t)" by simp
  then have "unat (?h - l) = unat ((?h - ?t) - (l - ?t))" by (rule arg_cong)
  then have hl: "unat (?h - l) = unat (?h - ?t) - unat (l - ?t)"
    using l by (subst (asm) unat_sub) (simp_all add: word_le_nat_alt)
  have "unat (?h - ?t) = unat (?h - h) + unat (h - ?t)"
    using le hl by (intro diff_split_le) simp
  then show "head_ok r h" and "unat (l - ?t) \<le> unat (h - ?t)"
    using le hl l by (simp_all add: head_ok_def ring_used_def)
qed

subsection \<open>Every step keeps the invariant\<close>

lemma threads_invD:
  assumes "threads_inv s"
  shows "ring_inv (shared s)" "tail_ok (shared s) (tail_last s)" "head_ok (shared s) (head_last s)"
    "producer_inv (shared s) (tail_last s) (producer s)" "consumer_inv (shared s) (head_last s) (consumer s)"
    "sent s = received s @ ring_items (shared s)"
  using assms by (simp_all add: threads_inv_def)

lemma inv_push_begin:
  assumes inv: "threads_inv s" and idle: "producer s = PIdle" and xs: "unat m \<le> length xs"
    and load: "may_load (tail_last s) (ring_tail (shared s)) t"
    and n: "n = min (ring_capacity (shared s) - (ring_head (shared s) - t)) m"
  shows "threads_inv (s\<lparr>tail_last := t,
    producer := if n = 0 then PIdle else PCopy (ring_head (shared s)) xs n 0\<rparr>)"
proof -
  have t: "tail_ok (shared s) t" by (rule tail_load_ok [OF threads_invD(2) [OF inv] load])
  then have le: "unat (ring_head (shared s) - t) \<le> unat (ring_capacity (shared s))" by (simp add: tail_ok_def)
  then have "unat n = min (unat (ring_capacity (shared s)) - unat (ring_head (shared s) - t)) (unat m)"
    by (simp add: n unat_sub word_le_nat_alt)
  then have "producer_inv (shared s) t (PCopy (ring_head (shared s)) xs n 0)"
    using le xs by (auto simp: ring_items_def)
  then show ?thesis using inv t by (simp add: threads_inv_def)
qed

lemma producing:
  assumes "threads_inv s" and "producer s = PCopy h xs n i"
  shows "h = ring_head (shared s)" "i \<le> n" "unat n \<le> length xs"
    "ring_used (shared s) + unat n \<le> unat (ring_capacity (shared s))"
    "items_from (ring_capacity (shared s)) (ring_data (shared s)) (ring_tail (shared s))
       (ring_used (shared s) + unat i) = ring_items (shared s) @ take (unat i) xs"
    "unat (ring_head (shared s) - tail_last s) + unat n \<le> unat (ring_capacity (shared s))"
  using threads_invD(2,4) [OF assms(1)] assms(2) by (simp_all add: tail_ok_def)

lemma producing_cell:
  assumes "threads_inv s" and "producer s = PCopy h xs n i"
  shows "unat ((h + i) AND ring_mask (ring_capacity (shared s))) =
    ring_pos (ring_capacity (shared s)) (ring_tail (shared s) + word_of_nat (ring_used (shared s) + unat i))"
proof -
  have "h + i = ring_tail (shared s) + word_of_nat (ring_used (shared s) + unat i)"
    by (simp add: producing(1) [OF assms] ring_used_def)
  then show ?thesis using threads_invD(1) [OF assms(1)] by (simp add: ring_mask_def ring_inv_def add.assoc)
qed

lemma items_from_take:
  assumes "n \<le> m"
  shows "items_from c d k n = take n (items_from c d k m)"
  using items_from_append [of c d k n "m - n"] assms by simp

lemma inv_push_copy:
  assumes inv: "threads_inv s" and p: "producer s = PCopy h xs n i" and i: "i < n"
    and x: "read_at xs (unat i) = Some x"
    and d: "write_at (ring_data (shared s)) (unat ((h + i) AND ring_mask (ring_capacity (shared s)))) x = Some d"
  shows "threads_inv (s\<lparr>shared := (shared s)\<lparr>ring_data := d\<rparr>, producer := PCopy h xs n (i + 1)\<rparr>)"
proof -
  let ?r = "shared s" and ?c = "ring_capacity (shared s)" and ?u = "ring_used (shared s) + unat i"
  let ?r' = "?r\<lparr>ring_data := d\<rparr>"
  note ri = threads_invD(1) [OF inv] and pr = producing [OF inv p]
  have c: "capacity_ok ?c" and len: "length (ring_data ?r) = unat ?c" using ri by (simp_all add: ring_inv_def)
  have i': "unat i < unat n" "unat (i + 1) = Suc (unat i)"
    using i unat_inc [OF i] by (simp_all add: word_less_nat_alt)
  have d': "d = (ring_data ?r)[ring_pos ?c (ring_tail ?r + word_of_nat ?u) := x]"
    using d unfolding producing_cell [OF inv p] by (simp add: write_at_def split: if_splits)
  have xi: "x = xs ! unat i" "unat i < length xs" using x by (simp_all add: read_at_eq_Some)
  have u: "?u < unat ?c" using pr(4) i' by simp
  have items: "ring_items ?r' = ring_items ?r"
    using items_from_write [OF c, of "ring_used ?r" ?u "ring_data ?r" "ring_tail ?r" x] u
    by (simp add: ring_items_def d' ring_used_def)
  have "items_from ?c d (ring_tail ?r) (Suc ?u) = ring_items ?r @ take (Suc (unat i)) xs"
    using items_from_snoc [OF c len u, of "ring_tail ?r" x] pr(5) xi
    by (simp add: d' take_Suc_conv_app_nth)
  moreover have "i + 1 \<le> n" using i' by (simp add: word_le_nat_alt)
  moreover have "ring_used ?r' = ring_used ?r" by (simp add: ring_used_def)
  ultimately have "producer_inv ?r' (tail_last s) (PCopy h xs n (i + 1))"
    using pr items i' by simp
  moreover have "ring_inv ?r'" "tail_ok ?r' (tail_last s)" "head_ok ?r' (head_last s)"
    using threads_invD(1-3) [OF inv] len by (simp_all add: ring_inv_def tail_ok_def head_ok_def ring_used_def d')
  moreover have "consumer_inv ?r' (head_last s) (consumer s)"
    using threads_invD(5) [OF inv] items by (cases "consumer s") simp_all
  ultimately show ?thesis using threads_invD(6) [OF inv] items by (simp add: threads_inv_def)
qed

lemma inv_push_end:
  assumes inv: "threads_inv s" and p: "producer s = PCopy h xs n i" and i: "\<not> i < n"
  shows "threads_inv (s\<lparr>shared := (shared s)\<lparr>ring_head := h + n\<rparr>, producer := PIdle,
    sent := sent s @ take (unat n) xs\<rparr>)"
proof -
  let ?r = "shared s" and ?c = "ring_capacity (shared s)"
  let ?r' = "?r\<lparr>ring_head := h + n\<rparr>"
  note ri = threads_invD(1) [OF inv] and pr = producing [OF inv p]
  have i': "i = n" using i pr(2) by simp
  have b: "unat n + ring_used ?r < 2 ^ 64" "unat n + unat (ring_head ?r - tail_last s) < 2 ^ 64"
    using pr(4,6) capacity_bound [of ?c] by simp_all
  have used: "ring_used ?r' = ring_used ?r + unat n"
      "unat (h + n - tail_last s) = unat n + unat (ring_head ?r - tail_last s)"
    using used_after_push [of "unat n" "ring_head ?r" "ring_tail ?r"]
      used_after_push [of "unat n" "ring_head ?r" "tail_last s"] b
    by (simp_all add: ring_used_def pr(1) add.commute)
  have items: "ring_items ?r' = ring_items ?r @ take (unat n) xs"
    using pr(5) i' by (simp add: ring_items_def used)
  have "ring_inv ?r'" "tail_ok ?r' (tail_last s)" "head_ok ?r' (head_last s)"
    using threads_invD(1-3) [OF inv] pr(4,6) used by (simp_all add: ring_inv_def tail_ok_def head_ok_def)
  moreover have "consumer_inv ?r' (head_last s) (consumer s)"
  proof (cases "consumer s")
    case (CCopy t m j ys)
    have "unat j \<le> ring_used ?r"
      using threads_invD(3,5) [OF inv] CCopy by (simp add: head_ok_def word_le_nat_alt)
    then show ?thesis using threads_invD(5) [OF inv] CCopy items by simp
  qed simp
  ultimately show ?thesis using threads_invD(6) [OF inv] items by (simp add: threads_inv_def)
qed

lemma inv_pop_begin:
  assumes inv: "threads_inv s" and idle: "consumer s = CIdle"
    and load: "may_load (head_last s) (ring_head (shared s)) h"
    and n: "n = min (h - ring_tail (shared s)) m"
  shows "threads_inv (s\<lparr>head_last := h,
    consumer := if n = 0 then CIdle else CCopy (ring_tail (shared s)) n 0 []\<rparr>)"
proof -
  have "head_ok (shared s) h" by (rule head_load_ok(1) [OF threads_invD(3) [OF inv] load])
  moreover have "consumer_inv (shared s) h (CCopy (ring_tail (shared s)) n 0 [])" by (simp add: n)
  ultimately show ?thesis using inv by (simp add: threads_inv_def)
qed

lemma consuming:
  assumes "threads_inv s" and "consumer s = CCopy t n i ys"
  shows "t = ring_tail (shared s)" "i \<le> n" "unat n \<le> unat (head_last s - ring_tail (shared s))"
    "unat n \<le> ring_used (shared s)" "ys = take (unat i) (ring_items (shared s))"
  using threads_invD(3,5) [OF assms(1)] assms(2) by (simp_all add: head_ok_def)

lemma consuming_cell:
  assumes inv: "threads_inv s" and c: "consumer s = CCopy t n i ys"
  shows "unat ((t + i) AND ring_mask (ring_capacity (shared s))) =
    ring_pos (ring_capacity (shared s)) (ring_tail (shared s) + word_of_nat (unat i))"
  using threads_invD(1) [OF inv] consuming(1) [OF inv c] by (simp add: ring_mask_def ring_inv_def)

lemma inv_pop_copy:
  assumes inv: "threads_inv s" and c: "consumer s = CCopy t n i ys" and i: "i < n"
    and x: "read_at (ring_data (shared s)) (unat ((t + i) AND ring_mask (ring_capacity (shared s)))) = Some x"
  shows "threads_inv (s\<lparr>consumer := CCopy t n (i + 1) (ys @ [x])\<rparr>)"
proof -
  note co = consuming [OF inv c]
  have i': "unat i < unat n" "unat (i + 1) = Suc (unat i)"
    using i unat_inc [OF i] by (simp_all add: word_less_nat_alt)
  have "x = ring_data (shared s) ! ring_pos (ring_capacity (shared s)) (ring_tail (shared s) + word_of_nat (unat i))"
    using x unfolding consuming_cell [OF inv c] by (simp add: read_at_eq_Some)
  then have "x = ring_items (shared s) ! unat i"
    using i' co(4) by (simp add: ring_items_def items_from_def)
  then have "ys @ [x] = take (Suc (unat i)) (ring_items (shared s))"
    using i' co(4,5) by (simp add: take_Suc_conv_app_nth)
  moreover have "i + 1 \<le> n" using i' by (simp add: word_le_nat_alt)
  ultimately show ?thesis using inv co i' by (simp add: threads_inv_def)
qed

lemma inv_pop_end:
  assumes inv: "threads_inv s" and c: "consumer s = CCopy t n i ys" and i: "\<not> i < n"
  shows "threads_inv (s\<lparr>shared := (shared s)\<lparr>ring_tail := t + n\<rparr>, consumer := CIdle,
    received := received s @ ys\<rparr>)"
proof -
  let ?r = "shared s" and ?c = "ring_capacity (shared s)"
  let ?r' = "?r\<lparr>ring_tail := t + n\<rparr>"
  note ri = threads_invD(1) [OF inv] and co = consuming [OF inv c]
  have i': "i = n" using i co(2) by simp
  have used: "ring_used ?r' = ring_used ?r - unat n"
      "unat (head_last s - (t + n)) = unat (head_last s - ring_tail ?r) - unat n"
    using used_after_pop [of "unat n" "ring_head ?r" "ring_tail ?r"]
      used_after_pop [of "unat n" "head_last s" "ring_tail ?r"] co(3,4)
    by (simp_all add: ring_used_def co(1))
  have split: "items_from ?c d (ring_tail ?r) (unat n + m) =
      items_from ?c d (ring_tail ?r) (unat n) @ items_from ?c d (t + n) m" for d m
    using items_from_append [of ?c d "ring_tail ?r" "unat n" m] by (simp add: co(1))
  have items: "ring_items ?r = ys @ ring_items ?r'"
    using split [of "ring_data ?r" "ring_used ?r - unat n"] co(4,5) i'
      items_from_take [OF co(4), of ?c "ring_data ?r" "ring_tail ?r"]
    by (simp add: ring_items_def used)
  have ys: "length ys = unat n" using co(4,5) i' by simp
  have "ring_inv ?r'" "tail_ok ?r' (tail_last s)" "head_ok ?r' (head_last s)"
    using threads_invD(1-3) [OF inv] used by (auto simp: ring_inv_def tail_ok_def head_ok_def)
  moreover have "producer_inv ?r' (tail_last s) (producer s)"
  proof (cases "producer s")
    case (PCopy h xs m j)
    note pr = producing [OF inv PCopy]
    have "items_from ?c (ring_data ?r) (ring_tail ?r) (unat n + (ring_used ?r' + unat j)) =
        ys @ ring_items ?r' @ take (unat j) xs"
      using pr(5) items used co(4) by simp
    then have "items_from ?c (ring_data ?r) (t + n) (ring_used ?r' + unat j) = ring_items ?r' @ take (unat j) xs"
      unfolding split using ys by simp
    then show ?thesis using pr PCopy by simp
  qed simp
  ultimately show ?thesis using threads_invD(6) [OF inv] items by (simp add: threads_inv_def)
qed

lemma threads_inv_step: "ring_step s s' \<Longrightarrow> threads_inv s \<Longrightarrow> threads_inv s'"
proof (induction rule: ring_step.induct)
  case push_begin
  then show ?case using inv_push_begin by blast
next
  case push_copy
  then show ?case by (intro inv_push_copy) assumption+
next
  case push_end
  then show ?case using inv_push_end by blast
next
  case pop_begin
  then show ?case using inv_pop_begin by blast
next
  case pop_copy
  then show ?case by (intro inv_pop_copy) assumption+
next
  case pop_end
  then show ?case using inv_pop_end by blast
qed

lemma reachable_inv: "ring_reachable d c s \<Longrightarrow> capacity_ok c \<Longrightarrow> threads_inv s \<and> ring_capacity (shared s) = c"
proof (induction rule: ring_reachable.induct)
  case start
  then show ?case using threads_inv_init by (simp add: threads_init_def ring_new_def)
next
  case (step s s')
  have "ring_capacity (shared s') = ring_capacity (shared s)"
    using step(2) by (cases rule: ring_step.cases) simp_all
  then show ?case using step threads_inv_step [OF step(2)] by blast
qed

subsection \<open>What the threads can rely on\<close>

text \<open>Every access of a copying loop is within the bounds of its array.\<close>

lemma copying_in_bounds:
  assumes inv: "threads_inv s"
  shows "producer s = PCopy h xs n i \<Longrightarrow> i < n \<Longrightarrow> unat i < length xs \<and>
      unat ((h + i) AND ring_mask (ring_capacity (shared s))) < length (ring_data (shared s))"
    and "consumer s = CCopy t m j ys \<Longrightarrow> j < m \<Longrightarrow>
      unat ((t + j) AND ring_mask (ring_capacity (shared s))) < length (ring_data (shared s))"
proof -
  have c: "capacity_ok (ring_capacity (shared s))" "length (ring_data (shared s)) = unat (ring_capacity (shared s))"
    using threads_invD(1) [OF inv] by (simp_all add: ring_inv_def)
  show "unat i < length xs \<and>
      unat ((h + i) AND ring_mask (ring_capacity (shared s))) < length (ring_data (shared s))"
    if p: "producer s = PCopy h xs n i" and "i < n"
    unfolding producing_cell [OF inv p] using producing(3) [OF inv p] \<open>i < n\<close> c
    by (simp add: word_less_nat_alt)
  show "unat ((t + j) AND ring_mask (ring_capacity (shared s))) < length (ring_data (shared s))"
    if p: "consumer s = CCopy t m j ys" and "j < m"
    unfolding consuming_cell [OF inv p] using c by simp
qed

text \<open>The cell the producer writes next is not the one the consumer reads next.\<close>

lemma cells_apart:
  assumes inv: "threads_inv s" and p: "producer s = PCopy h xs n i" "i < n"
    and c: "consumer s = CCopy t m j ys" "j < m"
  shows "(h + i) AND ring_mask (ring_capacity (shared s)) \<noteq> (t + j) AND ring_mask (ring_capacity (shared s))"
proof
  assume "(h + i) AND ring_mask (ring_capacity (shared s)) = (t + j) AND ring_mask (ring_capacity (shared s))"
  then have eq: "ring_pos (ring_capacity (shared s)) (ring_tail (shared s) + word_of_nat (ring_used (shared s) + unat i)) =
      ring_pos (ring_capacity (shared s)) (ring_tail (shared s) + word_of_nat (unat j))"
    by (simp only: producing_cell [OF inv p(1), symmetric] consuming_cell [OF inv c(1), symmetric])
  have cap: "capacity_ok (ring_capacity (shared s))"
    using threads_invD(1) [OF inv] by (simp add: ring_inv_def)
  have 1: "ring_used (shared s) + unat i < unat (ring_capacity (shared s))"
    using producing(4) [OF inv p(1)] p(2) by (simp add: word_less_nat_alt)
  have 2: "unat j < ring_used (shared s)"
    using consuming(4) [OF inv c(1)] c(2) by (simp add: word_less_nat_alt)
  have "ring_used (shared s) + unat i = unat j"
    by (rule ring_pos_inject [OF cap 1 _ eq]) (use 1 2 in simp)
  then show False using 2 by simp
qed

subsection \<open>The operations are runs of steps\<close>

lemma copy_in_steps:
  "copy_in (ring_mask (ring_capacity (shared s))) h xs i k (ring_data (shared s)) = Some d \<Longrightarrow>
   producer s = PCopy h xs n i \<Longrightarrow> unat n = unat i + k \<Longrightarrow>
   ring_step\<^sup>*\<^sup>* s (s\<lparr>shared := (shared s)\<lparr>ring_data := d\<rparr>, producer := PCopy h xs n n\<rparr>)"
proof (induction k arbitrary: s i)
  case 0
  then have "s\<lparr>shared := (shared s)\<lparr>ring_data := d\<rparr>, producer := PCopy h xs n n\<rparr> = s"
    by (cases s; cases "shared s") simp
  then show ?case by simp
next
  case (Suc k)
  let ?c = "ring_capacity (shared s)"
  obtain x d1 where x: "read_at xs (unat i) = Some x"
      and d1: "write_at (ring_data (shared s)) (unat ((h + i) AND ring_mask ?c)) x = Some d1"
      and rest: "copy_in (ring_mask ?c) h xs (i + 1) k d1 = Some d"
    using Suc.prems(1) by (auto simp: bind_eq_Some_conv)
  have lt: "i < n" using Suc.prems(3) by (simp add: word_less_nat_alt)
  let ?s = "s\<lparr>shared := (shared s)\<lparr>ring_data := d1\<rparr>, producer := PCopy h xs n (i + 1)\<rparr>"
  have "ring_step s ?s" by (rule ring_step.push_copy [OF Suc.prems(2) lt x d1])
  moreover have "ring_step\<^sup>*\<^sup>* ?s (s\<lparr>shared := (shared s)\<lparr>ring_data := d\<rparr>, producer := PCopy h xs n n\<rparr>)"
    using Suc.IH [of ?s "i + 1"] rest Suc.prems(3) unat_inc [OF lt] by simp
  ultimately show ?case by (rule converse_rtranclp_into_rtranclp)
qed

lemma push_many_steps:
  assumes run: "spsc_push_many t (shared s) xs m = Some (k, r')"
    and "producer s = PIdle" and "unat m \<le> length xs" and "may_load (tail_last s) (ring_tail (shared s)) t"
  shows "ring_step\<^sup>*\<^sup>* s (s\<lparr>shared := r', tail_last := t, sent := sent s @ take (unat k) xs\<rparr>)"
proof -
  let ?r = "shared s"
  define n where "n = min (ring_capacity ?r - (ring_head ?r - t)) m"
  let ?s1 = "s\<lparr>tail_last := t, producer := if n = 0 then PIdle else PCopy (ring_head ?r) xs n 0\<rparr>"
  have first: "ring_step s ?s1" by (rule ring_step.push_begin [OF assms(2-4) refl n_def])
  show ?thesis
  proof (cases "n = 0")
    case True
    then have "k = 0" "r' = ?r" using run by (simp_all add: spsc_push_many_def Let_def n_def)
    moreover have "?s1 = s\<lparr>tail_last := t\<rparr>" using True assms(2) by (cases s) simp
    ultimately show ?thesis using first by (auto intro!: r_into_rtranclp)
  next
    case False
    obtain d where d: "copy_in (ring_mask (ring_capacity ?r)) (ring_head ?r) xs 0 (unat n) (ring_data ?r) = Some d"
        and k: "k = n" "r' = ?r\<lparr>ring_data := d, ring_head := ring_head ?r + n\<rparr>"
      using run False by (auto simp: spsc_push_many_def Let_def n_def [symmetric] bind_eq_Some_conv)
    let ?s2 = "?s1\<lparr>shared := ?r\<lparr>ring_data := d\<rparr>, producer := PCopy (ring_head ?r) xs n n\<rparr>"
    have "ring_step\<^sup>*\<^sup>* ?s1 ?s2"
      using copy_in_steps [of ?s1 "ring_head ?r" xs 0 "unat n" d n] d False by simp
    moreover have "ring_step ?s2 (?s2\<lparr>shared := (shared ?s2)\<lparr>ring_head := ring_head ?r + n\<rparr>, producer := PIdle,
        sent := sent ?s2 @ take (unat n) xs\<rparr>)"
      by (rule ring_step.push_end [of _ "ring_head ?r" xs n n]) simp_all
    ultimately have "ring_step\<^sup>*\<^sup>* ?s1 (?s2\<lparr>shared := (shared ?s2)\<lparr>ring_head := ring_head ?r + n\<rparr>, producer := PIdle,
        sent := sent ?s2 @ take (unat n) xs\<rparr>)" by (rule rtranclp.rtrancl_into_rtrancl)
    then have "ring_step\<^sup>*\<^sup>* s (?s2\<lparr>shared := (shared ?s2)\<lparr>ring_head := ring_head ?r + n\<rparr>, producer := PIdle,
        sent := sent ?s2 @ take (unat n) xs\<rparr>)"
      using first by (rule converse_rtranclp_into_rtranclp [rotated])
    then show ?thesis using k assms(2) by (cases s) simp
  qed
qed

text \<open>The other operations as batches: a single push or pop, and the cached ring.\<close>

lemma min_word_1:
  assumes "w \<noteq> 0"
  shows "min w 1 = (1 :: size_t)"
proof -
  have "1 \<le> unat w" using assms by (simp add: unat_gt_0 Suc_le_eq)
  then show ?thesis by (simp add: min_def word_le_nat_alt) (metis le_antisym One_nat_def unat_1 unat_inject)
qed

lemma push_is_batch:
  assumes "ring_inv r" and "tail_ok r t"
  shows "map_option (\<lambda>(ok, r'). (if ok then 1 else 0, r')) (spsc_push t r x) = spsc_push_many t r [x] 1"
proof -
  let ?u = "ring_head r - t" and ?c = "ring_capacity r"
  have le: "?u \<le> ?c" using assms(2) by (simp add: tail_ok_def word_le_nat_alt)
  have cap: "capacity_ok ?c" "length (ring_data r) = unat ?c" using assms(1) by (simp_all add: ring_inv_def)
  show ?thesis
  proof (cases "?c \<le> ?u")
    case True
    then have "?u = ?c" using le by simp
    then show ?thesis using True by (simp add: spsc_push_def spsc_push_many_def Let_def)
  next
    case False
    then have "?c - ?u \<noteq> 0" using le by auto
    then have "min (?c - ?u) 1 = 1" by (rule min_word_1)
    then show ?thesis using False cap
      by (simp add: spsc_push_def spsc_push_many_def Let_def ring_mask_def)
  qed
qed

subsection \<open>The consumer's operations as steps\<close>

text \<open>
  The output array of \<open>pop_many\<close> is private to the consumer; \<open>ys\<close> of its step state is the
  part of it written so far.
\<close>

lemma copy_out_steps:
  "copy_out (ring_mask (ring_capacity (shared s))) t (ring_data (shared s)) i k out = Some out' \<Longrightarrow>
   consumer s = CCopy t n i ys \<Longrightarrow> unat n = unat i + k \<Longrightarrow> length ys = unat i \<Longrightarrow> ys = take (unat i) out \<Longrightarrow>
   length out' = length out \<and>
   drop (unat n) out' = drop (unat n) out \<and>
   ring_step\<^sup>*\<^sup>* s (s\<lparr>consumer := CCopy t n n (take (unat n) out')\<rparr>)"
proof (induction k arbitrary: s i out ys)
  case 0
  then have "s\<lparr>consumer := CCopy t n n (take (unat n) out')\<rparr> = s" by (cases s) simp
  then have "ring_step\<^sup>*\<^sup>* s (s\<lparr>consumer := CCopy t n n (take (unat n) out')\<rparr>)" by (simp only: rtranclp.rtrancl_refl)
  then show ?case using 0(1) by simp
next
  case (Suc k)
  let ?c = "ring_capacity (shared s)"
  obtain x out1 where x: "read_at (ring_data (shared s)) (unat ((t + i) AND ring_mask ?c)) = Some x"
      and out1: "write_at out (unat i) x = Some out1"
      and rest: "copy_out (ring_mask ?c) t (ring_data (shared s)) (i + 1) k out1 = Some out'"
    using Suc.prems(1) by (auto simp: bind_eq_Some_conv)
  have lt: "i < n" using Suc.prems(3) by (simp add: word_less_nat_alt)
  have o1: "unat i < length out" "out1 = out[unat i := x]"
    using out1 by (auto simp: write_at_def split: if_splits)
  let ?s = "s\<lparr>consumer := CCopy t n (i + 1) (ys @ [x])\<rparr>"
  have "ring_step s ?s" by (rule ring_step.pop_copy [OF Suc.prems(2) lt x])
  moreover have "length out' = length out1 \<and> drop (unat n) out' = drop (unat n) out1 \<and>
      ring_step\<^sup>*\<^sup>* ?s (?s\<lparr>consumer := CCopy t n n (take (unat n) out')\<rparr>)"
    using Suc.prems(3-5) unat_inc [OF lt] o1 rest
    by (intro Suc.IH [of ?s "i + 1" out1 "ys @ [x]"]) (simp_all add: take_Suc_conv_app_nth)
  moreover have "unat i < unat n" using Suc.prems(3) by simp
  ultimately show ?case using o1 by (auto intro: converse_rtranclp_into_rtranclp)
qed

lemma pop_many_steps:
  assumes run: "spsc_pop_many h (shared s) out m = Some (k, out', r')"
    and "consumer s = CIdle" and "may_load (head_last s) (ring_head (shared s)) h"
  shows "ring_step\<^sup>*\<^sup>* s (s\<lparr>shared := r', head_last := h, received := received s @ take (unat k) out'\<rparr>)"
proof -
  let ?r = "shared s"
  define n where "n = min (h - ring_tail ?r) m"
  let ?s1 = "s\<lparr>head_last := h, consumer := if n = 0 then CIdle else CCopy (ring_tail ?r) n 0 []\<rparr>"
  have first: "ring_step s ?s1" by (rule ring_step.pop_begin [OF assms(2,3) n_def])
  show ?thesis
  proof (cases "n = 0")
    case True
    then have "k = 0" "r' = ?r" using run by (simp_all add: spsc_pop_many_def Let_def n_def)
    moreover have "?s1 = s\<lparr>head_last := h\<rparr>" using True assms(2) by (cases s) simp
    ultimately show ?thesis using first by (auto intro!: r_into_rtranclp)
  next
    case False
    have cp: "copy_out (ring_mask (ring_capacity ?r)) (ring_tail ?r) (ring_data ?r) 0 (unat n) out = Some out'"
        and k: "k = n" "r' = ?r\<lparr>ring_tail := ring_tail ?r + n\<rparr>"
      using run False by (auto simp: spsc_pop_many_def Let_def n_def [symmetric] bind_eq_Some_conv)
    let ?s2 = "?s1\<lparr>consumer := CCopy (ring_tail ?r) n n (take (unat n) out')\<rparr>"
    let ?s3 = "?s2\<lparr>shared := (shared ?s2)\<lparr>ring_tail := ring_tail ?r + n\<rparr>, consumer := CIdle,
        received := received ?s2 @ take (unat n) out'\<rparr>"
    have "ring_step\<^sup>*\<^sup>* ?s1 ?s2"
      using copy_out_steps [of ?s1 "ring_tail ?r" 0 "unat n" out out' n "[]"] cp False by simp
    moreover have "ring_step ?s2 ?s3"
      by (rule ring_step.pop_end [of _ "ring_tail ?r" n n]) simp_all
    ultimately have "ring_step\<^sup>*\<^sup>* ?s1 ?s3" by (rule rtranclp.rtrancl_into_rtrancl)
    then have "ring_step\<^sup>*\<^sup>* s ?s3" using first by (rule converse_rtranclp_into_rtranclp [rotated])
    then show ?thesis using k assms(2) by (cases s) simp
  qed
qed

lemma pop_is_batch:
  assumes "ring_inv r" and "head_ok r h"
  shows "map_option (\<lambda>(ok, x', r'). (if ok then 1 else 0, [x'], r')) (spsc_pop h r x) = spsc_pop_many h r [x] 1"
proof (cases "h = ring_tail r")
  case True
  then show ?thesis by (simp add: spsc_pop_def spsc_pop_many_def Let_def)
next
  case False
  have cap: "capacity_ok (ring_capacity r)" "length (ring_data r) = unat (ring_capacity r)"
    using assms(1) by (simp_all add: ring_inv_def)
  have "h - ring_tail r \<noteq> 0" using False by auto
  then have "min (h - ring_tail r) 1 = 1" by (rule min_word_1)
  then show ?thesis using False cap
    by (simp add: spsc_pop_def spsc_pop_many_def Let_def ring_mask_def)
qed

lemma reachable_steps: "ring_step\<^sup>*\<^sup>* s s' \<Longrightarrow> ring_reachable d c s \<Longrightarrow> ring_reachable d c s'"
  by (induction rule: rtranclp.induct) (auto intro: ring_reachable.step)

text \<open>A state in which both threads are copying: 5 has been sent, 6 is being pushed while 5 is
  being popped.\<close>

lemma example_capacity: "capacity_ok 2"
  by (simp add: capacity_ok_def) code_simp

lemma example_idle:
  "ring_reachable 0 2 ((threads_init (0 :: nat) 2)\<lparr>shared := \<lparr>ring_capacity = 2, ring_data = [5, 0], ring_head = 1,
     ring_tail = 0\<rparr>, sent := [5]\<rparr>)" (is "ring_reachable 0 2 ?s")
proof -
  let ?i = "threads_init (0 :: nat) 2"
  have two: "replicate 2 (0 :: nat) = [0, 0]" by (simp add: numeral_2_eq_2)
  have "spsc_push_many 0 (shared ?i) [5] 1 = Some (1, shared ?s)"
    by (simp add: spsc_push_many_def threads_init_def ring_new_def ring_mask_def min_def Let_def two word_le_nat_alt)
  then have "ring_step\<^sup>*\<^sup>* ?i (?i\<lparr>shared := shared ?s, tail_last := 0, sent := sent ?i @ take (unat (1 :: size_t)) [5]\<rparr>)"
    by (rule push_many_steps) (simp_all add: threads_init_def may_load_def)
  then have "ring_step\<^sup>*\<^sup>* ?i ?s" by (simp add: threads_init_def)
  then show ?thesis using ring_reachable.start by (rule reachable_steps)
qed

lemma example_copying:
  obtains s where "ring_reachable (0 :: nat) 2 s" "producer s = PCopy 1 [6] 1 0" "consumer s = CCopy 0 1 0 []"
    "sent s = [5]" "received s = []"
proof -
  let ?s = "(threads_init (0 :: nat) 2)\<lparr>shared := \<lparr>ring_capacity = 2, ring_data = [5, 0], ring_head = 1,
     ring_tail = 0\<rparr>, sent := [5]\<rparr>"
  have "ring_step ?s (?s\<lparr>head_last := 1, consumer := if (1 :: size_t) = 0 then CIdle else CCopy (ring_tail (shared ?s)) 1 0 []\<rparr>)"
    by (rule ring_step.pop_begin [where max_count = 1]) (simp_all add: threads_init_def may_load_def)
  then have 1: "ring_reachable 0 2 (?s\<lparr>head_last := 1, consumer := CCopy 0 1 0 []\<rparr>)" (is "ring_reachable 0 2 ?t")
    using ring_reachable.step [OF example_idle] by simp
  have one: "min (2 - 1) 1 = (1 :: size_t)" by code_simp
  have "ring_step ?t (?t\<lparr>tail_last := 0, producer := if (1 :: size_t) = 0 then PIdle else PCopy (ring_head (shared ?t)) [6] 1 0\<rparr>)"
    by (rule ring_step.push_begin [where max_count = 1]) (simp_all add: threads_init_def may_load_def, rule one)
  then have "ring_reachable 0 2 (?t\<lparr>tail_last := 0, producer := PCopy 1 [6] 1 0\<rparr>)"
    using ring_reachable.step [OF 1] by simp
  then show ?thesis by (rule that) (simp_all add: threads_init_def)
qed

subsection \<open>What the rings promise two threads\<close>

text \<open>C8: first in, first out, whatever the interleaving and however old the counter values a
  thread loads: what the consumer received, followed by what is in the ring, is what the
  producer sent; and the ring never holds more than its capacity.\<close>

theorem threads_fifo:
  assumes "ring_reachable d c s" and "capacity_ok c"
  shows "sent s = received s @ ring_items (shared s) \<and> length (ring_items (shared s)) \<le> unat c"
proof -
  have inv: "threads_inv s" "ring_capacity (shared s) = c" using reachable_inv [OF assms] by simp_all
  have "ring_used (shared s) \<le> unat c" using threads_invD(1) [OF inv(1)] inv(2) by (simp add: ring_inv_def)
  then show ?thesis using inv(1) by (simp add: threads_inv_def)
qed

theorem threads_fifo_witness:
  "\<exists>s. ring_reachable (0 :: nat) 2 s \<and> producer s = PCopy 1 [6] 1 0 \<and> consumer s = CCopy 0 1 0 [] \<and>
    ring_items (shared s) = [5]"
proof -
  obtain s where s: "ring_reachable (0 :: nat) 2 s" "producer s = PCopy 1 [6] 1 0" "consumer s = CCopy 0 1 0 []"
    "sent s = [5]" "received s = []" by (rule example_copying)
  from threads_fifo [OF s(1) example_capacity] s show ?thesis by auto
qed

text \<open>C9: no data race on the array: whenever the producer is about to write a cell and the
  consumer about to read one, they are different cells.\<close>

theorem threads_race_free:
  assumes "ring_reachable d c s" and "capacity_ok c"
    and "producer s = PCopy h xs n i" "i < n" and "consumer s = CCopy t m j ys" "j < m"
  shows "(h + i) AND ring_mask c \<noteq> (t + j) AND ring_mask c"
  using cells_apart [OF _ assms(3-6)] reachable_inv [OF assms(1,2)] by auto

theorem threads_race_free_witness: "(1 + 0) AND ring_mask 2 \<noteq> (0 + 0 :: size_t) AND ring_mask 2"
proof -
  obtain s where s: "ring_reachable (0 :: nat) 2 s" "producer s = PCopy 1 [6] 1 0" "consumer s = CCopy 0 1 0 []"
    by (rule example_copying)
  show ?thesis by (rule threads_race_free [OF s(1) example_capacity s(2) _ s(3)]) simp_all
qed

text \<open>C10: neither thread ever blocks in the middle of an operation or leaves the arrays: from
  every reachable state the next access of a copying thread is in bounds and possible, and a
  thread that has copied everything can publish its counter.\<close>

theorem threads_never_stuck:
  assumes "ring_reachable d c s" and "capacity_ok c"
  shows "(\<forall>h xs n i. producer s = PCopy h xs n i \<longrightarrow>
      (if i < n then \<exists>r. ring_step s (s\<lparr>shared := r, producer := PCopy h xs n (i + 1)\<rparr>)
       else ring_step s (s\<lparr>shared := (shared s)\<lparr>ring_head := h + n\<rparr>, producer := PIdle,
         sent := sent s @ take (unat n) xs\<rparr>))) \<and>
    (\<forall>t n i ys. consumer s = CCopy t n i ys \<longrightarrow>
      (if i < n then \<exists>y. ring_step s (s\<lparr>consumer := CCopy t n (i + 1) (ys @ [y])\<rparr>)
       else ring_step s (s\<lparr>shared := (shared s)\<lparr>ring_tail := t + n\<rparr>, consumer := CIdle,
         received := received s @ ys\<rparr>)))"
proof (intro conjI allI impI)
  have inv: "threads_inv s" using reachable_inv [OF assms] by simp
  fix h xs n i assume p: "producer s = PCopy h xs n i"
  show "if i < n then \<exists>r. ring_step s (s\<lparr>shared := r, producer := PCopy h xs n (i + 1)\<rparr>)
       else ring_step s (s\<lparr>shared := (shared s)\<lparr>ring_head := h + n\<rparr>, producer := PIdle,
         sent := sent s @ take (unat n) xs\<rparr>)"
  proof (cases "i < n")
    case True
    note bounds = copying_in_bounds(1) [OF inv p True]
    show ?thesis using True ring_step.push_copy [OF p True] bounds by (auto simp: read_at_def write_at_def)
  qed (use ring_step.push_end [OF p] in simp)
next
  have inv: "threads_inv s" using reachable_inv [OF assms] by simp
  fix t n i ys assume c: "consumer s = CCopy t n i ys"
  show "if i < n then \<exists>y. ring_step s (s\<lparr>consumer := CCopy t n (i + 1) (ys @ [y])\<rparr>)
       else ring_step s (s\<lparr>shared := (shared s)\<lparr>ring_tail := t + n\<rparr>, consumer := CIdle,
         received := received s @ ys\<rparr>)"
  proof (cases "i < n")
    case True
    show ?thesis using True ring_step.pop_copy [OF c True] copying_in_bounds(2) [OF inv c True]
      by (auto simp: read_at_def)
  qed (use ring_step.pop_end [OF c] in simp)
qed

theorem threads_never_stuck_witness:
  "\<exists>s s' s''. ring_reachable (0 :: nat) 2 s \<and> ring_step s s' \<and> producer s' = PCopy 1 [6] 1 1 \<and>
    ring_step s s'' \<and> (\<exists>y. consumer s'' = CCopy 0 1 1 [y])"
proof -
  obtain s where s: "ring_reachable (0 :: nat) 2 s" "producer s = PCopy 1 [6] 1 0" "consumer s = CCopy 0 1 0 []"
    by (rule example_copying)
  note T = threads_never_stuck [OF s(1) example_capacity]
  obtain r where "ring_step s (s\<lparr>shared := r, producer := PCopy 1 [6] 1 1\<rparr>)" using T s(2) by fastforce
  moreover obtain y where "ring_step s (s\<lparr>consumer := CCopy 0 1 1 [y]\<rparr>)" using T s(3) by fastforce
  ultimately show ?thesis using s(1) by force
qed

text \<open>C11: the functions of the ring are runs of these steps: a call that loads a value its thread
  may load, and is not interrupted, leads to the state the function computes, with the items
  it moved recorded as sent (received). A single push or pop is the batch call for one item.\<close>

theorem operations_are_steps:
  assumes "ring_reachable d c s" and "capacity_ok c" and "producer s = PIdle" and "consumer s = CIdle"
  shows "(\<forall>t xs m k r'. unat m \<le> length xs \<and> may_load (tail_last s) (ring_tail (shared s)) t \<and>
      spsc_push_many t (shared s) xs m = Some (k, r') \<longrightarrow>
      ring_step\<^sup>*\<^sup>* s (s\<lparr>shared := r', tail_last := t, sent := sent s @ take (unat k) xs\<rparr>)) \<and>
    (\<forall>h out m k out' r'. may_load (head_last s) (ring_head (shared s)) h \<and>
      spsc_pop_many h (shared s) out m = Some (k, out', r') \<longrightarrow>
      ring_step\<^sup>*\<^sup>* s (s\<lparr>shared := r', head_last := h, received := received s @ take (unat k) out'\<rparr>)) \<and>
    map_option (\<lambda>(ok, r'). (if ok then 1 else 0, r')) (spsc_push (ring_tail (shared s)) (shared s) x) =
      spsc_push_many (ring_tail (shared s)) (shared s) [x] 1 \<and>
    map_option (\<lambda>(ok, x', r'). (if ok then 1 else 0, [x'], r')) (spsc_pop (ring_head (shared s)) (shared s) x) =
      spsc_pop_many (ring_head (shared s)) (shared s) [x] 1"
proof -
  have inv: "ring_inv (shared s)" using reachable_inv [OF assms(1,2)] threads_invD(1) by blast
  show ?thesis
    using push_many_steps [OF _ assms(3)] pop_many_steps [OF _ assms(4)]
      push_is_batch [OF inv current_ok(1) [OF inv]] pop_is_batch [OF inv current_ok(2)] by blast
qed

theorem operations_are_steps_witness:
  "\<exists>s s'. ring_reachable (0 :: nat) 2 s \<and> ring_step\<^sup>*\<^sup>* s s' \<and> received s' = [5] \<and> sent s' = [5]"
proof -
  let ?s = "(threads_init (0 :: nat) 2)\<lparr>shared := \<lparr>ring_capacity = 2, ring_data = [5, 0], ring_head = 1,
     ring_tail = 0\<rparr>, sent := [5]\<rparr>"
  have idle: "producer ?s = PIdle" "consumer ?s = CIdle" by (simp_all add: threads_init_def)
  have "spsc_pop_many 1 (shared ?s) [9] 1 = Some (1, [5], (shared ?s)\<lparr>ring_tail := 1\<rparr>)"
    by (simp add: spsc_pop_many_def ring_mask_def Let_def)
  moreover have "may_load (head_last ?s) (ring_head (shared ?s)) 1" by (simp add: may_load_def)
  ultimately have "ring_step\<^sup>*\<^sup>* ?s (?s\<lparr>shared := (shared ?s)\<lparr>ring_tail := 1\<rparr>, head_last := 1,
      received := received ?s @ take (unat (1 :: size_t)) [5]\<rparr>)"
    using operations_are_steps [OF example_idle example_capacity idle] by blast
  then show ?thesis using example_idle by (intro exI conjI) (assumption+, simp_all add: threads_init_def)
qed

end
