(* ===== verification/Pipeline.thy ===== *)
theory Pipeline
  imports Ring_Threads Workload_Runs
begin

text \<open>
  The two threads of \<open>bench_pipeline.cpp\<close> and \<open>profile_pipeline_latency.cpp\<close>: a producer
  that pushes items into a queue and a consumer that pops them and works on them, each as
  one iteration of its loop (a turn), and the main thread that releases both by setting
  the start flag. A schedule says whose turn it is and how far behind the turn's acquire load
  of the other thread's counter is; a turn is atomic otherwise, which the thread-level model
  of the rings justifies. The queue, the way the producer makes its items and the work of
  the consumer are parameters.

  Whatever the schedule, the work is that of the items handled one after the other in the
  order in which they were made, and a schedule that keeps giving both threads turns with a
  fresh load after the start finishes.
\<close>

datatype thread = Main | Producer nat | Consumer nat

record ('q, 'i, 'a, 'w) pipe =
  queue :: 'q
  next_item :: 'i
  item_var :: 'a
  item_batch :: "'a list"
  processed :: size_t
  work :: 'w

definition commands_size :: "'a list \<Rightarrow> size_t" where
  "commands_size cs = word_of_nat (length cs)"

subsection \<open>One iteration of each loop\<close>

text \<open>\<open>while (i < n) { make item i; if (queue.push(item)) ++i; }\<close>; the counter may be
  narrower than \<open>size_t\<close> and is widened for the comparison.\<close>

definition producer_turn ::
    "(nat \<Rightarrow> 'q \<Rightarrow> 'a \<Rightarrow> (bool \<times> 'q) option) \<Rightarrow> ('c::len word \<Rightarrow> 'w \<Rightarrow> ('a \<times> 'w) option) \<Rightarrow> size_t
     \<Rightarrow> nat \<Rightarrow> ('q, 'c word, 'a, 'w) pipe \<Rightarrow> ('q, 'c word, 'a, 'w) pipe option" where
  "producer_turn push item_of n s p =
     (if ucast (next_item p) < n then do {
        (x, w) \<leftarrow> item_of (next_item p) (work p);
        (pushed, q) \<leftarrow> push s (queue p) x;
        Some (if pushed then p\<lparr>queue := q, work := w, next_item := next_item p + 1\<rparr>
          else p\<lparr>queue := q, work := w\<rparr>)
      } else Some p)"

text \<open>The batched producer pushes from the array \<open>commands\<close>.\<close>

definition producer_batch_turn ::
    "(nat \<Rightarrow> 'q \<Rightarrow> 'a list \<Rightarrow> size_t \<Rightarrow> (size_t \<times> 'q) option) \<Rightarrow> size_t \<Rightarrow> 'a list
     \<Rightarrow> nat \<Rightarrow> ('q, size_t, 'a, 'w) pipe \<Rightarrow> ('q, size_t, 'a, 'w) pipe option" where
  "producer_batch_turn push_many batch_size commands s p =
     (if next_item p < commands_size commands then do {
        let max_count = min batch_size (commands_size commands - next_item p);
        (pushed, q) \<leftarrow> push_many s (queue p) (drop (unat (next_item p)) commands) max_count;
        Some (p\<lparr>queue := q, next_item := next_item p + pushed\<rparr>)
      } else Some p)"

definition consumer_turn ::
    "(nat \<Rightarrow> 'q \<Rightarrow> 'a \<Rightarrow> (bool \<times> 'a \<times> 'q) option) \<Rightarrow> ('a \<Rightarrow> 'w \<Rightarrow> 'w option) \<Rightarrow> size_t
     \<Rightarrow> nat \<Rightarrow> ('q, 'i, 'a, 'w) pipe \<Rightarrow> ('q, 'i, 'a, 'w) pipe option" where
  "consumer_turn pop handle n s p =
     (if processed p < n then do {
        (popped, x, q) \<leftarrow> pop s (queue p) (item_var p);
        let p = p\<lparr>queue := q, item_var := x\<rparr>;
        if \<not> popped then Some p
        else do {
          w \<leftarrow> handle x (work p);
          Some (p\<lparr>work := w, processed := processed p + 1\<rparr>)
        }
      } else Some p)"

text \<open>The loop over the batch, from index \<open>i\<close>, \<open>n\<close> items to go.\<close>

fun handle_batch :: "('a \<Rightarrow> 'w \<Rightarrow> 'w option) \<Rightarrow> 'a list \<Rightarrow> nat \<Rightarrow> nat \<Rightarrow> 'w \<Rightarrow> 'w option" where
  "handle_batch handle batch i 0 w = Some w"
| "handle_batch handle batch i (Suc n) w = do {
     x \<leftarrow> read_at batch i;
     w \<leftarrow> handle x w;
     handle_batch handle batch (Suc i) n w
   }"

definition consumer_batch_turn ::
    "(nat \<Rightarrow> 'q \<Rightarrow> 'a list \<Rightarrow> size_t \<Rightarrow> (size_t \<times> 'a list \<times> 'q) option) \<Rightarrow> size_t \<Rightarrow> ('a \<Rightarrow> 'w \<Rightarrow> 'w option)
     \<Rightarrow> size_t \<Rightarrow> nat \<Rightarrow> ('q, 'i, 'a, 'w) pipe \<Rightarrow> ('q, 'i, 'a, 'w) pipe option" where
  "consumer_batch_turn pop_many batch_size handle n s p =
     (if processed p < n then do {
        (batch_count, batch, q) \<leftarrow> pop_many s (queue p) (item_batch p) batch_size;
        w \<leftarrow> handle_batch handle batch 0 (unat batch_count) (work p);
        Some (p\<lparr>queue := q, item_batch := batch, work := w, processed := processed p + batch_count\<rparr>)
      } else Some p)"

text \<open>The threads spin until the main thread has set the start flag.\<close>

fun run_turns ::
    "(nat \<Rightarrow> 'p \<Rightarrow> 'p option) \<Rightarrow> (nat \<Rightarrow> 'p \<Rightarrow> 'p option) \<Rightarrow> bool \<Rightarrow> thread list \<Rightarrow> 'p \<Rightarrow> 'p option" where
  "run_turns produce consume started [] p = Some p"
| "run_turns produce consume started (Main # ts) p = run_turns produce consume True ts p"
| "run_turns produce consume started (Producer s # ts) p = do {
     p \<leftarrow> (if started then produce s p else Some p);
     run_turns produce consume started ts p
   }"
| "run_turns produce consume started (Consumer s # ts) p = do {
     p \<leftarrow> (if started then consume s p else Some p);
     run_turns produce consume started ts p
   }"

definition pipe_init :: "'q \<Rightarrow> 'a \<Rightarrow> 'a list \<Rightarrow> 'w \<Rightarrow> ('q, 'c::len word, 'a, 'w) pipe" where
  "pipe_init q x batch w = \<lparr>queue = q, next_item = 0, item_var = x, item_batch = batch, processed = 0, work = w\<rparr>"

text \<open>What the main thread has after both joins; None while a thread still runs.\<close>

definition joined_work :: "size_t \<Rightarrow> ('q, 'c::len word, 'a, 'w) pipe \<Rightarrow> 'w option" where
  "joined_work n p = (if ucast (next_item p) < n \<or> processed p < n then None else Some (work p))"

subsection \<open>What holds between turns\<close>

text \<open>
  \<open>i\<close> items have been pushed and \<open>k\<close> of them processed; the queue holds those in between.
  \<open>W made k w\<close> says what the work is when the items \<open>made\<close> have been made and pushed so far
  and the first \<open>k\<close> of them have been handled.
\<close>

definition pipe_at ::
    "('q \<Rightarrow> bool) \<Rightarrow> ('q \<Rightarrow> 'a list) \<Rightarrow> ('a list \<Rightarrow> nat \<Rightarrow> 'w \<Rightarrow> bool) \<Rightarrow> nat \<Rightarrow> nat \<Rightarrow> nat \<Rightarrow> nat
     \<Rightarrow> ('q, 'c::len word, 'a, 'w) pipe \<Rightarrow> bool" where
  "pipe_at qinv items W n B k i p \<longleftrightarrow> length (item_batch p) = B \<and>
     k \<le> i \<and> i \<le> n \<and> unat (next_item p) = i \<and> unat (processed p) = k \<and> qinv (queue p) \<and>
     (\<exists>made. length made = i \<and> items (queue p) = drop k made \<and> W made k (work p))"

definition makes :: "('a list \<Rightarrow> nat \<Rightarrow> 'w \<Rightarrow> bool) \<Rightarrow> nat \<Rightarrow> ('c::len word \<Rightarrow> 'w \<Rightarrow> ('a \<times> 'w) option) \<Rightarrow> bool" where
  "makes W n item_of \<longleftrightarrow> (\<forall>made k w c. W made k w \<longrightarrow> k \<le> length made \<longrightarrow> length made < n \<longrightarrow> unat c = length made \<longrightarrow>
     (\<exists>x w'. item_of c w = Some (x, w') \<and> W made k w' \<and> W (made @ [x]) k w'))"

definition offers :: "('a list \<Rightarrow> nat \<Rightarrow> 'w \<Rightarrow> bool) \<Rightarrow> 'a list \<Rightarrow> bool" where
  "offers W cs \<longleftrightarrow> (\<forall>made k w j. W made k w \<longrightarrow> length made + j \<le> length cs \<longrightarrow>
     W (made @ take j (drop (length made) cs)) k w)"

definition handles :: "('a list \<Rightarrow> nat \<Rightarrow> 'w \<Rightarrow> bool) \<Rightarrow> ('a \<Rightarrow> 'w \<Rightarrow> 'w option) \<Rightarrow> bool" where
  "handles W handle \<longleftrightarrow> (\<forall>made k w. W made k w \<longrightarrow> k < length made \<longrightarrow>
     (\<exists>w'. handle (made ! k) w = Some w' \<and> W made (Suc k) w'))"

text \<open>
  What the generic argument needs of a turn of the producer (the consumer): it runs, it
  only advances its own counter, and with a fresh load it advances it when it can.
\<close>

definition produces :: "(nat \<Rightarrow> nat \<Rightarrow> 'p \<Rightarrow> bool) \<Rightarrow> nat \<Rightarrow> (nat \<Rightarrow> 'p \<Rightarrow> 'p option) \<Rightarrow> bool" where
  "produces st n turn \<longleftrightarrow> (\<forall>s k i p. st k i p \<longrightarrow>
     (\<exists>i' p'. turn s p = Some p' \<and> st k i' p' \<and> i \<le> i' \<and> (s = 0 \<longrightarrow> k < i' \<or> k = n)))"

definition consumes :: "(nat \<Rightarrow> nat \<Rightarrow> 'p \<Rightarrow> bool) \<Rightarrow> (nat \<Rightarrow> 'p \<Rightarrow> 'p option) \<Rightarrow> bool" where
  "consumes st turn \<longleftrightarrow> (\<forall>s k i p. st k i p \<longrightarrow>
     (\<exists>k' p'. turn s p = Some p' \<and> st k' i p' \<and> k \<le> k' \<and> (s = 0 \<and> k < i \<longrightarrow> k < k')))"

lemma run_turns_append:
  "run_turns pt ct s (xs @ ys) p =
     do { p \<leftarrow> run_turns pt ct s xs p; run_turns pt ct (s \<or> Main \<in> set xs) ys p }"
  by (induction pt ct s xs p rule: run_turns.induct) (auto simp: bind_assoc split: bind_splits)

lemma run_turns_safe:
  assumes pt: "produces st n pt" and ct: "consumes st ct"
  shows "st k i p \<Longrightarrow> \<exists>k' i' p'. run_turns pt ct s ts p = Some p' \<and> st k' i' p' \<and> k \<le> k' \<and> i \<le> i'"
proof (induction ts arbitrary: s k i p)
  case (Cons t ts)
  show ?case
  proof (cases t)
    case Main
    then show ?thesis using Cons.IH [OF Cons.prems] by simp
  next
    case (Producer d)
    obtain i1 p1 where "(if s then pt d p else Some p) = Some p1" "st k i1 p1" "i \<le> i1"
    proof (cases s)
      case True
      then show thesis using pt Cons.prems that unfolding produces_def by (simp only: if_True) blast
    qed (use Cons.prems that in simp)
    then show ?thesis using Cons.IH [of k i1 p1 s] Producer by (auto intro: order_trans)
  next
    case (Consumer d)
    obtain k1 p1 where "(if s then ct d p else Some p) = Some p1" "st k1 i p1" "k \<le> k1"
    proof (cases s)
      case True
      then show thesis using ct Cons.prems that unfolding consumes_def by (simp only: if_True) blast
    qed (use Cons.prems that in simp)
    then show ?thesis using Cons.IH [of k1 i p1 s] Consumer by (auto intro: order_trans)
  qed
qed auto

text \<open>A round gives the producer a turn with a fresh load and later the consumer one; it makes progress.\<close>

definition round :: "thread list \<Rightarrow> bool" where
  "round ts \<longleftrightarrow> (\<exists>xs ys zs. ts = xs @ Producer 0 # ys @ Consumer 0 # zs)"

definition enough_turns :: "nat \<Rightarrow> thread list \<Rightarrow> bool" where
  "enough_turns n ts \<longleftrightarrow> (\<exists>pre rounds. ts = pre @ Main # concat rounds \<and> (\<forall>r \<in> set rounds. round r) \<and> n \<le> length rounds)"

lemma round_progress:
  assumes pt: "produces st n pt" and ct: "consumes st ct" and "round ts" and "st k i p"
  shows "\<exists>k' i' p'. run_turns pt ct True ts p = Some p' \<and> st k' i' p' \<and> min n (Suc k) \<le> k'"
proof -
  obtain xs ys zs where ts: "ts = xs @ Producer 0 # ys @ Consumer 0 # zs" using assms(3) by (auto simp: round_def)
  obtain k1 i1 p1 where 1: "run_turns pt ct True xs p = Some p1" "st k1 i1 p1" "k \<le> k1"
    using run_turns_safe [OF pt ct assms(4)] by blast
  obtain i2 p2 where 2: "pt 0 p1 = Some p2" "st k1 i2 p2" "k1 < i2 \<or> k1 = n"
    using pt 1(2) unfolding produces_def by blast
  obtain k3 i3 p3 where 3: "run_turns pt ct True ys p2 = Some p3" "st k3 i3 p3" "k1 \<le> k3" "i2 \<le> i3"
    using run_turns_safe [OF pt ct 2(2)] by blast
  obtain k4 p4 where 4: "ct 0 p3 = Some p4" "st k4 i3 p4" "k3 \<le> k4" "k3 < i3 \<longrightarrow> k3 < k4"
    using ct 3(2) unfolding consumes_def by blast
  obtain k5 i5 p5 where 5: "run_turns pt ct True zs p4 = Some p5" "st k5 i5 p5" "k4 \<le> k5"
    using run_turns_safe [OF pt ct 4(2)] by blast
  have "run_turns pt ct True ts p = Some p5" using 1 2 3 4 5 by (simp add: ts run_turns_append)
  moreover have "min n (Suc k) \<le> k5" using 1(3) 2(3) 3(3,4) 4(3,4) 5(3) by auto
  ultimately show ?thesis using 5(2) by blast
qed

lemma rounds_finish:
  assumes pt: "produces st n pt" and ct: "consumes st ct"
    and le: "\<And>k i p. st k i p \<Longrightarrow> k \<le> n"
  shows "st k i p \<Longrightarrow> \<forall>ts \<in> set rounds. round ts \<Longrightarrow> n \<le> k + length rounds \<Longrightarrow>
    \<exists>i' p'. run_turns pt ct True (concat rounds) p = Some p' \<and> st n i' p'"
proof (induction rounds arbitrary: k i p)
  case Nil
  then have "k = n" using le [of k i p] by simp
  then show ?case using Nil by auto
next
  case (Cons ts rounds)
  obtain k1 i1 p1 where 1: "run_turns pt ct True ts p = Some p1" "st k1 i1 p1" "min n (Suc k) \<le> k1"
    using round_progress [OF pt ct _ Cons.prems(1), of ts] le Cons.prems(2) by auto
  then have "n \<le> k1 + length rounds" using Cons.prems(3) by auto
  then show ?case
    using Cons.IH [OF 1(2)] Cons.prems(2) 1(1) by (auto simp: run_turns_append)
qed

subsection \<open>The turns, over any queue\<close>

lemma counter_less:
  assumes "n < 2 ^ 64" and "n < 2 ^ LENGTH('c)" and "unat (c :: 'c::len word) = i" and "i \<le> n"
  shows "ucast c < (word_of_nat n :: size_t) \<longleftrightarrow> i < n" and "i < n \<Longrightarrow> unat (c + 1) = Suc i"
proof -
  have "unat (ucast c :: size_t) = i"
    using assms by (simp add: unsigned_ucast_eq take_bit_nat_eq_self)
  moreover have "unat (word_of_nat n :: size_t) = n" using assms(1) by (simp add: unat_of_nat_less)
  ultimately show "ucast c < (word_of_nat n :: size_t) \<longleftrightarrow> i < n" by (simp add: word_less_nat_alt)
  show "unat (c + 1) = Suc i" if "i < n"
  proof -
    have "Suc (unat c) < 2 ^ LENGTH('c)" using assms that by simp
    then show ?thesis using assms(3) by (simp add: unat_word_ariths)
  qed
qed

lemma handle_batch_run:
  assumes h: "handles W handle"
  shows "W made k w \<Longrightarrow> k + n \<le> length made \<Longrightarrow> i + n \<le> length batch \<Longrightarrow>
    take n (drop i batch) = take n (drop k made) \<Longrightarrow>
    \<exists>w'. handle_batch handle batch i n w = Some w' \<and> W made (k + n) w'"
proof (induction n arbitrary: i k w)
  case (Suc n)
  have b: "drop i batch = batch ! i # drop (Suc i) batch" and s: "drop k made = made ! k # drop (Suc k) made"
    using Suc.prems(2,3) by (simp_all add: Cons_nth_drop_Suc)
  then have eq: "batch ! i = made ! k" "take n (drop (Suc i) batch) = take n (drop (Suc k) made)"
    using Suc.prems(4) by simp_all
  obtain w1 where w1: "handle (made ! k) w = Some w1" "W made (Suc k) w1"
    using h Suc.prems(1,2) unfolding handles_def by fastforce
  obtain w' where "handle_batch handle batch (Suc i) n w1 = Some w'" "W made (Suc k + n) w'"
    using Suc.IH [OF w1(2) _ _ eq(2)] Suc.prems(2,3) by auto
  then show ?case using Suc.prems(3) w1(1) eq(1) by simp
qed simp

context stale_queue
begin

lemma producer_turn_produces:
  fixes W :: "'a list \<Rightarrow> nat \<Rightarrow> 'w \<Rightarrow> bool" and item_of :: "'c::len word \<Rightarrow> 'w \<Rightarrow> ('a \<times> 'w) option"
  assumes m: "makes W n item_of" and n: "n < 2 ^ 64" "n < 2 ^ LENGTH('c)"
  shows "produces (pipe_at qinv items W n B) n (producer_turn push_at item_of (word_of_nat n))"
  unfolding produces_def
proof (intro allI impI)
  fix s k i and p :: "('q, 'c word, 'a, 'w) pipe" assume st: "pipe_at qinv items W n B k i p"
  then obtain made where made: "length made = i" "items (queue p) = drop k made" "W made k (work p)"
      and bd: "k \<le> i" "i \<le> n" "unat (next_item p) = i" "qinv (queue p)"
    by (auto simp: pipe_at_def)
  note cl = counter_less [OF n bd(3,2)]
  show "\<exists>i' p'. producer_turn push_at item_of (word_of_nat n) s p = Some p' \<and> pipe_at qinv items W n B k i' p' \<and>
      i \<le> i' \<and> (s = 0 \<longrightarrow> k < i' \<or> k = n)"
  proof (cases "i < n")
    case False
    then have "producer_turn push_at item_of (word_of_nat n) s p = Some p" using cl(1) by (simp add: producer_turn_def)
    then show ?thesis using st False bd by fastforce
  next
    case True
    obtain x w where x: "item_of (next_item p) (work p) = Some (x, w)" "W made k w" "W (made @ [x]) k w"
      using m made bd True unfolding makes_def by metis
    obtain ok q where q: "push_at s (queue p) x = Some (ok, q)" "qinv q" "items q = items (queue p) @ (if ok then [x] else [])"
        "s = 0 \<and> \<not> ok \<Longrightarrow> items (queue p) \<noteq> []"
      using push_at_run [OF bd(4), of s x] by metis
    show ?thesis
    proof (cases ok)
      case False
      then have run: "producer_turn push_at item_of (word_of_nat n) s p = Some (p\<lparr>queue := q, work := w\<rparr>)"
        using True cl(1) x q(1) by (simp add: producer_turn_def)
      have "pipe_at qinv items W n B k i (p\<lparr>queue := q, work := w\<rparr>)"
        using st q(2,3) False x(2) made by (auto simp: pipe_at_def)
      moreover have "k < i" if "s = 0" using q(4) that False made(1,2) by (simp add: drop_eq_Nil not_le)
      ultimately show ?thesis using run by blast
    next
      case ok: True
      let ?p = "p\<lparr>queue := q, work := w, next_item := next_item p + 1\<rparr>"
      have run: "producer_turn push_at item_of (word_of_nat n) s p = Some ?p"
        using True cl(1) x q(1) ok by (simp add: producer_turn_def)
      have "length (made @ [x]) = Suc i" "items q = drop k (made @ [x])" using made bd q(3) ok by simp_all
      then have "pipe_at qinv items W n B k (Suc i) ?p"
        using st q(2) x(3) True cl(2) bd unfolding pipe_at_def by (simp add: exI [of _ "made @ [x]"])
      then show ?thesis using run bd(1) by (meson le_SucI le_imp_less_Suc order_refl)
    qed
  qed
qed

lemma consumer_turn_consumes:
  fixes W :: "'a list \<Rightarrow> nat \<Rightarrow> 'w \<Rightarrow> bool"
  assumes h: "handles W handle" and n: "n < 2 ^ 64"
  shows "consumes (pipe_at qinv items W n B) (consumer_turn pop_at handle (word_of_nat n))"
  unfolding consumes_def
proof (intro allI impI)
  fix s k i and p :: "('q, 'c::len word, 'a, 'w) pipe" assume st: "pipe_at qinv items W n B k i p"
  then obtain made where made: "length made = i" "items (queue p) = drop k made" "W made k (work p)"
      and bd: "k \<le> i" "i \<le> n" "unat (processed p) = k" "qinv (queue p)" by (auto simp: pipe_at_def)
  then have kn: "k \<le> n" by simp
  have n': "n < 2 ^ LENGTH(64)" using n by simp
  note cl = counter_less [OF n n' bd(3) kn, unfolded ucast_id]
  show "\<exists>k' p'. consumer_turn pop_at handle (word_of_nat n) s p = Some p' \<and> pipe_at qinv items W n B k' i p' \<and>
      k \<le> k' \<and> (s = 0 \<and> k < i \<longrightarrow> k < k')"
  proof (cases "k < n")
    case False
    then have "consumer_turn pop_at handle (word_of_nat n) s p = Some p" using cl(1) by (simp add: consumer_turn_def)
    then show ?thesis using st False bd by auto
  next
    case True
    obtain ok y q where q: "pop_at s (queue p) (item_var p) = Some (ok, y, q)" "qinv q"
        "if ok then items (queue p) = y # items q else y = item_var p \<and> items q = items (queue p)"
        "s = 0 \<and> items (queue p) \<noteq> [] \<Longrightarrow> ok"
      using pop_at_run [OF bd(4), of s "item_var p"] by metis
    show ?thesis
    proof (cases ok)
      case False
      let ?p = "p\<lparr>queue := q, item_var := y\<rparr>"
      have "consumer_turn pop_at handle (word_of_nat n) s p = Some ?p"
        using True cl(1) q(1) False by (simp add: consumer_turn_def Let_def)
      moreover have "pipe_at qinv items W n B k i ?p" using st q(2,3) False by (simp add: pipe_at_def)
      moreover have "\<not> k < i" if "s = 0" using q(4) that False made(1,2) by (auto simp: drop_eq_Nil)
      ultimately show ?thesis by blast
    next
      case ok: True
      then have it: "items (queue p) = y # items q" using q(3) by simp
      have ki: "k < i" using it made(1,2) by (metis drop_all leI list.distinct(1))
      then have "drop k made = made ! k # drop (Suc k) made" using made(1) by (simp add: Cons_nth_drop_Suc)
      then have y: "y = made ! k" "items q = drop (Suc k) made" using it made(2) by simp_all
      obtain w where w: "handle y (work p) = Some w" "W made (Suc k) w"
        using h made ki y(1) unfolding handles_def by blast
      let ?p = "p\<lparr>queue := q, item_var := y, work := w, processed := processed p + 1\<rparr>"
      have "consumer_turn pop_at handle (word_of_nat n) s p = Some ?p"
        using True cl(1) q(1) ok w by (simp add: consumer_turn_def Let_def)
      moreover have "pipe_at qinv items W n B (Suc k) i ?p"
        using st q(2) made(1) w(2) ki cl(2) [OF True] y unfolding pipe_at_def
        by (simp add: exI [of _ made])
      ultimately show ?thesis using ki by (meson le_SucI lessI order_refl)
    qed
  qed
qed

lemma producer_batch_turn_produces:
  fixes W :: "'a list \<Rightarrow> nat \<Rightarrow> 'w \<Rightarrow> bool"
  assumes o: "offers W cs" and len: "length cs < 2 ^ 64" and B: "0 < B"
  shows "produces (pipe_at qinv items W (length cs) L) (length cs) (producer_batch_turn push_many_at B cs)"
  unfolding produces_def
proof (intro allI impI)
  fix s k i and p :: "('q, size_t, 'a, 'w) pipe" assume st: "pipe_at qinv items W (length cs) L k i p"
  then obtain made where made: "length made = i" "items (queue p) = drop k made" "W made k (work p)"
      and bd: "k \<le> i" "i \<le> length cs" "unat (next_item p) = i" "qinv (queue p)" by (auto simp: pipe_at_def)
  have len': "length cs < 2 ^ LENGTH(64)" using len by simp
  note cl = counter_less [OF len len' bd(3,2), unfolded ucast_id, folded commands_size_def]
  show "\<exists>i' p'. producer_batch_turn push_many_at B cs s p = Some p' \<and> pipe_at qinv items W (length cs) L k i' p' \<and>
      i \<le> i' \<and> (s = 0 \<longrightarrow> k < i' \<or> k = length cs)"
  proof (cases "i < length cs")
    case False
    then have "producer_batch_turn push_many_at B cs s p = Some p" using cl(1) by (simp add: producer_batch_turn_def)
    then show ?thesis using st False bd by fastforce
  next
    case True
    let ?m = "min B (commands_size cs - next_item p)"
    have "unat (commands_size cs) = length cs" using len by (simp add: commands_size_def unat_of_nat_less)
    then have rest: "unat (commands_size cs - next_item p) = length cs - i"
      using bd by (subst unat_sub) (simp_all add: word_le_nat_alt)
    then have m: "unat ?m \<le> length (drop i cs)" "0 < ?m"
      using True B by (auto simp: word_less_nat_alt word_le_nat_alt min_def)
    obtain j q where q: "push_many_at s (queue p) (drop i cs) ?m = Some (j, q)" "qinv q" "j \<le> ?m"
        "items q = items (queue p) @ take (unat j) (drop i cs)" "s = 0 \<and> j = 0 \<Longrightarrow> items (queue p) \<noteq> []"
      using push_many_at_run [OF bd(4) m, of s] by metis
    let ?p = "p\<lparr>queue := q, next_item := next_item p + j\<rparr>" and ?made = "made @ take (unat j) (drop i cs)"
    have run: "producer_batch_turn push_many_at B cs s p = Some ?p"
      using True cl(1) bd(3) q by (simp add: producer_batch_turn_def Let_def)
    have "unat j \<le> length cs - i" using q(3) rest by (simp add: word_le_nat_alt)
    then have j: "i + unat j \<le> length cs" using True by linarith
    have "unat (next_item p + j) = i + unat j" using j len bd(3) by (subst unat_plus_if') simp
    moreover have "W ?made k (work p)" using o made j unfolding offers_def by blast
    moreover have "items q = drop k ?made" "length ?made = i + unat j" using q(4) made bd(1) j by simp_all
    ultimately have "pipe_at qinv items W (length cs) L k (i + unat j) ?p"
      using st q(2) j bd(1) unfolding pipe_at_def by (simp add: exI [of _ ?made])
    moreover have "k < i + unat j" if "s = 0"
    proof (cases "j = 0")
      case True
      then have "items (queue p) \<noteq> []" using q(5) that by blast
      then show ?thesis using made(1,2) by (simp add: drop_eq_Nil)
    next
      case False
      then have "0 < unat j" by (simp add: unat_gt_0)
      then show ?thesis using bd(1) by linarith
    qed
    ultimately show ?thesis using run by (meson le_add1)
  qed
qed

lemma consumer_batch_turn_consumes:
  fixes W :: "'a list \<Rightarrow> nat \<Rightarrow> 'w \<Rightarrow> bool"
  assumes h: "handles W handle" and n: "n < 2 ^ 64" and B: "0 < B"
  shows "consumes (pipe_at qinv items W n (unat B)) (consumer_batch_turn pop_many_at B handle (word_of_nat n))"
  unfolding consumes_def
proof (intro allI impI)
  fix s k i and p :: "('q, 'c::len word, 'a, 'w) pipe" assume st: "pipe_at qinv items W n (unat B) k i p"
  then obtain made where made: "length made = i" "items (queue p) = drop k made" "W made k (work p)"
      and bd: "k \<le> i" "i \<le> n" "unat (processed p) = k" "qinv (queue p)" "length (item_batch p) = unat B"
    by (auto simp: pipe_at_def)
  then have kn: "k \<le> n" by simp
  have n': "n < 2 ^ LENGTH(64)" using n by simp
  note cl = counter_less [OF n n' bd(3) kn, unfolded ucast_id]
  show "\<exists>k' p'. consumer_batch_turn pop_many_at B handle (word_of_nat n) s p = Some p' \<and>
    pipe_at qinv items W n (unat B) k' i p' \<and> k \<le> k' \<and> (s = 0 \<and> k < i \<longrightarrow> k < k')"
  proof (cases "k < n")
    case False
    then have "consumer_batch_turn pop_many_at B handle (word_of_nat n) s p = Some p"
      using cl(1) by (simp add: consumer_batch_turn_def)
    then show ?thesis using st False bd by auto
  next
    case True
    have lb: "unat B \<le> length (item_batch p)" using bd(5) by simp
    obtain j q where q: "pop_many_at s (queue p) (item_batch p) B =
          Some (j, take (unat j) (items (queue p)) @ drop (unat j) (item_batch p), q)"
        "qinv q" "j \<le> B" "unat j \<le> length (items (queue p))" "items q = drop (unat j) (items (queue p))"
        "s = 0 \<and> items (queue p) \<noteq> [] \<Longrightarrow> 0 < j"
      using pop_many_at_run [OF bd(4) lb B, of s] by metis
    let ?batch = "take (unat j) (items (queue p)) @ drop (unat j) (item_batch p)"
    have kj: "k + unat j \<le> i" using q(4) bd(1) made(1,2) by simp
    have "take (unat j) (drop 0 ?batch) = take (unat j) (drop k made)" using q(4) made(2) by simp
    moreover have "0 + unat j \<le> length ?batch" using q(4) by simp
    ultimately obtain w where w: "handle_batch handle ?batch 0 (unat j) (work p) = Some w" "W made (k + unat j) w"
      using handle_batch_run [OF h made(3)] kj made(1) by blast
    let ?p = "p\<lparr>queue := q, item_batch := ?batch, work := w, processed := processed p + j\<rparr>"
    have run: "consumer_batch_turn pop_many_at B handle (word_of_nat n) s p = Some ?p"
      using True cl(1) q(1) w(1) by (simp add: consumer_batch_turn_def)
    have "unat (processed p + j) = k + unat j" using kj bd n by (subst unat_plus_if') simp
    moreover have "items q = drop (k + unat j) made" using q(5) made(2) by (simp add: add.commute)
    moreover have "length ?batch = unat B" using q(3,4) bd(5) by (simp add: word_le_nat_alt)
    ultimately have at: "pipe_at qinv items W n (unat B) (k + unat j) i ?p"
      using st q(2) w(2) kj made(1) unfolding pipe_at_def by (simp add: exI [of _ made])
    have pr: "s = 0 \<and> k < i \<longrightarrow> k < k + unat j" using q(6) made(1,2) by (auto simp: word_less_nat_alt)
    show ?thesis by (rule exI, rule exI, intro conjI, rule run, rule at, simp, rule pr)
  qed
qed

text \<open>
  Any schedule of any pairing of a producer and a consumer turn is safe; once both threads
  have been joined every item has been handled, and enough turns get there.
\<close>

lemma threads_join:
  fixes start :: 'w and pt ct :: "nat \<Rightarrow> ('q, 'c::len word, 'a, 'w) pipe \<Rightarrow> _"
  assumes pt: "produces (pipe_at qinv items W n (length batch)) n pt"
    and ct: "consumes (pipe_at qinv items W n (length batch)) ct"
    and q: "qinv q" "items q = []" and start: "W [] 0 start" and n: "n < 2 ^ 64" "n < 2 ^ LENGTH('c)"
  obtains p where "run_turns pt ct False ts (pipe_init q x batch start) = Some p"
    "\<And>w. joined_work (word_of_nat n) p = Some w \<Longrightarrow> \<exists>made. length made = n \<and> W made n w"
    "enough_turns n ts \<Longrightarrow> joined_work (word_of_nat n) p \<noteq> None" "\<exists>made k. W made k (work p)"
proof -
  let ?st = "pipe_at qinv items W n (length batch) :: _ \<Rightarrow> _ \<Rightarrow> ('q, 'c word, 'a, 'w) pipe \<Rightarrow> bool"
  have init: "?st 0 0 (pipe_init q x batch start)" using q start by (simp add: pipe_at_def pipe_init_def)
  have n': "n < 2 ^ LENGTH(64)" using n by simp
  have join: "joined_work (word_of_nat n) p = (if k < n then None else Some (work p))" if "?st k i p" for k i p
  proof -
    have bd: "unat (next_item p) = i" "i \<le> n" "unat (processed p) = k" "k \<le> n" "k \<le> i"
      using that by (auto simp: pipe_at_def)
    show ?thesis using counter_less(1) [OF n bd(1,2)] counter_less(1) [OF n(1) n' bd(3,4)] bd
      by (auto simp: joined_work_def)
  qed
  obtain k i p where p: "run_turns pt ct False ts (pipe_init q x batch start) = Some p" "?st k i p"
    using run_turns_safe [OF pt ct init, of False ts] by blast
  have joined: "\<exists>made. length made = n \<and> W made n w" if "joined_work (word_of_nat n) p = Some w" for w
  proof -
    have "k = n" "i = n" "w = work p" using p(2) join [OF p(2)] that by (auto simp: pipe_at_def split: if_splits)
    then show ?thesis using p(2) by (auto simp: pipe_at_def)
  qed
  have finished: "joined_work (word_of_nat n) p \<noteq> None" if enough: "enough_turns n ts"
  proof -
    obtain pre rounds where ts: "ts = pre @ Main # concat rounds" "\<forall>r \<in> set rounds. round r" "n \<le> length rounds"
      using enough by (auto simp: enough_turns_def)
    obtain k1 i1 p1 where 1: "run_turns pt ct False pre (pipe_init q x batch start) = Some p1" "?st k1 i1 p1"
      using run_turns_safe [OF pt ct init, of False pre] by blast
    have "n \<le> k1 + length rounds" using ts(3) by simp
    obtain i2 p2 where 2: "run_turns pt ct True (concat rounds) p1 = Some p2" "?st n i2 p2"
      using rounds_finish [OF pt ct _ 1(2) ts(2) \<open>n \<le> k1 + length rounds\<close>] by (auto simp: pipe_at_def)
    then have "p2 = p" using p(1) 1(1) by (simp add: ts(1) run_turns_append)
    then show ?thesis using join [OF 2(2)] by simp
  qed
  have always: "\<exists>made k. W made k (work p)" using p(2) by (auto simp: pipe_at_def)
  show ?thesis by (rule that [OF p(1) joined finished always])
qed

end

end
