(* ===== verification/Direct_Runs.thy ===== *)
theory Direct_Runs
  imports Workload_Runs
begin

text \<open>
  The single-threaded drivers: one iteration of each benchmark of \<open>bench_fixed_clob.cpp\<close>,
  \<open>bench_matching.cpp\<close> and \<open>bench_matching_hot.cpp\<close>, and the three \<open>profile_full_match\<close>
  tools with their exit codes. A driver's result is what it keeps from the optimiser: the
  answers of the calls and the final queries. Timing, the benchmark library's counters and
  the printed text are left out. \<open>ks\<close> and \<open>vs\<close> are the index's uninitialised memory.
\<close>

subsection \<open>Loops over commands\<close>

fun add_all :: "hash_fn \<Rightarrow> FixedClob \<Rightarrow> OrderCommand list \<Rightarrow> (bool list \<times> FixedClob) option" where
  "add_all hash b [] = Some ([], b)"
| "add_all hash b (c # cs) = do {
     (ok, b) \<leftarrow> add_order hash b (cmd_order_id c) (cmd_side c) (cmd_price c) (cmd_qty c);
     (oks, b) \<leftarrow> add_all hash b cs;
     Some (ok # oks, b)
   }"

fun cancel_all :: "hash_fn \<Rightarrow> FixedClob \<Rightarrow> OrderCommand list \<Rightarrow> (bool list \<times> FixedClob) option" where
  "cancel_all hash b [] = Some ([], b)"
| "cancel_all hash b (c # cs) = do {
     (ok, b) \<leftarrow> cancel_order hash b (cmd_order_id c);
     (oks, b) \<leftarrow> cancel_all hash b cs;
     Some (ok # oks, b)
   }"

fun submit_all ::
    "hash_fn \<Rightarrow> 's emplace \<Rightarrow> FixedClob \<Rightarrow> OrderCommand list \<Rightarrow> 's \<Rightarrow> (bool list \<times> FixedClob \<times> 's) option" where
  "submit_all hash emplace b [] ex = Some ([], b, ex)"
| "submit_all hash emplace b (c # cs) ex = do {
     (ok, b, ex) \<leftarrow> submit_limit_order hash emplace b (cmd_order_id c) (cmd_side c) (cmd_price c) (cmd_qty c) ex;
     (oks, b, ex) \<leftarrow> submit_all hash emplace b cs ex;
     Some (ok # oks, b, ex)
   }"

text \<open>A counting loop whose body submits the order \<open>f i\<close>; \<open>k\<close> iterations to go.\<close>

fun submit_loop ::
    "hash_fn \<Rightarrow> 's emplace \<Rightarrow> (size_t \<Rightarrow> OrderId \<times> Side \<times> Price \<times> Quantity) \<Rightarrow> size_t \<Rightarrow> nat \<Rightarrow> FixedClob \<Rightarrow> 's
     \<Rightarrow> (bool list \<times> FixedClob \<times> 's) option" where
  "submit_loop hash emplace f i 0 b ex = Some ([], b, ex)"
| "submit_loop hash emplace f i (Suc k) b ex = do {
     let (oid, s, p, q) = f i;
     (ok, b, ex) \<leftarrow> submit_limit_order hash emplace b oid s p q ex;
     (oks, b, ex) \<leftarrow> submit_loop hash emplace f (i + 1) k b ex;
     Some (ok # oks, b, ex)
   }"

text \<open>The same loop in the tools, which return 1 when a submission fails.\<close>

fun checked_loop ::
    "hash_fn \<Rightarrow> 's emplace \<Rightarrow> (size_t \<Rightarrow> OrderId \<times> Side \<times> Price \<times> Quantity) \<Rightarrow> size_t \<Rightarrow> nat \<Rightarrow> FixedClob \<Rightarrow> 's
     \<Rightarrow> (int + FixedClob \<times> 's) option" where
  "checked_loop hash emplace f i 0 b ex = Some (Inr (b, ex))"
| "checked_loop hash emplace f i (Suc k) b ex = do {
     let (oid, s, p, q) = f i;
     (ok, b, ex) \<leftarrow> submit_limit_order hash emplace b oid s p q ex;
     if \<not> ok then Some (Inl 1) else checked_loop hash emplace f (i + 1) k b ex
   }"

subsection \<open>bench_fixed_clob.cpp\<close>

definition fixed_clob_add_only ::
    "(nat \<Rightarrow> OrderId) \<Rightarrow> (nat \<Rightarrow> OrderIndex) \<Rightarrow> size_t \<Rightarrow> (bool list \<times> bool) option" where
  "fixed_clob_add_only ks vs n = do {
     let commands = make_add_only_commands n;
     b \<leftarrow> fixed_clob_new ks vs (2 ^ 20) 8000 12000;
     (oks, b) \<leftarrow> add_all FastOrderIdHash b commands;
     Some (oks, clob_empty b)
   }"

definition fixed_clob_add_then_cancel ::
    "(nat \<Rightarrow> OrderId) \<Rightarrow> (nat \<Rightarrow> OrderIndex) \<Rightarrow> size_t \<Rightarrow> (bool list \<times> bool list \<times> bool) option" where
  "fixed_clob_add_then_cancel ks vs n = do {
     let commands = make_add_only_commands n;
     b \<leftarrow> fixed_clob_new ks vs (2 ^ 20) 8000 12000;
     (oks, b) \<leftarrow> add_all FastOrderIdHash b commands;
     (cancelled, b) \<leftarrow> cancel_all FastOrderIdHash b commands;
     Some (oks, cancelled, clob_empty b)
   }"

subsection \<open>bench_matching.cpp and bench_matching_hot.cpp\<close>

definition run_matching_add_only ::
    "hash_fn \<Rightarrow> (nat \<Rightarrow> OrderId) \<Rightarrow> (nat \<Rightarrow> OrderIndex) \<Rightarrow> size_t
     \<Rightarrow> (bool list \<times> (Price \<times> Quantity) option \<times> size_t) option" where
  "run_matching_add_only hash ks vs n = do {
     let commands = make_add_only_commands n;
     b \<leftarrow> fixed_clob_new ks vs (2 ^ 20) 8000 12000;
     let executions = buffer_reserve buffer_new n;
     (oks, b, executions) \<leftarrow> submit_all hash buffer_emplace_back b commands executions;
     bid \<leftarrow> best_bid b;
     Some (oks, bid, buffer_size executions)
   }"

definition run_matching_full_match ::
    "hash_fn \<Rightarrow> (nat \<Rightarrow> OrderId) \<Rightarrow> (nat \<Rightarrow> OrderIndex) \<Rightarrow> size_t \<Rightarrow> (bool list \<times> bool \<times> size_t) option" where
  "run_matching_full_match hash ks vs n = do {
     let commands = make_full_match_commands n;
     b \<leftarrow> fixed_clob_new ks vs (2 ^ 20) 8000 12000;
     let executions = buffer_reserve buffer_new n;
     (oks, b, executions) \<leftarrow> submit_all hash buffer_emplace_back b commands executions;
     Some (oks, clob_empty b, buffer_size executions)
   }"

definition run_matching_sweep_ask_levels ::
    "hash_fn \<Rightarrow> (nat \<Rightarrow> OrderId) \<Rightarrow> (nat \<Rightarrow> OrderIndex) \<Rightarrow> size_t
     \<Rightarrow> (bool list \<times> bool \<times> bool \<times> size_t) option" where
  "run_matching_sweep_ask_levels hash ks vs lvls = do {
     b \<leftarrow> fixed_clob_new ks vs (2 ^ 15) 8000 25000;
     let executions = buffer_reserve buffer_new lvls;
     (oks, b, executions) \<leftarrow>
       submit_loop hash buffer_emplace_back (\<lambda>i. (i + 1, Sell, 10001 + i, 1)) 0 (unat lvls) b executions;
     (ok, b, executions) \<leftarrow>
       submit_limit_order hash buffer_emplace_back b (lvls + 1) Buy (10000 + lvls) lvls executions;
     Some (oks, ok, clob_empty b, buffer_size executions)
   }"

definition run_matching_hot_add_only ::
    "hash_fn \<Rightarrow> (nat \<Rightarrow> OrderId) \<Rightarrow> (nat \<Rightarrow> OrderIndex) \<Rightarrow> size_t
     \<Rightarrow> (bool list \<times> (Price \<times> Quantity) option \<times> size_t) option" where
  "run_matching_hot_add_only hash ks vs n = do {
     let commands = make_non_crossing_buys_commands n;
     b \<leftarrow> fixed_clob_new ks vs (2 ^ 20) 8000 12000;
     let executions = buffer_reserve buffer_new n;
     (oks, b, executions) \<leftarrow> submit_all hash buffer_emplace_back b commands executions;
     bid \<leftarrow> best_bid b;
     Some (oks, bid, buffer_size executions)
   }"

text \<open>The sink is a template parameter: its initial state, \<open>emplace_back\<close>, \<open>reserve\<close> and \<open>size\<close>.\<close>

definition run_matching_hot_full_match ::
    "hash_fn \<Rightarrow> 's emplace \<Rightarrow> 's \<Rightarrow> ('s \<Rightarrow> size_t \<Rightarrow> 's) \<Rightarrow> ('s \<Rightarrow> size_t) \<Rightarrow> (nat \<Rightarrow> OrderId) \<Rightarrow> (nat \<Rightarrow> OrderIndex)
     \<Rightarrow> size_t \<Rightarrow> (bool list \<times> bool list \<times> bool \<times> size_t) option" where
  "run_matching_hot_full_match hash emplace sink_new sink_reserve sink_size ks vs n = do {
     b \<leftarrow> fixed_clob_new ks vs (2 ^ 20) 8000 12000;
     (asked, b, preload) \<leftarrow>
       submit_loop hash null_emplace_back (\<lambda>i. (i + 1, Sell, 10000, i mod 100 + 1)) 0 (unat n) b ();
     let executions = sink_reserve sink_new n;
     (bought, b, executions) \<leftarrow>
       submit_loop hash emplace (\<lambda>i. (n + i + 1, Buy, 10000, i mod 100 + 1)) 0 (unat n) b executions;
     Some (asked, bought, clob_empty b, sink_size executions)
   }"

definition run_matching_hot_sweep_ask_levels ::
    "hash_fn \<Rightarrow> (nat \<Rightarrow> OrderId) \<Rightarrow> (nat \<Rightarrow> OrderIndex) \<Rightarrow> size_t
     \<Rightarrow> (bool list \<times> bool \<times> bool \<times> size_t) option" where
  "run_matching_hot_sweep_ask_levels hash ks vs lvls = do {
     b \<leftarrow> fixed_clob_new ks vs (2 ^ 15) 8000 25000;
     let executions = buffer_reserve buffer_new lvls;
     (oks, b, executions) \<leftarrow>
       submit_loop hash buffer_emplace_back (\<lambda>i. (i + 1, Sell, 10001 + i, 1)) 0 (unat lvls) b executions;
     (ok, b, executions) \<leftarrow>
       submit_limit_order hash buffer_emplace_back b (lvls + 1) Buy (10000 + lvls) lvls executions;
     Some (oks, ok, clob_empty b, buffer_size executions)
   }"

subsection \<open>The profiling tools\<close>

definition vector_size :: "Execution list \<Rightarrow> size_t" where
  "vector_size xs = word_of_nat (length xs)"

definition profile_loops ::
    "'s emplace \<Rightarrow> (size_t \<Rightarrow> 's) \<Rightarrow> (nat \<Rightarrow> OrderId) \<Rightarrow> (nat \<Rightarrow> OrderIndex) \<Rightarrow> size_t
     \<Rightarrow> (int + FixedClob \<times> 's) option" where
  "profile_loops emplace reserved ks vs n = do {
     b \<leftarrow> fixed_clob_new ks vs (2 ^ 20) 8000 12000;
     r \<leftarrow> checked_loop FastOrderIdHash null_emplace_back (\<lambda>i. (i + 1, Sell, 10000, i mod 100 + 1)) 0 (unat n) b ();
     case r of
       Inl code \<Rightarrow> Some (Inl code)
     | Inr (b, dummy) \<Rightarrow>
         checked_loop FastOrderIdHash emplace (\<lambda>i. (n + i + 1, Buy, 10000, i mod 100 + 1)) 0 (unat n) b (reserved n)
   }"

definition profile_full_match_main :: "(nat \<Rightarrow> OrderId) \<Rightarrow> (nat \<Rightarrow> OrderIndex) \<Rightarrow> int option" where
  "profile_full_match_main ks vs = do {
     let n = 1000000;
     r \<leftarrow> profile_loops vector_emplace_back (\<lambda>_. []) ks vs n;
     case r of
       Inl code \<Rightarrow> Some code
     | Inr (b, executions) \<Rightarrow>
         if vector_size executions \<noteq> n then Some 1
         else if \<not> clob_empty b then Some 1
         else Some 0
   }"

definition profile_full_match_no_exec_main :: "(nat \<Rightarrow> OrderId) \<Rightarrow> (nat \<Rightarrow> OrderIndex) \<Rightarrow> int option" where
  "profile_full_match_no_exec_main ks vs = do {
     let n = 1000000;
     r \<leftarrow> profile_loops null_emplace_back (\<lambda>_. ()) ks vs n;
     case r of
       Inl code \<Rightarrow> Some code
     | Inr (b, executions) \<Rightarrow>
         if null_size executions \<noteq> 0 then Some 1
         else if \<not> clob_empty b then Some 1
         else Some 0
   }"

definition profile_full_match_raw_exec_main :: "(nat \<Rightarrow> OrderId) \<Rightarrow> (nat \<Rightarrow> OrderIndex) \<Rightarrow> int option" where
  "profile_full_match_raw_exec_main ks vs = do {
     let n = 1000000;
     r \<leftarrow> profile_loops buffer_emplace_back (buffer_reserve buffer_new) ks vs n;
     case r of
       Inl code \<Rightarrow> Some code
     | Inr (b, exec_buffer) \<Rightarrow>
         if buffer_size exec_buffer \<noteq> n then Some 1
         else if \<not> clob_empty b then Some 1
         else Some 0
   }"

subsection \<open>The loops as replays\<close>

definition loop_commands ::
    "(size_t \<Rightarrow> OrderId \<times> Side \<times> Price \<times> Quantity) \<Rightarrow> size_t \<Rightarrow> nat \<Rightarrow> OrderCommand list" where
  "loop_commands f i k = map (\<lambda>j. case f (i + word_of_nat j) of (oid, s, p, q) \<Rightarrow> add_limit oid p q s) [0..<k]"

lemma loop_commands_0 [simp]: "loop_commands f i 0 = []"
  by (simp add: loop_commands_def)

lemma loop_commands_Suc:
  "loop_commands f i (Suc k) =
     (case f i of (oid, s, p, q) \<Rightarrow> add_limit oid p q s) # loop_commands f (i + 1) k"
  unfolding loop_commands_def upt_conv_Cons [OF zero_less_Suc] map_Suc_upt [symmetric]
  by (simp add: comp_def add.assoc)

lemma loop_commands_type: "\<forall>c \<in> set (loop_commands f i k). cmd_type c = AddLimit"
  by (auto simp: loop_commands_def split: prod.split)

lemma submit_all_replay:
  "\<forall>c \<in> set cs. cmd_type c = AddLimit \<Longrightarrow> submit_all hash em b cs ex = replay hash em b cs ex"
  by (induction cs arbitrary: b ex) (simp_all add: handle_command_def)

lemma submit_loop_replay: "submit_loop hash em f i k b ex = replay hash em b (loop_commands f i k) ex"
proof (induction k arbitrary: i b ex)
  case (Suc k)
  then show ?case by (cases "f i") (simp add: loop_commands_Suc handle_command_def)
qed simp

lemma checked_loop_replay:
  "replay hash em b (loop_commands f i k) ex = Some (replicate k True, b', ex') \<Longrightarrow>
   checked_loop hash em f i k b ex = Some (Inr (b', ex'))"
proof (induction k arbitrary: i b ex)
  case (Suc k)
  then show ?case by (cases "f i") (auto simp: loop_commands_Suc handle_command_def bind_eq_Some_conv)
qed simp

text \<open>A run that reports nothing is one of \<open>add_order\<close> alone.\<close>

lemma spec_submit_quiet:
  assumes "spec_submit bk oid s p q = (True, bk', [])" and "q \<noteq> 0"
  shows "spec_add bk oid s p q = (True, bk')"
proof (cases rule: spec_submit_cases [of bk oid s p q])
  case (matched es q' rs)
  then have "es = []" using assms(1) by (auto split: if_splits prod.splits)
  then have "q' = q \<and> rs = side_of bk (opposite s)"
    using fills_no_executions [of s p oid "side_of bk (opposite s)" q q' rs] matched(4) by simp
  then have "q' = q" "set_side bk (opposite s) rs = bk" by simp_all
  then show ?thesis using matched(5) assms by (auto split: if_splits prod.splits)
qed (use assms in simp)

lemma add_all_run:
  "wf_clob hash b \<Longrightarrow> \<forall>c \<in> set cs. command_ok lo hi c \<Longrightarrow>
   spec_replay (abs_book b) cs = (replicate (length cs) True, bk, []) \<Longrightarrow>
   \<exists>b'. add_all hash b cs = Some (replicate (length cs) True, b') \<and> wf_clob hash b' \<and> abs_book b' = bk"
proof (induction cs arbitrary: b)
  case (Cons c cs)
  obtain bk1 where c: "spec_command (abs_book b) c = (True, bk1, [])"
      and cs: "spec_replay bk1 cs = (replicate (length cs) True, bk, [])"
    using Cons.prems(3) by (auto split: prod.splits)
  have ok: "cmd_order_id c \<noteq> 0" "cmd_type c = AddLimit" "cmd_qty c \<noteq> 0"
    using Cons.prems(2) by (simp_all add: command_ok_def)
  have "spec_add (abs_book b) (cmd_order_id c) (cmd_side c) (cmd_price c) (cmd_qty c) = (True, bk1)"
    by (rule spec_submit_quiet) (use c ok in \<open>simp_all add: spec_command_def\<close>)
  then obtain b1 where b1: "add_order hash b (cmd_order_id c) (cmd_side c) (cmd_price c) (cmd_qty c) = Some (True, b1)"
      "wf_clob hash b1" "abs_book b1 = bk1"
    using add_wf [OF Cons.prems(1) ok(1), of "cmd_side c" "cmd_price c" "cmd_qty c"] by (metis prod.inject)
  then show ?case using Cons.IH [OF b1(2)] Cons.prems(2) cs by auto
qed simp

lemma book_ids_cancel: "spec_cancel bk oid = (ok, bk') \<Longrightarrow> book_ids bk' = book_ids bk - {oid}"
  by (auto simp: spec_cancel_def book_ids_def simp del: rest_simps)

lemma cancel_all_run:
  "wf_clob hash b \<Longrightarrow> \<forall>c \<in> set cs. cmd_order_id c \<noteq> 0 \<Longrightarrow> distinct (map cmd_order_id cs) \<Longrightarrow>
   cmd_order_id ` set cs \<subseteq> book_ids (abs_book b) \<Longrightarrow>
   \<exists>b'. cancel_all hash b cs = Some (replicate (length cs) True, b') \<and> wf_clob hash b' \<and>
     book_ids (abs_book b') = book_ids (abs_book b) - cmd_order_id ` set cs"
proof (induction cs arbitrary: b)
  case (Cons c cs)
  obtain ok b1 where c: "cancel_order hash b (cmd_order_id c) = Some (ok, b1)" "wf_clob hash b1"
      "spec_cancel (abs_book b) (cmd_order_id c) = (ok, abs_book b1)"
    using cancel_wf [OF Cons.prems(1), of "cmd_order_id c"] Cons.prems(2) by auto
  then have ok: "ok" using Cons.prems(4) by (simp add: spec_cancel_def)
  have ids: "book_ids (abs_book b1) = book_ids (abs_book b) - {cmd_order_id c}" by (rule book_ids_cancel [OF c(3)])
  then obtain b' where "cancel_all hash b1 cs = Some (replicate (length cs) True, b')" "wf_clob hash b'"
      "book_ids (abs_book b') = book_ids (abs_book b1) - cmd_order_id ` set cs"
  proof -
    have "\<forall>c \<in> set cs. cmd_order_id c \<noteq> 0" "distinct (map cmd_order_id cs)"
        "cmd_order_id ` set cs \<subseteq> book_ids (abs_book b1)"
      using Cons.prems(2-4) ids by (simp_all, blast)
    from Cons.IH [OF c(2) this] show thesis using that by blast
  qed
  moreover have "book_ids (abs_book b) - {cmd_order_id c} - cmd_order_id ` set cs =
      book_ids (abs_book b) - cmd_order_id ` set (c # cs)" by auto
  ultimately show ?case using c(1) ok ids by simp
qed simp

lemma empty_iff_no_ids: "wf_clob hash b \<Longrightarrow> clob_empty b \<longleftrightarrow> book_ids (abs_book b) = {}"
  using counts_eq(3) by (fastforce simp: book_ids_def resting_count_def)

lemma buffer_size_reports: "buffer_ok s \<Longrightarrow> unat (buffer_size s) = length (buffer_reports s)"
  by (auto simp: buffer_ok_def buffer_reports_def buffer_size_def word_le_nat_alt split: option.splits)

lemma reserved_buffer:
  "buffer_ok (buffer_reserve buffer_new n)" "buffer_reports (buffer_reserve buffer_new n) = []"
  "m \<le> unat n \<Longrightarrow> buffer_fits (buffer_reserve buffer_new n) m"
  using buffer_reserved [of buffer_new] by (simp_all add: buffer_ok_def buffer_new_def buffer_reports_def)

text \<open>The new book of the drivers and a replay on it with a reserved buffer.\<close>

lemma driver_params: "params_ok (2 ^ 20) 8000 12000" "params_ok (2 ^ 15) 8000 25000"
  by (simp_all add: params_ok_def) code_simp+

lemma buffer_replay:
  assumes "wf_clob hash b" and "\<forall>c \<in> set cs. cmd_order_id c \<noteq> 0"
    and "spec_replay (abs_book b) cs = (oks, bk, es)" and "length es \<le> unat n"
  obtains b' ex' where "replay hash buffer_emplace_back b cs (buffer_reserve buffer_new n) = Some (oks, b', ex')"
    "wf_clob hash b'" "abs_book b' = bk" "unat (buffer_size ex') = length es"
proof -
  obtain b' ex' where "replay hash buffer_emplace_back b cs (buffer_reserve buffer_new n) = Some (oks, b', ex')"
    "wf_clob hash b'" "abs_book b' = bk" "buffer_ok ex'" "buffer_reports ex' = buffer_reports (buffer_reserve buffer_new n) @ es"
    by (rule buffer_sink.replay_reports [OF assms(1-3) reserved_buffer(1) reserved_buffer(3) [OF assms(4)]]) (rule that)
  then show ?thesis using buffer_size_reports [of ex'] by (intro that) (simp_all add: reserved_buffer(2))
qed

subsection \<open>The sweep workload on the abstract book\<close>

definition sw_sell :: "nat \<Rightarrow> OrderCommand" where
  "sw_sell k = add_limit (word_of_nat k + 1) (10001 + word_of_nat k) 1 Sell"

definition sw_resting :: "nat \<Rightarrow> resting" where
  "sw_resting k = (word_of_nat k + 1, 10001 + word_of_nat k, 1)"

definition sw_book :: "book \<Rightarrow> nat list \<Rightarrow> book" where
  "sw_book bk ks = bk\<lparr>bids := [], asks := map sw_resting ks\<rparr>"

lemma sw_book_simps [simp]:
  "side_of (sw_book bk ks) Buy = []" "side_of (sw_book bk ks) Sell = map sw_resting ks"
  "slots (sw_book bk ks) = slots bk" "book_valid_price (sw_book bk ks) = book_valid_price bk"
  "resting_count (sw_book bk ks) = length ks"
  "set_side (sw_book bk ks) Sell (map sw_resting ks') = sw_book bk ks'"
  "set_side (sw_book bk ks) Sell [] = sw_book bk []"
  "set_side (sw_book bk ks) Buy [] = sw_book bk ks"
  by (simp_all add: sw_book_def side_of_def book_valid_price_def resting_count_def set_side_def fun_eq_iff)

lemma unat_small: "m + k < 2 ^ 20 \<Longrightarrow> m = unat (a :: size_t) \<Longrightarrow> unat (a + word_of_nat k) = m + k"
  by (subst unat_plus_if') (simp add: unat_of_nat_less)

lemma sw_unat:
  assumes "k < 2 ^ 15"
  shows "unat (word_of_nat k + 1 :: size_t) = Suc k" and "unat (10001 + word_of_nat k :: size_t) = 10001 + k"
proof -
  have "unat (1 + word_of_nat k :: size_t) = 1 + k" by (rule unat_small) (use assms in simp_all)
  then show "unat (word_of_nat k + 1 :: size_t) = Suc k" by (simp only: add.commute [of _ 1] plus_1_eq_Suc)
  show "unat (10001 + word_of_nat k :: size_t) = 10001 + k" by (rule unat_small) (use assms in simp_all)
qed

lemma sw_ids:
  assumes "set ks \<subseteq> {..<2 ^ 15}"
  shows "i \<in> book_ids (sw_book bk ks) \<longleftrightarrow> (\<exists>k \<in> set ks. unat i = Suc k)"
proof -
  have "rest_id (sw_resting k) = i \<longleftrightarrow> unat i = Suc k" if "k \<in> set ks" for k
  proof -
    have "unat (rest_id (sw_resting k)) = Suc k"
      using sw_unat(1) [of k] assms that by (auto simp: sw_resting_def)
    then show ?thesis by (metis unat_inject)
  qed
  then show ?thesis by (auto simp: book_ids_def sw_book_def image_iff)
qed

lemma sw_sell_step:
  assumes k: "k < 2 ^ 15" and "k < slots bk" and p: "book_valid_price bk (10001 + word_of_nat k)"
  shows "spec_command (sw_book bk [0..<k]) (sw_sell k) = (True, sw_book bk [0..<Suc k], [])"
proof -
  have "set [0..<k] \<subseteq> {..<2 ^ 15}" using k by auto
  then have new: "word_of_nat k + 1 \<notin> book_ids (sw_book bk [0..<k])"
    using sw_unat(1) [OF k] sw_ids by auto
  have le: "(10001 + word_of_nat j :: size_t) \<le> 10001 + word_of_nat k" if "j < k" for j
    using that k sw_unat(2) [of j] sw_unat(2) [OF k] by (simp add: word_le_nat_alt)
  have "enqueue Sell (word_of_nat k + 1, 10001 + word_of_nat k, 1) (map sw_resting [0..<k]) = map sw_resting [0..<Suc k]"
    unfolding enqueue_def
    by (subst takeWhile_eq_all_conv [THEN iffD2], simp add: sw_resting_def ahead_eq_def le)
      (subst dropWhile_eq_Nil_conv [THEN iffD2], simp_all add: sw_resting_def ahead_eq_def le)
  then show ?thesis
    using new p assms(2)
    by (simp add: sw_sell_def spec_command_def spec_submit_def spec_add_def Let_def del: upt_Suc)
qed

lemma sw_sells:
  assumes p: "\<And>j. j < m \<Longrightarrow> book_valid_price bk (10001 + word_of_nat j)" and "m \<le> 2 ^ 15"
  shows "k \<le> m \<Longrightarrow> k \<le> slots bk \<Longrightarrow>
    spec_replay (sw_book bk []) (map sw_sell [0..<k]) = (replicate k True, sw_book bk [0..<k], [])"
proof (induction k)
  case (Suc k)
  have "spec_command (sw_book bk [0..<k]) (sw_sell k) = (True, sw_book bk [0..<Suc k], [])"
    by (rule sw_sell_step) (use Suc.prems assms in auto)
  with Suc show ?case
    by (simp add: spec_replay_append replicate_append_same del: upt_Suc)
      (simp add: spec_replay_append replicate_append_same)
qed simp

lemma sw_fill:
  assumes "m \<le> 2 ^ 15"
  shows "k \<le> m \<Longrightarrow> fill Buy (10000 + word_of_nat m) oid (word_of_nat (m - k)) (map sw_resting [k..<m]) =
    (map (\<lambda>j. mk_execution oid (word_of_nat j + 1) (10001 + word_of_nat j) 1) [k..<m], 0, [])"
proof (induction "m - k" arbitrary: k)
  case 0
  then show ?case by simp
next
  case (Suc d)
  then have k: "k < m" by simp
  have "unat (10000 + word_of_nat m :: size_t) = 10000 + m"
    by (rule unat_small) (use assms in simp_all)
  then have acc: "accepts Buy (10000 + word_of_nat m) (10001 + word_of_nat k)"
    using sw_unat(2) [of k] k assms by (simp add: accepts_def word_le_nat_alt)
  have u: "unat (word_of_nat (m - k) :: size_t) = m - k" using assms by (intro unat_of_nat_less) simp
  have nz: "(word_of_nat (m - k) :: size_t) \<noteq> 0" using u k by (metis unat_0 zero_less_diff less_irrefl)
  have ge: "\<not> (word_of_nat (m - k) :: size_t) < 1" using nz by (simp add: word_less_nat_alt u) (use k in linarith)
  have "m - k = Suc (m - Suc k)" using k by simp
  then have dec: "(word_of_nat (m - k) :: size_t) - 1 = word_of_nat (m - Suc k)" by simp
  have "fill Buy (10000 + word_of_nat m) oid (word_of_nat (m - Suc k)) (map sw_resting [Suc k..<m]) =
      (map (\<lambda>j. mk_execution oid (word_of_nat j + 1) (10001 + word_of_nat j) 1) [Suc k..<m], 0, [])"
    using Suc by (intro Suc.hyps(1)) simp_all
  moreover have "map sw_resting [k..<m] = (word_of_nat k + 1, 10001 + word_of_nat k, 1) # map sw_resting [Suc k..<m]"
    using k by (simp add: upt_conv_Cons sw_resting_def)
  ultimately show ?case using acc nz ge dec k by (simp only: fill.simps if_False prod.case) (simp add: upt_conv_Cons)
qed

lemma sw_replay:
  assumes m: "0 < m" "m \<le> 15000" "m \<le> unat n" and "lo \<le> 10001" "25000 \<le> hi"
  shows "spec_replay (spec_new n lo hi) (map sw_sell [0..<m] @ [add_limit (word_of_nat m + 1) (10000 + word_of_nat m) (word_of_nat m) Buy]) =
    (replicate (Suc m) True, spec_new n lo hi,
     map (\<lambda>j. mk_execution (word_of_nat m + 1) (word_of_nat j + 1) (10001 + word_of_nat j) 1) [0..<m])"
proof -
  let ?bk = "spec_new n lo hi"
  have bk: "?bk = sw_book ?bk []" by (simp add: spec_new_def sw_book_def)
  have p: "book_valid_price ?bk (10001 + word_of_nat j)" if "j < m" for j
  proof -
    have "unat (10001 + word_of_nat j :: size_t) = 10001 + j" using sw_unat(2) [of j] m(2) that by simp
    then show ?thesis using assms(4,5) m(2) that by (simp add: spec_new_def book_valid_price_def word_le_nat_alt)
  qed
  have um: "unat (10000 + word_of_nat m :: size_t) = 10000 + m" by (rule unat_small) (use m(2) in simp_all)
  then have pm: "book_valid_price ?bk (10000 + word_of_nat m)"
    using assms(4,5) m(1,2) by (simp add: spec_new_def book_valid_price_def word_le_nat_alt)
  have "m \<le> slots ?bk" using m(3) by (simp add: spec_new_def)
  then have sells: "spec_replay (sw_book ?bk []) (map sw_sell [0..<m]) = (replicate m True, sw_book ?bk [0..<m], [])"
    using m(2) by (intro sw_sells [of m] p) simp_all
  have "set [0..<m] \<subseteq> {..<2 ^ 15}" using m(2) by auto
  then have new: "word_of_nat m + 1 \<notin> book_ids (sw_book ?bk [0..<m])"
    using sw_unat(1) [of m] m(2) sw_ids [of "[0..<m]"] by auto
  have "unat (word_of_nat m :: size_t) = m" by (rule unat_of_nat_less) (use m(2) in simp)
  then have nz: "(word_of_nat m :: size_t) \<noteq> 0" using m(1) by (metis less_irrefl unat_0)
  have "fill Buy (10000 + word_of_nat m) (word_of_nat m + 1) (word_of_nat m) (map sw_resting [0..<m]) =
      (map (\<lambda>j. mk_execution (word_of_nat m + 1) (word_of_nat j + 1) (10001 + word_of_nat j) 1) [0..<m], 0, [])"
    using sw_fill [of m 0] m(2) by simp
  then have "spec_command (sw_book ?bk [0..<m]) (add_limit (word_of_nat m + 1) (10000 + word_of_nat m) (word_of_nat m) Buy) =
      (True, sw_book ?bk [], map (\<lambda>j. mk_execution (word_of_nat m + 1) (word_of_nat j + 1) (10001 + word_of_nat j) 1) [0..<m])"
    using new pm nz by (simp add: spec_command_def spec_submit_def Let_def)
  with sells show ?thesis
    unfolding spec_replay_append
    by (subst bk) (simp add: replicate_append_same flip: bk)
qed

subsection \<open>What the drivers show\<close>

lemma fm_loops:
  "loop_commands (\<lambda>i. (i + 1, Sell, 10000, i mod 100 + 1)) 0 k = map fm_sell [0..<k]"
  "loop_commands (\<lambda>i. (n + i + 1, Buy, 10000, i mod 100 + 1)) 0 k = map (fm_buy n) [0..<k]"
  "loop_commands (\<lambda>i. (i + 1, Sell, 10001 + i, 1)) 0 k = map sw_sell [0..<k]"
  by (simp_all add: loop_commands_def fm_sell_def fm_buy_def fm_qty_def sw_sell_def)

lemma fm_halves:
  assumes n: "2 * unat (n :: size_t) < 2 ^ 64" "unat n \<le> unat m" and "lo \<le> 10000" "10000 \<le> hi"
  shows "spec_replay (spec_new m lo hi) (map fm_sell [0..<unat n]) =
      (replicate (unat n) True, fm_book (spec_new m lo hi) [0..<unat n], [])"
    and "spec_replay (fm_book (spec_new m lo hi) [0..<unat n]) (map (fm_buy n) [0..<unat n]) =
      (replicate (unat n) True, spec_new m lo hi, map (fm_execution n) [0..<unat n])"
proof -
  let ?bk = "spec_new m lo hi"
  have bk: "fm_book ?bk [] = ?bk" by (simp add: spec_new_def fm_book_def)
  have p: "book_valid_price ?bk 10000" using assms(3,4) by (simp add: spec_new_def book_valid_price_def)
  have "unat n \<le> slots ?bk" using n(2) by (simp add: spec_new_def)
  from fm_sells [OF n(1) p order_refl this]
  show "spec_replay ?bk (map fm_sell [0..<unat n]) = (replicate (unat n) True, fm_book ?bk [0..<unat n], [])"
    unfolding bk .
  from fm_buys [OF n(1) p, of 0]
  show "spec_replay (fm_book ?bk [0..<unat n]) (map (fm_buy n) [0..<unat n]) =
      (replicate (unat n) True, ?bk, map (fm_execution n) [0..<unat n])"
    unfolding bk by simp
qed

lemma fm_ids_nonzero:
  assumes "2 * unat n < 2 ^ 64"
  shows "\<forall>c \<in> set (map fm_sell [0..<unat n]). cmd_order_id c \<noteq> 0"
    and "\<forall>c \<in> set (map (fm_buy n) [0..<unat n]). cmd_order_id c \<noteq> 0"
  using fm_ids [OF assms] by (force dest: arg_cong [where f = unat])+

text \<open>After the preload every ask rests; the buys then match them one by one.\<close>

lemma preloaded:
  assumes "unat (n :: size_t) \<le> 2 ^ 20" and "fixed_clob_new ks vs (2 ^ 20) 8000 12000 = Some b0"
  obtains b where "replay hash null_emplace_back b0 (map fm_sell [0..<unat n]) () = Some (replicate (unat n) True, b, ())"
    "wf_clob hash b" "abs_book b = fm_book (spec_new (2 ^ 20) 8000 12000) [0..<unat n]"
proof -
  have n: "2 * unat n < 2 ^ 64" "unat n \<le> unat (2 ^ 20 :: size_t)" using assms(1) by simp_all
  have b0: "wf_clob hash b0" "abs_book b0 = spec_new (2 ^ 20) 8000 12000"
    using new_wf [OF driver_params(1), of ks vs hash] assms(2) by auto
  have "spec_replay (abs_book b0) (map fm_sell [0..<unat n]) =
      (replicate (unat n) True, fm_book (spec_new (2 ^ 20) 8000 12000) [0..<unat n], [])"
    unfolding b0(2) by (rule fm_halves(1) [OF n]) (simp_all add: word_le_nat_alt)
  from replay_refines [OF b0(1) fm_ids_nonzero(1) [OF n(1)] this] show ?thesis using that by blast
qed

lemma matched_out:
  assumes "unat n \<le> 2 ^ 20" and b: "wf_clob hash b" "abs_book b = fm_book (spec_new (2 ^ 20) 8000 12000) [0..<unat n]"
  obtains b' where "wf_clob hash b'" "clob_empty b'"
    "\<And>ex. replay hash em b (map (fm_buy n) [0..<unat n]) ex =
       do { ex' \<leftarrow> emit_all em ex (map (fm_execution n) [0..<unat n]); Some (replicate (unat n) True, b', ex') }"
proof -
  have n: "2 * unat n < 2 ^ 64" "unat n \<le> unat (2 ^ 20 :: size_t)" using assms(1) by simp_all
  have "spec_replay (abs_book b) (map (fm_buy n) [0..<unat n]) =
      (replicate (unat n) True, spec_new (2 ^ 20) 8000 12000, map (fm_execution n) [0..<unat n])"
    unfolding b(2) by (rule fm_halves(2) [OF n]) (simp_all add: word_le_nat_alt)
  from replay_refines [OF b(1) fm_ids_nonzero(2) [OF n(1)] this, of em]
  obtain b' where b': "wf_clob hash b'" "abs_book b' = spec_new (2 ^ 20) 8000 12000"
    "\<And>ex. replay hash em b (map (fm_buy n) [0..<unat n]) ex =
       do { ex' \<leftarrow> emit_all em ex (map (fm_execution n) [0..<unat n]); Some (replicate (unat n) True, b', ex') }"
    by blast
  moreover have "clob_empty b'" using empty_iff_no_ids [OF b'(1)] by (simp add: b'(2) spec_new_def book_ids_def)
  ultimately show ?thesis by (intro that)
qed

lemma emit_vector: "emit_all vector_emplace_back ex es = Some (ex @ es)"
  using vector_sink.emit_all_reports [of ex es] by auto

lemma emit_null: "emit_all null_emplace_back () es = Some ()"
  by (induction es) (simp_all add: null_emplace_back_def)

lemma emit_buffer:
  assumes "length es \<le> unat n"
  obtains ex' where "emit_all buffer_emplace_back (buffer_reserve buffer_new n) es = Some ex'"
    "unat (buffer_size ex') = length es"
  using buffer_sink.emit_all_reports [OF reserved_buffer(1) reserved_buffer(3) [OF assms]] buffer_size_reports
  by (auto simp: reserved_buffer(2))

text \<open>The drivers that should not trade do not: for up to \<open>2^20\<close> commands the add-only and the
  non-crossing workloads are accepted completely and report no execution, whichever hash, and
  added without matching the same workload leaves a book that is empty only if nothing was added.\<close>

theorem add_only_drivers_rest:
  assumes "unat n \<le> 2 ^ 20"
  shows "(\<exists>bid. run_matching_add_only hash ks vs n = Some (replicate (unat n) True, bid, 0)) \<and>
    (\<exists>bid. run_matching_hot_add_only hash ks vs n = Some (replicate (unat n) True, bid, 0)) \<and>
    fixed_clob_add_only ks vs n = Some (replicate (unat n) True, n = 0)"
proof -
  have rest: "\<exists>b ex. submit_all h buffer_emplace_back b0 cs (buffer_reserve buffer_new n) =
      Some (replicate (unat n) True, b, ex) \<and> wf_clob h b \<and> buffer_size ex = 0"
    if b0: "fixed_clob_new ks vs (2 ^ 20) 8000 12000 = Some b0"
      and cs: "cs \<in> {make_add_only_commands n, make_resting_asks_commands n, make_non_crossing_buys_commands n}"
    for b0 cs h
  proof -
    have b: "wf_clob h b0" "abs_book b0 = spec_new (2 ^ 20) 8000 12000"
      using new_wf [OF driver_params(1), of ks vs h] b0 by auto
    obtain bk where spec: "spec_replay (abs_book b0) cs = (replicate (unat n) True, bk, [])"
      using resting_workloads [OF cs, of "2 ^ 20" 8000 12000] assms by (auto simp: b(2) word_le_nat_alt)
    have ids: "\<forall>c \<in> set cs. cmd_order_id c \<noteq> 0" and ty: "\<forall>c \<in> set cs. cmd_type c = AddLimit"
      using cs add_only_ok(1) resting_asks_ok(1) non_crossing_buys_ok(1) by (auto simp: command_ok_def)
    have "length ([] :: Execution list) \<le> unat n" by simp
    obtain b' ex' where "replay h buffer_emplace_back b0 cs (buffer_reserve buffer_new n) = Some (replicate (unat n) True, b', ex')"
        "wf_clob h b'" "unat (buffer_size ex') = length ([] :: Execution list)"
      by (rule buffer_replay [OF b(1) ids spec \<open>length ([] :: Execution list) \<le> unat n\<close>]) (rule that)
    then show ?thesis using ty by (auto simp: submit_all_replay unat_eq_zero)
  qed
  obtain b0 where b0: "fixed_clob_new ks vs (2 ^ 20) 8000 12000 = Some b0" "wf_clob FastOrderIdHash b0"
      "abs_book b0 = spec_new (2 ^ 20) 8000 12000"
    by (rule new_wf [OF driver_params(1)])
  obtain bk where spec: "spec_replay (abs_book b0) (make_add_only_commands n) =
      (replicate (length (make_add_only_commands n)) True, bk, [])" "resting_count bk = unat n"
    using resting_workloads [of "make_add_only_commands n" n "2 ^ 20" 8000 12000] assms
    by (auto simp: b0(3) word_le_nat_alt)
  have ok: "\<forall>c \<in> set (make_add_only_commands n). command_ok 8977 11024 c" using add_only_ok(1) by blast
  obtain b' where add: "add_all FastOrderIdHash b0 (make_add_only_commands n) = Some (replicate (unat n) True, b')"
      "wf_clob FastOrderIdHash b'" "abs_book b' = bk"
    using add_all_run [OF b0(2) ok spec(1)] by auto
  have "clob_empty b' \<longleftrightarrow> n = 0" using counts_eq(3) [OF add(2)] spec(2) by (simp add: add(3) unat_eq_zero)
  then have "fixed_clob_add_only ks vs n = Some (replicate (unat n) True, n = 0)"
    using b0(1) add(1) by (simp add: fixed_clob_add_only_def Let_def)
  moreover have "\<exists>bid. run_matching_add_only hash ks vs n = Some (replicate (unat n) True, bid, 0)"
    using rest [OF b0(1), of "make_add_only_commands n" hash] b0(1) best_eq(1)
    by (auto simp: run_matching_add_only_def Let_def)
  moreover have "\<exists>bid. run_matching_hot_add_only hash ks vs n = Some (replicate (unat n) True, bid, 0)"
    using rest [OF b0(1), of "make_non_crossing_buys_commands n" hash] b0(1) best_eq(1)
    by (auto simp: run_matching_hot_add_only_def Let_def)
  ultimately show ?thesis by blast
qed

theorem add_only_drivers_rest_witness:
  "fixed_clob_add_only (\<lambda>_. 3) (\<lambda>_. 4) 1000000 = Some (replicate 1000000 True, False)"
  using add_only_drivers_rest [of 1000000] by simp

text \<open>C34: adding the add-only workload and cancelling it again in the same order succeeds for
  every single order and leaves the book empty.\<close>

theorem add_then_cancel_empties:
  assumes "unat n \<le> 2 ^ 20"
  shows "fixed_clob_add_then_cancel ks vs n = Some (replicate (unat n) True, replicate (unat n) True, True)"
proof -
  let ?cs = "make_add_only_commands n"
  obtain b0 where b0: "fixed_clob_new ks vs (2 ^ 20) 8000 12000 = Some b0" "wf_clob FastOrderIdHash b0"
      "abs_book b0 = spec_new (2 ^ 20) 8000 12000"
    by (rule new_wf [OF driver_params(1)])
  obtain bk where spec: "spec_replay (abs_book b0) ?cs = (replicate (length ?cs) True, bk, [])"
      "book_ids bk = cmd_order_id ` set ?cs"
    using resting_workloads [of ?cs n "2 ^ 20" 8000 12000] assms by (auto simp: b0(3) word_le_nat_alt)
  have ok: "\<forall>c \<in> set ?cs. command_ok 8977 11024 c" using add_only_ok(1) by blast
  obtain b1 where b1: "add_all FastOrderIdHash b0 ?cs = Some (replicate (unat n) True, b1)"
      "wf_clob FastOrderIdHash b1" "abs_book b1 = bk"
    using add_all_run [OF b0(2) ok spec(1)] by auto
  have ids: "\<forall>c \<in> set ?cs. cmd_order_id c \<noteq> 0" using ok by (simp add: command_ok_def)
  have sub: "cmd_order_id ` set ?cs \<subseteq> book_ids (abs_book b1)" by (simp add: b1(3) spec(2))
  obtain b2 where b2: "cancel_all FastOrderIdHash b1 ?cs = Some (replicate (unat n) True, b2)"
      "wf_clob FastOrderIdHash b2" "book_ids (abs_book b2) = {}"
    using cancel_all_run [OF b1(2) ids workload_distinct(1) sub] by (auto simp: b1(3) spec(2))
  have "clob_empty b2" using empty_iff_no_ids [OF b2(2)] b2(3) by simp
  then show ?thesis using b0(1) b1(1) b2(1) by (simp add: fixed_clob_add_then_cancel_def Let_def)
qed

theorem add_then_cancel_empties_witness:
  "fixed_clob_add_then_cancel (\<lambda>_. 0) (\<lambda>_. 0) 1000000 = Some (replicate 1000000 True, replicate 1000000 True, True)"
  using add_then_cancel_empties [of 1000000] by simp

text \<open>C31: in the full-match drivers, for up to \<open>2^20\<close> asks at one price and as many buys for
  the same quantities, every submission is accepted, every buy produces exactly one execution and
  the book ends empty, whichever hash; the same holds when the asks are preloaded and the buys
  report to the raw buffer, to a vector or to the null sink, which counts nothing.\<close>

theorem full_match_drivers:
  assumes "unat n \<le> 2 ^ 20"
  shows "run_matching_full_match hash ks vs n = Some (replicate (2 * unat n) True, True, n) \<and>
    run_matching_hot_full_match hash buffer_emplace_back buffer_new buffer_reserve buffer_size ks vs n =
      Some (replicate (unat n) True, replicate (unat n) True, True, n) \<and>
    run_matching_hot_full_match hash vector_emplace_back [] (\<lambda>xs m. xs) vector_size ks vs n =
      Some (replicate (unat n) True, replicate (unat n) True, True, n) \<and>
    run_matching_hot_full_match hash null_emplace_back () null_reserve null_size ks vs n =
      Some (replicate (unat n) True, replicate (unat n) True, True, 0)"
proof -
  have n: "2 * unat n < 2 ^ 64" "unat n \<le> unat (2 ^ 20 :: size_t)" using assms by simp_all
  have les: "length (map (fm_execution n) [0..<unat n]) \<le> unat n" by simp
  obtain b0 where b0: "fixed_clob_new ks vs (2 ^ 20) 8000 12000 = Some b0" "wf_clob hash b0"
      "abs_book b0 = spec_new (2 ^ 20) 8000 12000"
    by (rule new_wf [OF driver_params(1)])
  have cold: "run_matching_full_match hash ks vs n = Some (replicate (2 * unat n) True, True, n)"
  proof -
    have ids: "\<forall>c \<in> set (make_full_match_commands n). cmd_order_id c \<noteq> 0"
        and ty: "\<forall>c \<in> set (make_full_match_commands n). cmd_type c = AddLimit"
      using fm_ids_nonzero [OF n(1)] by (auto simp: full_match_halves fm_sell_def fm_buy_def)
    have spec: "spec_replay (abs_book b0) (make_full_match_commands n) =
        (replicate (2 * unat n) True, spec_new (2 ^ 20) 8000 12000, map (fm_execution n) [0..<unat n])"
      unfolding b0(3) by (rule full_match_replay [OF n]) (simp_all add: word_le_nat_alt)
    obtain b' ex' where "replay hash buffer_emplace_back b0 (make_full_match_commands n) (buffer_reserve buffer_new n) =
          Some (replicate (2 * unat n) True, b', ex')"
        "wf_clob hash b'" "abs_book b' = spec_new (2 ^ 20) 8000 12000"
        "unat (buffer_size ex') = length (map (fm_execution n) [0..<unat n])"
      by (rule buffer_replay [OF b0(2) ids spec les]) (rule that)
    then show ?thesis
      using empty_iff_no_ids [of hash b'] b0(1)
      by (simp add: run_matching_full_match_def Let_def submit_all_replay [OF ty] spec_new_def book_ids_def)
  qed
  obtain b1 where b1: "replay hash null_emplace_back b0 (map fm_sell [0..<unat n]) () = Some (replicate (unat n) True, b1, ())"
      "wf_clob hash b1" "abs_book b1 = fm_book (spec_new (2 ^ 20) 8000 12000) [0..<unat n]"
    by (rule preloaded [OF assms b0(1), of hash]) (rule that)
  have hot: "run_matching_hot_full_match hash em s0 res size_of ks vs n =
      Some (replicate (unat n) True, replicate (unat n) True, True, size_of s1)"
    if s1: "emit_all em (res s0 n) (map (fm_execution n) [0..<unat n]) = Some s1"
    for em :: "'s emplace" and s0 s1 :: 's and res size_of
  proof -
    obtain b2 where "clob_empty b2" "\<And>ex. replay hash em b1 (map (fm_buy n) [0..<unat n]) ex =
        do { ex' \<leftarrow> emit_all em ex (map (fm_execution n) [0..<unat n]); Some (replicate (unat n) True, b2, ex') }"
      by (rule matched_out [OF assms b1(2,3), of em]) (rule that)
    then show ?thesis
      using b0(1) b1(1) s1
      by (simp add: run_matching_hot_full_match_def Let_def submit_loop_replay fm_loops)
  qed
  obtain ex' where ex': "emit_all buffer_emplace_back (buffer_reserve buffer_new n) (map (fm_execution n) [0..<unat n]) = Some ex'"
      "unat (buffer_size ex') = length (map (fm_execution n) [0..<unat n])"
    by (rule emit_buffer [OF les])
  have "buffer_size ex' = n" using ex'(2) by simp
  then show ?thesis
    using cold hot [of buffer_emplace_back buffer_reserve buffer_new ex' buffer_size] ex'(1)
      hot [of vector_emplace_back "\<lambda>xs m. xs" "[]" "map (fm_execution n) [0..<unat n]" vector_size]
      hot [of null_emplace_back null_reserve "()" "()" null_size]
    by (simp add: emit_vector emit_null vector_size_def null_size_def)
qed

theorem full_match_drivers_witness:
  "run_matching_full_match RobustOrderIdHash (\<lambda>_. 3) (\<lambda>_. 4) 1000 = Some (replicate 2000 True, True, 1000)"
  using full_match_drivers [of 1000] by simp

text \<open>C32: in the sweep drivers, for 1 to 15000 ask levels holding one order each, the single buy
  that reaches the last level takes exactly one execution from every level and leaves the book
  empty.\<close>

theorem sweep_drivers:
  assumes "0 < lvls" and "lvls \<le> 15000"
  shows "run_matching_sweep_ask_levels hash ks vs lvls = Some (replicate (unat lvls) True, True, True, lvls) \<and>
    run_matching_hot_sweep_ask_levels hash ks vs lvls = Some (replicate (unat lvls) True, True, True, lvls)"
proof -
  let ?m = "unat lvls"
  let ?buy = "add_limit (lvls + 1) (10000 + lvls) lvls Buy"
  let ?cs = "map sw_sell [0..<?m] @ [?buy]"
  let ?es = "map (\<lambda>j. mk_execution (word_of_nat ?m + 1) (word_of_nat j + 1) (10001 + word_of_nat j) 1) [0..<?m]"
  have m: "0 < ?m" "?m \<le> 15000" "?m \<le> unat (2 ^ 15 :: size_t)"
    using assms by (simp_all add: word_less_nat_alt word_le_nat_alt)
  obtain b0 where b0: "fixed_clob_new ks vs (2 ^ 15) 8000 25000 = Some b0" "wf_clob hash b0"
      "abs_book b0 = spec_new (2 ^ 15) 8000 25000"
    by (rule new_wf [OF driver_params(2)])
  have spec: "spec_replay (abs_book b0) ?cs = (replicate (Suc ?m) True, spec_new (2 ^ 15) 8000 25000, ?es)"
    using sw_replay [OF m, of 8000 25000] by (simp add: b0(3) word_le_nat_alt)
  have ids: "\<forall>c \<in> set ?cs. cmd_order_id c \<noteq> 0"
  proof -
    have "unat (word_of_nat j + 1 :: size_t) \<noteq> 0" if "j \<le> ?m" for j
      using sw_unat(1) [of j] that m(2) by simp
    from this this [OF order_refl] show ?thesis by (auto simp: sw_sell_def unat_eq_zero simp del: unat_plus_simple)
  qed
  have les: "length ?es \<le> unat lvls" by simp
  have snoc: "replicate (Suc ?m) True = replicate ?m True @ [True]" by (simp add: replicate_append_same)
  obtain b' ex' where "replay hash buffer_emplace_back b0 ?cs (buffer_reserve buffer_new lvls) =
        Some (replicate (Suc ?m) True, b', ex')"
      "wf_clob hash b'" "abs_book b' = spec_new (2 ^ 15) 8000 25000" "unat (buffer_size ex') = length ?es"
    by (rule buffer_replay [OF b0(2) ids spec les]) (rule that)
  moreover from this obtain b1 ex1 where
    "replay hash buffer_emplace_back b0 (map sw_sell [0..<?m]) (buffer_reserve buffer_new lvls) = Some (replicate ?m True, b1, ex1)"
    "submit_limit_order hash buffer_emplace_back b1 (lvls + 1) Buy (10000 + lvls) lvls ex1 = Some (True, b', ex')"
    unfolding snoc by (auto simp: replay_append bind_eq_Some_conv handle_command_def)
  ultimately show ?thesis
    using empty_iff_no_ids [of hash b'] b0(1)
    by (simp add: run_matching_sweep_ask_levels_def run_matching_hot_sweep_ask_levels_def Let_def
        submit_loop_replay fm_loops spec_new_def book_ids_def)
qed

theorem sweep_drivers_witness:
  "run_matching_sweep_ask_levels FastOrderIdHash (\<lambda>_. 3) (\<lambda>_. 4) 10000 = Some (replicate 10000 True, True, True, 10000)"
  using sweep_drivers [of 10000] by (simp add: word_less_nat_alt word_le_nat_alt)

text \<open>C33: the three profiling tools exit with code 0: their million asks are all preloaded, their
  million buys are all accepted, the sink holds the expected number of executions and the book is
  empty, so none of their failure branches is reachable.\<close>

theorem profile_tools_succeed:
  "profile_full_match_main ks vs = Some 0 \<and> profile_full_match_no_exec_main ks vs = Some 0 \<and>
   profile_full_match_raw_exec_main ks vs = Some 0"
proof -
  let ?n = "1000000 :: size_t"
  let ?es = "map (fm_execution ?n) [0..<unat ?n]"
  have n: "unat ?n \<le> 2 ^ 20" by simp
  have les: "length ?es \<le> unat ?n" by simp
  obtain b0 where b0: "fixed_clob_new ks vs (2 ^ 20) 8000 12000 = Some b0" "wf_clob FastOrderIdHash b0"
      "abs_book b0 = spec_new (2 ^ 20) 8000 12000"
    by (rule new_wf [OF driver_params(1)])
  obtain b1 where b1: "replay FastOrderIdHash null_emplace_back b0 (map fm_sell [0..<unat ?n]) () =
        Some (replicate (unat ?n) True, b1, ())"
      "wf_clob FastOrderIdHash b1" "abs_book b1 = fm_book (spec_new (2 ^ 20) 8000 12000) [0..<unat ?n]"
    by (rule preloaded [OF n b0(1)]) (rule that)
  have loops: "\<exists>b2. clob_empty b2 \<and> profile_loops em reserved ks vs ?n = Some (Inr (b2, s1))"
    if s1: "emit_all em (reserved ?n) ?es = Some s1" for em :: "'s emplace" and s1 :: 's and reserved
  proof -
    obtain b2 where b2: "clob_empty b2" "\<And>ex. replay FastOrderIdHash em b1 (map (fm_buy ?n) [0..<unat ?n]) ex =
        do { ex' \<leftarrow> emit_all em ex ?es; Some (replicate (unat ?n) True, b2, ex') }"
      by (rule matched_out [OF n b1(2,3), of em]) (rule that)
    have "checked_loop FastOrderIdHash null_emplace_back (\<lambda>i. (i + 1, Sell, 10000, i mod 100 + 1)) 0 (unat ?n) b0 () =
        Some (Inr (b1, ()))"
      by (rule checked_loop_replay) (simp only: fm_loops b1(1))
    moreover have "checked_loop FastOrderIdHash em (\<lambda>i. (?n + i + 1, Buy, 10000, i mod 100 + 1)) 0 (unat ?n) b1 (reserved ?n) =
        Some (Inr (b2, s1))"
      by (rule checked_loop_replay) (simp only: fm_loops b2(2) s1 bind.bind_lunit)
    ultimately show ?thesis using b2(1) b0(1) by (simp only: profile_loops_def bind.bind_lunit sum.case prod.case) blast
  qed
  obtain ex' where ex': "emit_all buffer_emplace_back (buffer_reserve buffer_new ?n) ?es = Some ex'"
      "unat (buffer_size ex') = length ?es"
    by (rule emit_buffer [OF les])
  have sz: "buffer_size ex' = ?n" "vector_size ?es = ?n"
    using ex'(2) by (simp_all only: length_map length_upt diff_zero unat_inject vector_size_def of_nat_unat unsigned_ucast_eq ucast_id)
  obtain b3 where "clob_empty b3" "profile_loops buffer_emplace_back (buffer_reserve buffer_new) ks vs ?n = Some (Inr (b3, ex'))"
    using loops [of buffer_emplace_back "buffer_reserve buffer_new", OF ex'(1)] by blast
  moreover obtain b4 where "clob_empty b4" "profile_loops vector_emplace_back (\<lambda>_. []) ks vs ?n = Some (Inr (b4, ?es))"
    using loops [of vector_emplace_back "\<lambda>_. []" ?es] by (auto simp only: emit_vector append_Nil)
  moreover obtain b5 where "clob_empty b5" "profile_loops null_emplace_back (\<lambda>_. ()) ks vs ?n = Some (Inr (b5, ()))"
    using loops [of null_emplace_back "\<lambda>_. ()" "()"] by (auto simp only: emit_null)
  ultimately show ?thesis
    by (simp only: profile_full_match_main_def profile_full_match_no_exec_main_def
        profile_full_match_raw_exec_main_def Let_def bind.bind_lunit sum.case prod.case sz null_size_def)
       simp
qed

end
