(* ===== verification/Pipeline_Runs.thy ===== *)
theory Pipeline_Runs
  imports Pipeline Direct_Runs
begin

text \<open>
  One iteration of each benchmark of \<open>bench_pipeline.cpp\<close>, as a function of the schedule of
  its threads. The outer option is a fault; the inner one is None while a thread is still
  running, that is, before both joins have returned. The result is what the benchmark
  keeps from the optimiser, in order. \<open>ks\<close> and \<open>vs\<close> are the index's uninitialised memory.
  The batch arrays hold default commands, as they do in the first iteration. The system call behind \<open>pin_current_thread_to_cpu\<close> (\<open>thread_affinity.hpp\<close>) is a parameter.
\<close>

subsection \<open>The parts the benchmarks share\<close>

definition queue_capacity :: size_t where
  "queue_capacity = 2 ^ 20"

definition default_command :: OrderCommand where
  "default_command = \<lparr>cmd_order_id = 0, cmd_price = 0, cmd_qty = 0, cmd_type = AddLimit, cmd_side = Buy\<rparr>"

text \<open>The book, the execution sink and the answers the consumer has seen.\<close>

record 's book_work =
  work_book :: FixedClob
  work_sink :: 's
  work_results :: "bool list"

definition new_book_work :: "FixedClob \<Rightarrow> 's \<Rightarrow> 's book_work" where
  "new_book_work b ex = \<lparr>work_book = b, work_sink = ex, work_results = []\<rparr>"

definition handle_order :: "hash_fn \<Rightarrow> 's emplace \<Rightarrow> OrderCommand \<Rightarrow> 's book_work \<Rightarrow> 's book_work option" where
  "handle_order hash emplace command w = do {
     (ok, b, ex) \<leftarrow> handle_command hash emplace (work_book w) command (work_sink w);
     Some (w\<lparr>work_book := b, work_sink := ex, work_results := work_results w @ [ok]\<rparr>)
   }"

text \<open>The index queue: the item is a position of \<open>commands\<close>.\<close>

definition handle_order_at ::
    "hash_fn \<Rightarrow> 's emplace \<Rightarrow> OrderCommand list \<Rightarrow> 32 word \<Rightarrow> 's book_work \<Rightarrow> 's book_work option" where
  "handle_order_at hash emplace commands i w = do {
     command \<leftarrow> read_at commands (unat i);
     handle_order hash emplace command w
   }"

text \<open>The queue-only consumers only keep the items from the optimiser.\<close>

definition observe :: "'a \<Rightarrow> 'a list \<Rightarrow> 'a list option" where
  "observe x seen = Some (seen @ [x])"

definition observe_at :: "'a list \<Rightarrow> 32 word \<Rightarrow> 'a list \<Rightarrow> 'a list option" where
  "observe_at commands i seen = do { x \<leftarrow> read_at commands (unat i); Some (seen @ [x]) }"

text \<open>What the producer pushes: \<open>commands[i]\<close>, or \<open>i\<close> itself.\<close>

definition item_at :: "'a list \<Rightarrow> 'c::len word \<Rightarrow> 'w \<Rightarrow> ('a \<times> 'w) option" where
  "item_at xs i w = do { x \<leftarrow> read_at xs (unat i); Some (x, w) }"

definition item_index :: "'c::len word \<Rightarrow> 'w \<Rightarrow> ('c word \<times> 'w) option" where
  "item_index i w = Some (i, w)"

definition book_result :: "ExecutionBuffer book_work \<Rightarrow> bool list \<times> bool \<times> size_t" where
  "book_result w = (work_results w, clob_empty (work_book w), buffer_size (work_sink w))"


definition pin_current_thread_to_cpu :: "(nat set \<Rightarrow> int) \<Rightarrow> nat \<Rightarrow> bool" where
  "pin_current_thread_to_cpu setaffinity cpu = (setaffinity {cpu} = 0)"

subsection \<open>The benchmarks that drive a book\<close>

definition pipeline_add_only ::
    "(nat \<Rightarrow> OrderId) \<Rightarrow> (nat \<Rightarrow> OrderIndex) \<Rightarrow> size_t \<Rightarrow> thread list \<Rightarrow> (bool list \<times> bool \<times> size_t) option option" where
  "pipeline_add_only ks vs n ts = do {
     let commands = make_add_only_commands n;
     let queue = ring_new default_command queue_capacity;
     b \<leftarrow> fixed_clob_new ks vs queue_capacity 8000 12000;
     let executions = buffer_reserve buffer_new n;
     p \<leftarrow> run_turns
       (producer_turn ring_push (item_at commands :: size_t \<Rightarrow> _) (commands_size commands))
       (consumer_turn ring_pop (handle_order FastOrderIdHash buffer_emplace_back) (commands_size commands))
       False ts (pipe_init queue default_command [] (new_book_work b executions));
     Some (map_option book_result (joined_work (commands_size commands) p))
   }"

definition pipeline_full_match ::
    "(nat \<Rightarrow> OrderId) \<Rightarrow> (nat \<Rightarrow> OrderIndex) \<Rightarrow> size_t \<Rightarrow> thread list \<Rightarrow> (bool list \<times> bool \<times> size_t) option option" where
  "pipeline_full_match ks vs n ts = do {
     let commands = make_full_match_commands n;
     let queue = ring_new default_command queue_capacity;
     b \<leftarrow> fixed_clob_new ks vs queue_capacity 8000 12000;
     let executions = buffer_reserve buffer_new n;
     p \<leftarrow> run_turns
       (producer_turn ring_push (item_at commands :: size_t \<Rightarrow> _) (commands_size commands))
       (consumer_turn ring_pop (handle_order FastOrderIdHash buffer_emplace_back) (commands_size commands))
       False ts (pipe_init queue default_command [] (new_book_work b executions));
     Some (map_option book_result (joined_work (commands_size commands) p))
   }"

text \<open>The producer's counter and the items are 32 bits wide.\<close>

definition pipeline_index_queue ::
    "(nat \<Rightarrow> OrderId) \<Rightarrow> (nat \<Rightarrow> OrderIndex) \<Rightarrow> size_t \<Rightarrow> thread list \<Rightarrow> (bool list \<times> bool \<times> size_t) option option" where
  "pipeline_index_queue ks vs n ts = do {
     let commands = make_full_match_commands n;
     let queue = ring_new 0 queue_capacity;
     b \<leftarrow> fixed_clob_new ks vs queue_capacity 8000 12000;
     let executions = buffer_reserve buffer_new n;
     p \<leftarrow> run_turns
       (producer_turn ring_push (item_index :: 32 word \<Rightarrow> _) (commands_size commands))
       (consumer_turn ring_pop (handle_order_at FastOrderIdHash buffer_emplace_back commands) (commands_size commands))
       False ts (pipe_init queue 0 [] (new_book_work b executions));
     Some (map_option book_result (joined_work (commands_size commands) p))
   }"

definition pipeline_batch_pop ::
    "size_t \<Rightarrow> hash_fn \<Rightarrow> (nat \<Rightarrow> OrderId) \<Rightarrow> (nat \<Rightarrow> OrderIndex) \<Rightarrow> size_t \<Rightarrow> thread list
     \<Rightarrow> (bool list \<times> bool \<times> size_t) option option" where
  "pipeline_batch_pop BatchSize hash ks vs n ts = do {
     let commands = make_full_match_commands n;
     let command_batch = replicate (unat BatchSize) default_command;
     let queue = ring_new default_command queue_capacity;
     b \<leftarrow> fixed_clob_new ks vs queue_capacity 8000 12000;
     let executions = buffer_reserve buffer_new n;
     p \<leftarrow> run_turns
       (producer_turn ring_push (item_at commands :: size_t \<Rightarrow> _) (commands_size commands))
       (consumer_batch_turn ring_pop_many BatchSize (handle_order hash buffer_emplace_back) (commands_size commands))
       False ts (pipe_init queue default_command command_batch (new_book_work b executions));
     Some (map_option book_result (joined_work (commands_size commands) p))
   }"

definition pipeline_batch_push_pop ::
    "size_t \<Rightarrow> hash_fn \<Rightarrow> (nat \<Rightarrow> OrderId) \<Rightarrow> (nat \<Rightarrow> OrderIndex) \<Rightarrow> size_t \<Rightarrow> thread list
     \<Rightarrow> (bool list \<times> bool \<times> size_t) option option" where
  "pipeline_batch_push_pop BatchSize hash ks vs n ts = do {
     let commands = make_full_match_commands n;
     let consumer_batch = replicate (unat BatchSize) default_command;
     let queue = ring_new default_command queue_capacity;
     b \<leftarrow> fixed_clob_new ks vs queue_capacity 8000 12000;
     let executions = buffer_reserve buffer_new n;
     p \<leftarrow> run_turns
       (producer_batch_turn ring_push_many BatchSize commands)
       (consumer_batch_turn ring_pop_many BatchSize (handle_order hash buffer_emplace_back) (commands_size commands))
       False ts (pipe_init queue default_command consumer_batch (new_book_work b executions));
     Some (map_option book_result (joined_work (commands_size commands) p))
   }"

text \<open>Pinning either thread may fail; the answer is only kept from the optimiser.\<close>

definition pipeline_batch_pop_pinned ::
    "(nat set \<Rightarrow> int) \<Rightarrow> size_t \<Rightarrow> hash_fn \<Rightarrow> (nat \<Rightarrow> OrderId) \<Rightarrow> (nat \<Rightarrow> OrderIndex) \<Rightarrow> size_t \<Rightarrow> thread list
     \<Rightarrow> (bool \<times> bool \<times> bool list \<times> bool \<times> size_t) option option" where
  "pipeline_batch_pop_pinned setaffinity BatchSize hash ks vs n ts = do {
     let commands = make_full_match_commands n;
     let command_batch = replicate (unat BatchSize) default_command;
     let queue = ring_new default_command queue_capacity;
     b \<leftarrow> fixed_clob_new ks vs queue_capacity 8000 12000;
     let executions = buffer_reserve buffer_new n;
     let producer_pinned = pin_current_thread_to_cpu setaffinity 4;
     let consumer_pinned = pin_current_thread_to_cpu setaffinity 6;
     p \<leftarrow> run_turns
       (producer_turn ring_push (item_at commands :: size_t \<Rightarrow> _) (commands_size commands))
       (consumer_batch_turn ring_pop_many BatchSize (handle_order hash buffer_emplace_back) (commands_size commands))
       False ts (pipe_init queue default_command command_batch (new_book_work b executions));
     Some (map_option (\<lambda>w. (producer_pinned, consumer_pinned, book_result w))
       (joined_work (commands_size commands) p))
   }"

subsection \<open>The benchmarks of the queue alone\<close>

text \<open>The consumer skips an empty batch, as \<open>if (batch_count == 0) continue\<close> says.\<close>

definition consumer_observe_turn ::
    "(nat \<Rightarrow> 'q \<Rightarrow> 'a list \<Rightarrow> size_t \<Rightarrow> (size_t \<times> 'a list \<times> 'q) option) \<Rightarrow> size_t \<Rightarrow> size_t
     \<Rightarrow> nat \<Rightarrow> ('q, 'i, 'a, 'a list) pipe \<Rightarrow> ('q, 'i, 'a, 'a list) pipe option" where
  "consumer_observe_turn pop_many batch_size n s p =
     (if processed p < n then do {
        (batch_count, batch, q) \<leftarrow> pop_many s (queue p) (item_batch p) batch_size;
        let p = p\<lparr>queue := q, item_batch := batch\<rparr>;
        if batch_count = 0 then Some p
        else do {
          w \<leftarrow> handle_batch observe batch 0 (unat batch_count) (work p);
          Some (p\<lparr>work := w, processed := processed p + batch_count\<rparr>)
        }
      } else Some p)"

definition pipeline_queue_only :: "size_t \<Rightarrow> size_t \<Rightarrow> thread list \<Rightarrow> OrderCommand list option option" where
  "pipeline_queue_only BatchSize n ts = do {
     let commands = make_full_match_commands n;
     let queue = ring_new default_command queue_capacity;
     let command_batch = replicate (unat BatchSize) default_command;
     p \<leftarrow> run_turns
       (producer_turn ring_push (item_at commands :: size_t \<Rightarrow> _) (commands_size commands))
       (consumer_observe_turn ring_pop_many BatchSize (commands_size commands))
       False ts (pipe_init queue default_command command_batch []);
     Some (joined_work (commands_size commands) p)
   }"

definition uint64_items :: "size_t \<Rightarrow> 64 word list" where
  "uint64_items n = map (\<lambda>k. word_of_nat k + 1) [0..<unat n]"

definition pipeline_uint64_queue_only :: "size_t \<Rightarrow> thread list \<Rightarrow> 64 word list option option" where
  "pipeline_uint64_queue_only n ts = do {
     let items = uint64_items n;
     let queue = ring_new 0 queue_capacity;
     p \<leftarrow> run_turns
       (producer_turn ring_push (item_at items :: size_t \<Rightarrow> _) (commands_size items))
       (consumer_turn ring_pop observe (commands_size items))
       False ts (pipe_init queue 0 [] []);
     Some (joined_work (commands_size items) p)
   }"

definition pipeline_index_queue_only :: "size_t \<Rightarrow> thread list \<Rightarrow> OrderCommand list option option" where
  "pipeline_index_queue_only n ts = do {
     let commands = make_full_match_commands n;
     let queue = ring_new 0 queue_capacity;
     p \<leftarrow> run_turns
       (producer_turn ring_push (item_index :: 32 word \<Rightarrow> _) (commands_size commands))
       (consumer_turn ring_pop (observe_at commands) (commands_size commands))
       False ts (pipe_init queue 0 [] []);
     Some (joined_work (commands_size commands) p)
   }"

subsection \<open>Items known in advance\<close>

text \<open>The items made are those of a list \<open>its\<close>, in order; \<open>V k w\<close> says what the work is after
  the first \<open>k\<close> of them.\<close>

definition from_list :: "'a list \<Rightarrow> (nat \<Rightarrow> 'w \<Rightarrow> bool) \<Rightarrow> 'a list \<Rightarrow> nat \<Rightarrow> 'w \<Rightarrow> bool" where
  "from_list its V made k w \<longleftrightarrow> (\<exists>j \<le> length its. made = take j its) \<and> V k w"

lemma from_list_makes:
  fixes item_of :: "'c::len word \<Rightarrow> 'w \<Rightarrow> ('a \<times> 'w) option"
  assumes "\<And>c w. unat c < length its \<Longrightarrow> item_of c w = Some (its ! unat c, w)"
  shows "makes (from_list its V) (length its) item_of"
  unfolding makes_def
proof (intro allI impI)
  fix made k w and c :: "'c word"
  assume "from_list its V made k w" "length made < length its" "unat c = length made"
  then have "V k w" "made = take (length made) its" "unat c < length its" by (auto simp: from_list_def min_def)
  moreover from this have "made @ [its ! unat c] = take (Suc (length made)) its"
    using \<open>unat c = length made\<close> by (metis take_Suc_conv_app_nth)
  ultimately have "from_list its V (made @ [its ! unat c]) k w"
    using \<open>length made < length its\<close> unfolding from_list_def by (metis Suc_leI)
  then show "\<exists>x w'. item_of c w = Some (x, w') \<and> from_list its V made k w' \<and> from_list its V (made @ [x]) k w'"
    using assms \<open>unat c < length its\<close> \<open>from_list its V made k w\<close> by blast
qed

lemma from_list_offers: "offers (from_list its V) its"
  unfolding offers_def
proof (intro allI impI)
  fix made k w j
  assume a: "from_list its V made k w" "length made + j \<le> length its"
  then have "made = take (length made) its" "V k w" by (auto simp: from_list_def min_def)
  then have "made @ take j (drop (length made) its) = take (length made + j) its" by (simp add: take_add)
  then show "from_list its V (made @ take j (drop (length made) its)) k w"
    using a(2) \<open>V k w\<close> unfolding from_list_def by metis
qed

lemma from_list_handles:
  assumes "\<And>k w. V k w \<Longrightarrow> k < length its \<Longrightarrow> \<exists>w'. handle (its ! k) w = Some w' \<and> V (Suc k) w'"
  shows "handles (from_list its V) handle"
  using assms unfolding handles_def from_list_def by fastforce

text \<open>
  What a run delivers: never a fault, never anything but \<open>r\<close> after the joins, and \<open>r\<close> on every
  schedule with at least \<open>m\<close> rounds after the start.
\<close>

definition delivers :: "(thread list \<Rightarrow> 'r option option) \<Rightarrow> nat \<Rightarrow> 'r \<Rightarrow> bool" where
  "delivers run m r \<longleftrightarrow> (\<forall>ts. run ts = Some None \<or> run ts = Some (Some r)) \<and>
     (\<forall>ts. enough_turns m ts \<longrightarrow> run ts = Some (Some r))"

lemma deliversI:
  assumes "\<And>ts. \<exists>x. run ts = Some x \<and> (\<forall>y. x = Some y \<longrightarrow> y = r) \<and> (enough_turns m ts \<longrightarrow> x \<noteq> None)"
  shows "delivers run m r"
proof -
  have "(run ts = Some None \<or> run ts = Some (Some r)) \<and> (enough_turns m ts \<longrightarrow> run ts = Some (Some r))" for ts
    using assms [of ts] by (metis not_None_eq)
  then show ?thesis by (simp add: delivers_def)
qed

lemma capacity_ok_queue [simp]: "capacity_ok queue_capacity"
  by (simp add: capacity_ok_def queue_capacity_def) code_simp

text \<open>The general shape of the benchmarks, for any pair of turns.\<close>

lemma ring_delivers:
  fixes pt ct :: "nat \<Rightarrow> ('a SpscRing, 'c::len word, 'a, 'w) pipe \<Rightarrow> _"
  assumes pt: "produces (pipe_at ring_inv ring_items (from_list its V) (length its) (length batch)) (length its) pt"
    and ct: "consumes (pipe_at ring_inv ring_items (from_list its V) (length its) (length batch)) ct"
    and V: "V 0 w0" and n: "length its < 2 ^ 64" "length its < 2 ^ LENGTH('c)"
    and size: "size_of = word_of_nat (length its)"
    and res: "\<And>w. V (length its) w \<Longrightarrow> result w = r"
  shows "delivers (\<lambda>ts. do { p \<leftarrow> run_turns pt ct False ts (pipe_init (ring_new d queue_capacity) x batch w0);
     Some (map_option result (joined_work size_of p)) }) (length its) r"
proof (rule deliversI)
  fix ts
  have w0: "from_list its V [] 0 w0" using V by (auto simp: from_list_def)
  obtain p where p: "run_turns pt ct False ts (pipe_init (ring_new d queue_capacity) x batch w0) = Some p"
      "\<And>w. joined_work size_of p = Some w \<Longrightarrow> \<exists>made. length made = length its \<and> from_list its V made (length its) w"
      "enough_turns (length its) ts \<Longrightarrow> joined_work size_of p \<noteq> None"
  proof (rule ring_stale.threads_join [OF pt ct ring_inv_new [OF capacity_ok_queue] ring_items_new w0 n, folded size])
    fix p
    assume "run_turns pt ct False ts (pipe_init (ring_new d queue_capacity) x batch w0) = Some p"
      "\<And>w. joined_work size_of p = Some w \<Longrightarrow> \<exists>made. length made = length its \<and> from_list its V made (length its) w"
      "enough_turns (length its) ts \<Longrightarrow> joined_work size_of p \<noteq> None"
    then show thesis by (rule that)
  qed
  have "result w = r" if j: "joined_work size_of p = Some w" for w
  proof -
    obtain made where "from_list its V made (length its) w" using p(2) [OF j] by auto
    then show ?thesis by (intro res) (simp add: from_list_def)
  qed
  then show "\<exists>y. do { p \<leftarrow> run_turns pt ct False ts (pipe_init (ring_new d queue_capacity) x batch w0);
      Some (map_option result (joined_work size_of p)) } = Some y \<and>
      (\<forall>z. y = Some z \<longrightarrow> z = r) \<and> (enough_turns (length its) ts \<longrightarrow> y \<noteq> None)"
    using p(1,3) by (cases "joined_work size_of p") auto
qed

subsection \<open>The work of the consumers\<close>

definition observed :: "'a list \<Rightarrow> nat \<Rightarrow> 'a list \<Rightarrow> bool" where
  "observed xs k seen \<longleftrightarrow> seen = take k xs"

definition book_after :: "hash_fn \<Rightarrow> 's emplace \<Rightarrow> FixedClob \<Rightarrow> 's \<Rightarrow> OrderCommand list \<Rightarrow> nat \<Rightarrow> 's book_work \<Rightarrow> bool" where
  "book_after hash em b0 ex0 cs k w \<longleftrightarrow>
     replay hash em b0 (take k cs) ex0 = Some (work_results w, work_book w, work_sink w)"

lemma observe_handles: "handles (from_list xs (observed xs)) observe"
  by (rule from_list_handles) (simp add: observed_def observe_def take_Suc_conv_app_nth)

definition indices :: "'a list \<Rightarrow> 32 word list" where
  "indices xs = map word_of_nat [0..<length xs]"

lemma length_indices [simp]: "length (indices xs) = length xs"
  by (simp add: indices_def)

lemma nth_indices:
  assumes "k < length xs" and "length xs < 2 ^ 32"
  shows "indices xs ! k = word_of_nat k" and "unat (indices xs ! k) = k"
proof -
  show "indices xs ! k = word_of_nat k" using assms(1) by (simp add: indices_def)
  moreover have "unat (word_of_nat k :: 32 word) = k" by (rule unat_of_nat_less) (use assms in simp)
  ultimately show "unat (indices xs ! k) = k" by simp
qed

lemma observe_at_handles:
  assumes "length xs < 2 ^ 32"
  shows "handles (from_list (indices xs) (observed xs)) (observe_at xs)"
  by (rule from_list_handles) (simp add: observed_def observe_at_def take_Suc_conv_app_nth nth_indices(2) [OF _ assms])

lemma order_step:
  assumes total: "replay hash em b0 cs ex0 = Some r" and w: "book_after hash em b0 ex0 cs k w" and k: "k < length cs"
  shows "\<exists>w'. handle_order hash em (cs ! k) w = Some w' \<and> book_after hash em b0 ex0 cs (Suc k) w'"
proof -
  obtain oks b ex where "replay hash em b0 (take (Suc k) cs) ex0 = Some (oks, b, ex)"
    using total replay_append [of hash em b0 "take (Suc k) cs" "drop (Suc k) cs" ex0]
    by (cases "replay hash em b0 (take (Suc k) cs) ex0") auto
  then show ?thesis
    using w k by (auto simp: book_after_def take_Suc_conv_app_nth replay_append bind_eq_Some_conv handle_order_def)
qed

lemma order_handles:
  assumes "replay hash em b0 cs ex0 = Some r"
  shows "handles (from_list cs (book_after hash em b0 ex0 cs)) (handle_order hash em)"
  by (rule from_list_handles) (rule order_step [OF assms])

lemma order_at_handles:
  assumes "replay hash em b0 cs ex0 = Some r" and "length cs < 2 ^ 32"
  shows "handles (from_list (indices cs) (book_after hash em b0 ex0 cs)) (handle_order_at hash em cs)"
proof (rule from_list_handles)
  fix k w assume "book_after hash em b0 ex0 cs k w" "k < length (indices cs)"
  then show "\<exists>w'. handle_order_at hash em cs (indices cs ! k) w = Some w' \<and> book_after hash em b0 ex0 cs (Suc k) w'"
    using order_step [OF assms(1)] nth_indices(2) [OF _ assms(2)] by (simp add: handle_order_at_def)
qed

lemma book_start: "book_after hash em b ex cs 0 (new_book_work b ex)"
  by (simp add: book_after_def new_book_work_def)

lemma item_at_makes: "makes (from_list its V) (length its) (item_at its :: 'c::len word \<Rightarrow> _)"
  by (rule from_list_makes) (simp add: item_at_def)

lemma item_index_makes:
  "length xs < 2 ^ 32 \<Longrightarrow> makes (from_list (indices xs) V) (length xs) (item_index :: 32 word \<Rightarrow> _)"
  using from_list_makes [of "indices xs" item_index V]
  by (simp add: item_index_def nth_indices)

lemma observe_turn_eq:
  fixes pop_many :: "nat \<Rightarrow> 'q \<Rightarrow> 'a list \<Rightarrow> size_t \<Rightarrow> (size_t \<times> 'a list \<times> 'q) option"
  shows "consumer_observe_turn pop_many B n = consumer_batch_turn pop_many B observe n"
proof (intro ext)
  fix s and p :: "('q, 'i, 'a, 'a list) pipe"
  show "consumer_observe_turn pop_many B n s p = consumer_batch_turn pop_many B observe n s p"
    by (cases "pop_many s (queue p) (item_batch p) B")
      (auto simp: consumer_observe_turn_def consumer_batch_turn_def Let_def)
qed

subsection \<open>The three ways to pair the loops\<close>

lemma single_delivers:
  fixes item_of :: "'c::len word \<Rightarrow> 'w \<Rightarrow> ('a \<times> 'w) option"
  assumes m: "makes (from_list its V) (length its) item_of" and h: "handles (from_list its V) handle"
    and n: "length its < 2 ^ 64" "length its < 2 ^ LENGTH('c)" and size: "size_of = word_of_nat (length its)"
    and V: "V 0 w0" and res: "\<And>w. V (length its) w \<Longrightarrow> result w = r"
  shows "delivers (\<lambda>ts. do {
     p \<leftarrow> run_turns (producer_turn ring_push item_of size_of) (consumer_turn ring_pop handle size_of)
       False ts (pipe_init (ring_new d queue_capacity) x [] w0);
     Some (map_option result (joined_work size_of p)) }) (length its) r"
  unfolding size
  by (rule ring_delivers [OF ring_stale.producer_turn_produces [OF m n] ring_stale.consumer_turn_consumes [OF h n(1)]])
    (use n V res in simp_all)

lemma batch_pop_delivers:
  fixes item_of :: "'c::len word \<Rightarrow> 'w \<Rightarrow> ('a \<times> 'w) option"
  assumes m: "makes (from_list its V) (length its) item_of" and h: "handles (from_list its V) handle" and B: "0 < B"
    and n: "length its < 2 ^ 64" "length its < 2 ^ LENGTH('c)" and size: "size_of = word_of_nat (length its)"
    and V: "V 0 w0" and res: "\<And>w. V (length its) w \<Longrightarrow> result w = r"
  shows "delivers (\<lambda>ts. do {
     p \<leftarrow> run_turns (producer_turn ring_push item_of size_of) (consumer_batch_turn ring_pop_many B handle size_of)
       False ts (pipe_init (ring_new d queue_capacity) x (replicate (unat B) d) w0);
     Some (map_option result (joined_work size_of p)) }) (length its) r"
  unfolding size
  by (rule ring_delivers [where batch = "replicate (unat B) d", unfolded length_replicate,
        OF ring_stale.producer_turn_produces [OF m n] ring_stale.consumer_batch_turn_consumes [OF h n(1) B]])
    (use n V res in simp_all)

lemma batch_push_pop_delivers:
  assumes h: "handles (from_list its V) handle" and B: "0 < B"
    and n: "length its < 2 ^ 64" and V: "V 0 w0" and res: "\<And>w. V (length its) w \<Longrightarrow> result w = r"
  shows "delivers (\<lambda>ts. do {
     p \<leftarrow> run_turns (producer_batch_turn ring_push_many B its)
       (consumer_batch_turn ring_pop_many B handle (commands_size its))
       False ts (pipe_init (ring_new d queue_capacity) x (replicate (unat B) d) w0);
     Some (map_option result (joined_work (commands_size its) p)) }) (length its) r"
  unfolding commands_size_def
  by (rule ring_delivers [where batch = "replicate (unat B) d", unfolded length_replicate,
        OF ring_stale.producer_batch_turn_produces [OF from_list_offers n B] ring_stale.consumer_batch_turn_consumes [OF h n B]])
    (use n V res in simp_all)

lemmas seen_delivers =
  single_delivers [where result = "\<lambda>w. w", unfolded option.map_ident]
  batch_pop_delivers [where result = "\<lambda>w. w", unfolded option.map_ident]

subsection \<open>What the benchmarks deliver\<close>

text \<open>C28: the queue-only benchmarks, for up to \<open>2^30\<close> asks: whatever the schedule of the two
  threads and however stale their loads of the other's counter, the consumer sees exactly the items the producer made, in order and complete, whether
  they travel one by one, in batches or as 32-bit positions, and every schedule with as many rounds
  after the start as there are items finishes.\<close>

theorem queue_only_pipelines:
  assumes "unat n \<le> 2 ^ 30" and "0 < B"
  shows "delivers (pipeline_queue_only B n) (2 * unat n) (make_full_match_commands n) \<and>
    delivers (pipeline_index_queue_only n) (2 * unat n) (make_full_match_commands n) \<and>
    delivers (pipeline_uint64_queue_only n) (unat n) (uint64_items n)"
proof (intro conjI)
  let ?cs = "make_full_match_commands n" and ?us = "uint64_items n"
  have len: "length ?cs = 2 * unat n" "length ?us = unat n" by (simp_all add: uint64_items_def)
  have len32: "length ?cs < 2 ^ 32" using assms(1) by (simp add: len)
  have start: "observed xs 0 []" and seen: "observed xs (length xs) w \<Longrightarrow> w = xs" for xs :: "'a list" and w
    by (simp_all add: observed_def)
  have "delivers (pipeline_queue_only B n) (length ?cs) ?cs"
    unfolding pipeline_queue_only_def Let_def observe_turn_eq commands_size_def
    by (rule seen_delivers(2) [OF item_at_makes observe_handles assms(2) _ _ refl start seen])
      (use assms(1) in \<open>simp_all add: len\<close>)
  then show "delivers (pipeline_queue_only B n) (2 * unat n) ?cs" by (simp only: len)
  have "delivers (pipeline_index_queue_only n) (length (indices ?cs)) ?cs"
    unfolding pipeline_index_queue_only_def Let_def commands_size_def
    by (rule seen_delivers(1) [OF item_index_makes [OF len32, folded length_indices [of ?cs]] observe_at_handles [OF len32] _ _ _ start])
      (use assms(1) in \<open>simp_all add: len observed_def\<close>)
  then show "delivers (pipeline_index_queue_only n) (2 * unat n) ?cs" by (simp only: len length_indices)
  have "delivers (pipeline_uint64_queue_only n) (length ?us) ?us"
    unfolding pipeline_uint64_queue_only_def Let_def commands_size_def
    by (rule seen_delivers(1) [OF item_at_makes observe_handles _ _ refl start seen])
      (use assms(1) in \<open>simp_all add: len\<close>)
  then show "delivers (pipeline_uint64_queue_only n) (unat n) ?us" by (simp only: len)
qed

text \<open>A schedule that alternates the two threads after the start, with fresh loads, has enough turns.\<close>

lemma alternating_turns: "enough_turns m (Consumer 5 # Main # concat (replicate m [Producer 0, Consumer 0]))"
  unfolding enough_turns_def
proof (intro exI conjI ballI)
  show "Consumer 5 # Main # concat (replicate m [Producer 0, Consumer 0]) =
      [Consumer 5] @ Main # concat (replicate m [Producer 0, Consumer 0])" by simp
  show "round r" if "r \<in> set (replicate m [Producer 0, Consumer 0])" for r
  proof -
    have "[Producer 0, Consumer 0] = [] @ Producer 0 # [] @ Consumer 0 # []" by simp
    then show ?thesis using that unfolding round_def by (metis in_set_replicate)
  qed
qed simp

theorem queue_only_pipelines_witness:
  "pipeline_uint64_queue_only 1000 (Consumer 5 # Main # concat (replicate 1000 [Producer 0, Consumer 0])) =
    Some (Some (uint64_items 1000))"
  using queue_only_pipelines [of 1000 32] alternating_turns [of 1000] by (simp add: delivers_def)

lemma driver_book:
  assumes "\<forall>c \<in> set cs. cmd_order_id c \<noteq> 0" and "spec_replay (spec_new queue_capacity 8000 12000) cs = (oks, bk, es)"
    and "length es \<le> unat n"
  obtains b0 b' ex' where "fixed_clob_new ks vs queue_capacity 8000 12000 = Some b0"
    "replay hash buffer_emplace_back b0 cs (buffer_reserve buffer_new n) = Some (oks, b', ex')"
    "clob_empty b' \<longleftrightarrow> book_ids bk = {}" "unat (buffer_size ex') = length es"
proof -
  obtain b0 where b0: "fixed_clob_new ks vs queue_capacity 8000 12000 = Some b0" "wf_clob hash b0"
      "abs_book b0 = spec_new queue_capacity 8000 12000"
    unfolding queue_capacity_def by (rule new_wf [OF driver_params(1)])
  have spec: "spec_replay (abs_book b0) cs = (oks, bk, es)" by (simp add: b0(3) assms(2))
  obtain b' ex' where "replay hash buffer_emplace_back b0 cs (buffer_reserve buffer_new n) = Some (oks, b', ex')"
      "wf_clob hash b'" "abs_book b' = bk" "unat (buffer_size ex') = length es"
    by (rule buffer_replay [OF b0(2) assms(1) spec assms(3)]) (rule that)
  then show ?thesis using empty_iff_no_ids [of hash b'] b0(1) by (intro that) simp_all
qed

lemma book_result_after:
  "replay hash buffer_emplace_back b0 cs ex0 = Some (oks, b', ex') \<Longrightarrow>
   book_after hash buffer_emplace_back b0 ex0 cs (length cs) w \<Longrightarrow>
   book_result w = (oks, clob_empty b', buffer_size ex')"
  by (simp add: book_after_def book_result_def)

text \<open>C26: the full-match pipelines, for up to \<open>2^20\<close> asks and as many buys: whatever the schedule of
  the producer, the consumer and the start, however stale the loads of the other's counter, whichever of the four queue protocols carries the
  commands and whether or not the threads could be pinned, no call faults, every submission is
  accepted, every buy produces exactly one execution and the book ends empty, exactly as in the
  direct run; every schedule with a round per command after the start finishes.\<close>

theorem full_match_pipelines:
  assumes "unat n \<le> 2 ^ 20" and "0 < B"
  shows "delivers (pipeline_full_match ks vs n) (2 * unat n) (replicate (2 * unat n) True, True, n) \<and>
    delivers (pipeline_index_queue ks vs n) (2 * unat n) (replicate (2 * unat n) True, True, n) \<and>
    delivers (pipeline_batch_pop B hash ks vs n) (2 * unat n) (replicate (2 * unat n) True, True, n) \<and>
    delivers (pipeline_batch_push_pop B hash ks vs n) (2 * unat n) (replicate (2 * unat n) True, True, n) \<and>
    delivers (pipeline_batch_pop_pinned aff B hash ks vs n) (2 * unat n)
      (aff {4} = 0, aff {6} = 0, replicate (2 * unat n) True, True, n)"
proof -
  let ?cs = "make_full_match_commands n" and ?es = "map (fm_execution n) [0..<unat n]"
  let ?r = "(replicate (2 * unat n) True, True, n)" and ?ex = "buffer_reserve buffer_new n"
  have n: "2 * unat n < 2 ^ 64" "unat n \<le> unat queue_capacity" using assms(1) by (simp_all add: queue_capacity_def)
  have len: "length ?cs = 2 * unat n" by simp
  have small: "2 * unat n < 2 ^ 64" "2 * unat n < 2 ^ 32" using assms(1) by simp_all
  have len32: "length ?cs < 2 ^ 32" using small by (simp add: len)
  have ids: "\<forall>c \<in> set ?cs. cmd_order_id c \<noteq> 0"
    using fm_ids_nonzero [OF n(1)] by (auto simp: full_match_halves fm_sell_def fm_buy_def)
  have spec: "spec_replay (spec_new queue_capacity 8000 12000) ?cs =
      (replicate (2 * unat n) True, spec_new queue_capacity 8000 12000, ?es)"
    by (rule full_match_replay [OF n]) (simp_all add: word_le_nat_alt)
  have book: "\<exists>b0 b' ex'. fixed_clob_new ks vs queue_capacity 8000 12000 = Some b0 \<and>
      replay h buffer_emplace_back b0 ?cs ?ex = Some (replicate (2 * unat n) True, b', ex') \<and>
      (\<forall>w. book_after h buffer_emplace_back b0 ?ex ?cs (length ?cs) w \<longrightarrow> book_result w = ?r)" for h
  proof -
    have "length ?es \<le> unat n" by simp
    obtain b0 b' ex' where r: "fixed_clob_new ks vs queue_capacity 8000 12000 = Some b0"
        "replay h buffer_emplace_back b0 ?cs ?ex = Some (replicate (2 * unat n) True, b', ex')"
        "clob_empty b' \<longleftrightarrow> book_ids (spec_new queue_capacity 8000 12000) = {}" "unat (buffer_size ex') = length ?es"
      by (rule driver_book [OF ids spec \<open>length ?es \<le> unat n\<close>, of ks vs h]) (rule that)
    then have "clob_empty b'" "buffer_size ex' = n" by (simp_all add: spec_new_def book_ids_def)
    then have "book_result w = ?r" if "book_after h buffer_emplace_back b0 ?ex ?cs (length ?cs) w" for w
      using book_result_after [OF r(2) that] by simp
    then show ?thesis using r(1,2) by blast
  qed
  obtain b0 b' ex' where f: "fixed_clob_new ks vs queue_capacity 8000 12000 = Some b0"
      "replay FastOrderIdHash buffer_emplace_back b0 ?cs ?ex = Some (replicate (2 * unat n) True, b', ex')"
      "\<And>w. book_after FastOrderIdHash buffer_emplace_back b0 ?ex ?cs (length ?cs) w \<Longrightarrow> book_result w = ?r"
    using book [of FastOrderIdHash] by blast
  obtain b1 ex1 where h: "replay hash buffer_emplace_back b0 ?cs ?ex = Some (replicate (2 * unat n) True, b1, ex1)"
      "\<And>w. book_after hash buffer_emplace_back b0 ?ex ?cs (length ?cs) w \<Longrightarrow> book_result w = ?r"
    using book [of hash] f(1) by (metis option.inject)
  have "delivers (pipeline_full_match ks vs n) (length ?cs) ?r"
    unfolding pipeline_full_match_def Let_def f(1) bind.bind_lunit commands_size_def
    by (rule single_delivers [OF item_at_makes order_handles [OF f(2)] _ _ refl book_start f(3)])
      (use small in \<open>simp_all add: len\<close>)
  moreover have "delivers (pipeline_index_queue ks vs n) (length (indices ?cs)) ?r"
    unfolding pipeline_index_queue_def Let_def f(1) bind.bind_lunit commands_size_def
    by (rule single_delivers [OF item_index_makes [OF len32, folded length_indices [of ?cs]]
          order_at_handles [OF f(2) len32] _ _ _ book_start f(3)])
      (use small in \<open>simp_all add: len\<close>)
  moreover have "delivers (pipeline_batch_pop B hash ks vs n) (length ?cs) ?r"
    unfolding pipeline_batch_pop_def Let_def f(1) bind.bind_lunit commands_size_def
    by (rule batch_pop_delivers [OF item_at_makes order_handles [OF h(1)] assms(2) _ _ refl book_start h(2)])
      (use small in \<open>simp_all add: len\<close>)
  moreover have "delivers (pipeline_batch_push_pop B hash ks vs n) (length ?cs) ?r"
    unfolding pipeline_batch_push_pop_def Let_def f(1) bind.bind_lunit
    by (rule batch_push_pop_delivers [OF order_handles [OF h(1)] assms(2) _ book_start h(2)])
      (use small in \<open>simp_all add: len\<close>)
  moreover have "delivers (pipeline_batch_pop_pinned aff B hash ks vs n) (length ?cs) (aff {4} = 0, aff {6} = 0, ?r)"
    unfolding pipeline_batch_pop_pinned_def Let_def f(1) bind.bind_lunit commands_size_def
    by (rule batch_pop_delivers [OF item_at_makes order_handles [OF h(1)] assms(2) _ _ refl book_start])
      (use small h(2) in \<open>simp_all add: len pin_current_thread_to_cpu_def\<close>)
  ultimately show ?thesis by (simp only: len length_indices)
qed

theorem full_match_pipelines_witness:
  "pipeline_index_queue (\<lambda>_. 3) (\<lambda>_. 4) 1000 (Consumer 5 # Main # concat (replicate 2000 [Producer 0, Consumer 0])) =
    Some (Some (replicate 2000 True, True, 1000))"
  using full_match_pipelines [of 1000 32] alternating_turns [of 2000] by (simp add: delivers_def)

text \<open>C27: the add-only pipeline, for up to \<open>2^20\<close> commands, accepts every command and reports no
  execution under every schedule, however stale the loads, and the book is empty only if there
  was no command; enough turns with fresh loads finish it.\<close>

theorem add_only_pipeline:
  assumes "unat n \<le> 2 ^ 20"
  shows "delivers (pipeline_add_only ks vs n) (unat n) (replicate (unat n) True, n = 0, 0)"
proof -
  let ?cs = "make_add_only_commands n" and ?ex = "buffer_reserve buffer_new n"
  have len: "length ?cs = unat n" by simp
  have ids: "\<forall>c \<in> set ?cs. cmd_order_id c \<noteq> 0" using add_only_ok(1) by (auto simp: command_ok_def)
  obtain bk where spec: "spec_replay (spec_new queue_capacity 8000 12000) ?cs = (replicate (unat n) True, bk, [])"
      "book_ids bk = cmd_order_id ` set ?cs"
    using resting_workloads [of ?cs n queue_capacity 8000 12000] assms
    by (auto simp: word_le_nat_alt queue_capacity_def)
  have "length ([] :: Execution list) \<le> unat n" by simp
  obtain b0 b' ex' where r: "fixed_clob_new ks vs queue_capacity 8000 12000 = Some b0"
      "replay FastOrderIdHash buffer_emplace_back b0 ?cs ?ex = Some (replicate (unat n) True, b', ex')"
      "clob_empty b' \<longleftrightarrow> book_ids bk = {}" "unat (buffer_size ex') = length ([] :: Execution list)"
    by (rule driver_book [OF ids spec(1) \<open>length ([] :: Execution list) \<le> unat n\<close>, of ks vs FastOrderIdHash]) (rule that)
  have "book_ids bk = {} \<longleftrightarrow> n = 0" using spec(2) len by (metis image_is_empty length_0_conv set_empty unat_eq_zero)
  then have fin: "(clob_empty b', buffer_size ex') = (n = 0, 0)" using r(3,4) by (simp add: unat_eq_zero)
  have "delivers (pipeline_add_only ks vs n) (length ?cs) (replicate (unat n) True, n = 0, 0)"
    unfolding pipeline_add_only_def Let_def r(1) bind.bind_lunit commands_size_def
    by (rule single_delivers [OF item_at_makes order_handles [OF r(2)] _ _ refl book_start])
      (use assms book_result_after [OF r(2)] fin in \<open>simp_all add: len\<close>)
  then show ?thesis by (simp only: len)
qed

theorem add_only_pipeline_witness:
  "pipeline_add_only (\<lambda>_. 3) (\<lambda>_. 4) 1000 (Consumer 5 # Main # concat (replicate 1000 [Producer 0, Consumer 0])) =
    Some (Some (replicate 1000 True, False, 0))"
  using add_only_pipeline [of 1000] alternating_turns [of 1000] by (simp add: delivers_def)

end
