(* ===== verification/Latency_Stats.thy ===== *)
theory Latency_Stats
  imports Prelude Complex_Main "HOL-Library.Multiset"
begin

text \<open>
  \<open>latency_stats.hpp\<close>: latency samples with percentiles read off a sorted copy that is
  rebuilt only when samples were added. The rank is computed in double precision: a
  double is a rational here, and each operation rounds its exact result by \<open>rnd\<close>. What
  the proofs use of the rounding is the locale \<open>rounding\<close>: it is monotone and leaves
  integers up to \<open>2^53\<close> alone. \<open>round_double\<close> is IEEE rounding to nearest, ties to even,
  with 53 significant bits (exponents are unbounded: no value here overflows). The
  stream output of \<open>print\<close> is not modelled; the numbers it prints are.
\<close>

record LatencyStats =
  samples :: "64 word list"
  sorted_samples :: "64 word list"
  sorted_dirty :: bool

definition stats_new :: LatencyStats where
  "stats_new = \<lparr>samples = [], sorted_samples = [], sorted_dirty = True\<rparr>"

text \<open>\<open>reserve\<close> only changes the capacity of the vector.\<close>

definition stats_reserve :: "LatencyStats \<Rightarrow> size_t \<Rightarrow> LatencyStats" where
  "stats_reserve st n = st"

definition stats_add :: "LatencyStats \<Rightarrow> 64 word \<Rightarrow> LatencyStats" where
  "stats_add st ns = st\<lparr>samples := samples st @ [ns], sorted_dirty := True\<rparr>"

definition stats_size :: "LatencyStats \<Rightarrow> size_t" where
  "stats_size st = word_of_nat (length (samples st))"

definition stats_empty :: "LatencyStats \<Rightarrow> bool" where
  "stats_empty st \<longleftrightarrow> samples st = []"

definition ensure_sorted :: "LatencyStats \<Rightarrow> LatencyStats" where
  "ensure_sorted st =
     (if \<not> sorted_dirty st \<and> length (sorted_samples st) = length (samples st) then st
      else st\<lparr>sorted_samples := sort (samples st), sorted_dirty := False\<rparr>)"

text \<open>\<open>static_cast<std::size_t>\<close> of a double truncates; out of range it is undefined.\<close>

definition double_to_size :: "rat \<Rightarrow> size_t option" where
  "double_to_size x = (if - 1 < x \<and> x < 2 ^ 64 then Some (word_of_nat (nat \<lfloor>x\<rfloor>)) else None)"

definition percentile_sorted :: "(rat \<Rightarrow> rat) \<Rightarrow> 64 word list \<Rightarrow> rat \<Rightarrow> 64 word option" where
  "percentile_sorted rnd xs p =
     (if xs = [] then Some 0
      else do {
        let n = (word_of_nat (length xs) :: size_t);
        let pos = rnd (p * rnd (rat_of_nat (unat (n - 1))));
        idx \<leftarrow> double_to_size pos;
        if idx \<ge> n - 1 then Some (last xs) else read_at xs (unat idx)
      })"

definition percentile :: "(rat \<Rightarrow> rat) \<Rightarrow> LatencyStats \<Rightarrow> rat \<Rightarrow> (64 word \<times> LatencyStats) option" where
  "percentile rnd st p =
     (if samples st = [] then Some (0, st)
      else do {
        let st = ensure_sorted st;
        x \<leftarrow> percentile_sorted rnd (sorted_samples st) p;
        Some (x, st)
      })"

text \<open>The numbers \<open>print\<close> shows: count, mean (as sum and count), minimum, percentiles, maximum.\<close>

record StatsReport =
  report_count :: size_t
  report_mean :: rat
  report_min :: "64 word"
  report_percentiles :: "64 word list"
  report_max :: "64 word"

definition stats_report :: "(rat \<Rightarrow> rat) \<Rightarrow> LatencyStats \<Rightarrow> (StatsReport option \<times> LatencyStats) option" where
  "stats_report rnd st =
     (if samples st = [] then Some (None, st)
      else do {
        let st = ensure_sorted st;
        let xs = sorted_samples st;
        let sum = sum_list xs;
        let mean = rnd (rnd (rat_of_nat (unat sum)) / rnd (rat_of_nat (length xs)));
        p50 \<leftarrow> percentile_sorted rnd xs (rnd (1 / 2));
        p90 \<leftarrow> percentile_sorted rnd xs (rnd (9 / 10));
        p99 \<leftarrow> percentile_sorted rnd xs (rnd (99 / 100));
        p999 \<leftarrow> percentile_sorted rnd xs (rnd (999 / 1000));
        Some (Some \<lparr>report_count = word_of_nat (length xs), report_mean = mean, report_min = hd xs,
          report_percentiles = [p50, p90, p99, p999], report_max = last xs\<rparr>, st)
      })"

subsection \<open>The sorted copy is never stale\<close>

definition stats_inv :: "LatencyStats \<Rightarrow> bool" where
  "stats_inv st \<longleftrightarrow> (\<not> sorted_dirty st \<longrightarrow> sorted_samples st = sort (samples st))"

lemma stats_inv_ops [simp]:
  "stats_inv stats_new" "stats_inv (stats_add st ns)" "stats_inv st \<Longrightarrow> stats_inv (ensure_sorted st)"
  by (simp_all add: stats_inv_def stats_new_def stats_add_def ensure_sorted_def)

lemma ensure_sorted_sorts:
  "stats_inv st \<Longrightarrow> sorted_samples (ensure_sorted st) = sort (samples st)"
  "samples (ensure_sorted st) = samples st"
  by (simp_all add: stats_inv_def ensure_sorted_def)

subsection \<open>Percentiles\<close>

locale rounding =
  fixes rnd :: "rat \<Rightarrow> rat"
  assumes rnd_mono: "x \<le> y \<Longrightarrow> rnd x \<le> rnd y"
    and rnd_int: "n \<le> 2 ^ 53 \<Longrightarrow> rnd (rat_of_nat n) = rat_of_nat n"
begin

text \<open>The rank used for a list of \<open>n + 1\<close> samples.\<close>

definition rank :: "nat \<Rightarrow> rat \<Rightarrow> nat" where
  "rank n p = min n (nat \<lfloor>rnd (p * rat_of_nat n)\<rfloor>)"

lemma rnd_unit:
  assumes "n \<le> 2 ^ 53" and "0 \<le> p" "p \<le> 1"
  shows "0 \<le> rnd (p * rat_of_nat n)" and "rnd (p * rat_of_nat n) \<le> rat_of_nat n"
proof -
  have "rnd (rat_of_nat 0) \<le> rnd (p * rat_of_nat n)" using assms by (intro rnd_mono) simp
  then show "0 \<le> rnd (p * rat_of_nat n)" using rnd_int [of 0] by simp
  have "p * rat_of_nat n \<le> 1 * rat_of_nat n" using assms(3) by (intro mult_right_mono) simp_all
  then show "rnd (p * rat_of_nat n) \<le> rat_of_nat n" using rnd_mono rnd_int [OF assms(1)] by fastforce
qed

lemma percentile_sorted_rank:
  assumes "xs \<noteq> []" and len: "length xs \<le> 2 ^ 53" and p: "0 \<le> p" "p \<le> 1"
  shows "percentile_sorted rnd xs p = Some (xs ! rank (length xs - 1) p)"
proof -
  let ?n = "length xs - 1" and ?w = "word_of_nat (length xs) :: size_t"
  have pos: "0 < length xs" using assms(1) by simp
  have w: "unat ?w = length xs" using len by (intro unat_of_nat_less) simp
  then have w1: "unat (?w - 1) = ?n" using pos by (subst unat_dec) (auto simp flip: unat_0_iff)
  have n: "?n \<le> 2 ^ 53" using len by simp
  let ?x = "rnd (p * rat_of_nat ?n)"
  have x: "0 \<le> ?x" "?x \<le> rat_of_nat ?n" using rnd_unit [OF n p] by simp_all
  have "rat_of_nat ?n \<le> rat_of_nat (2 ^ 53)" using n by (simp only: of_nat_le_iff)
  then have lt: "?x < 2 ^ 64" using x(2) by simp
  have fl: "nat \<lfloor>?x\<rfloor> \<le> ?n" using x(2) by (simp add: floor_le_iff nat_le_iff)
  have idx: "unat (word_of_nat (nat \<lfloor>?x\<rfloor>) :: size_t) = nat \<lfloor>?x\<rfloor>"
    using fl n by (intro unat_of_nat_less) simp
  have dts: "double_to_size ?x = Some (word_of_nat (nat \<lfloor>?x\<rfloor>))"
    using x(1) lt by (simp add: double_to_size_def)
  have ge: "?w - 1 \<le> word_of_nat (nat \<lfloor>?x\<rfloor>) \<longleftrightarrow> nat \<lfloor>?x\<rfloor> = ?n"
    using fl idx w1 by (auto simp: word_le_nat_alt)
  let ?i = "nat \<lfloor>?x\<rfloor>"
  have "percentile_sorted rnd xs p =
      (if ?w - 1 \<le> word_of_nat ?i then Some (last xs) else read_at xs (unat (word_of_nat ?i :: size_t)))"
    unfolding percentile_sorted_def Let_def w1 rnd_int [OF n] dts using assms(1) by simp
  also have "\<dots> = (if ?i = ?n then Some (xs ! ?n) else read_at xs ?i)"
    unfolding ge idx using assms(1) by (simp add: last_conv_nth)
  also have "\<dots> = Some (xs ! ?i)" 
  proof -
    have "?i < length xs" using fl pos by linarith
    then show ?thesis by (simp only: read_at_def if_True) simp
  qed
  finally show ?thesis using fl by (simp only: rank_def min.absorb2)
qed

lemma rank_mono: "p \<le> p' \<Longrightarrow> rank n p \<le> rank n p'"
  unfolding rank_def by (intro min.mono order_refl nat_mono floor_mono rnd_mono mult_right_mono) simp_all

lemma rank_ends: "n \<le> 2 ^ 53 \<Longrightarrow> rank n 0 = 0" "n \<le> 2 ^ 53 \<Longrightarrow> rank n 1 = n"
  using rnd_int [of 0] rnd_int [of n] by (simp_all add: rank_def)

lemma rank_le [simp]: "rank n p \<le> n"
  by (simp add: rank_def)

lemma percentile_run:
  assumes "stats_inv st" and "samples st \<noteq> []" and "length (samples st) \<le> 2 ^ 53" and "0 \<le> p" "p \<le> 1"
  shows "percentile rnd st p =
    Some (sort (samples st) ! rank (length (samples st) - 1) p, ensure_sorted st)"
proof -
  have "sort (samples st) \<noteq> []" using assms(2) by (metis length_sort length_0_conv)
  then show ?thesis
  using assms percentile_sorted_rank [of "sort (samples st)" p] ensure_sorted_sorts(1) [OF assms(1)]
    ensure_sorted_sorts(2)
  by (simp add: percentile_def Let_def)
qed

lemma percentile_mono:
  assumes "xs \<noteq> []" and "length xs \<le> 2 ^ 53" and "sorted xs" and "0 \<le> p" "p \<le> p'" "p' \<le> 1"
  shows "xs ! rank (length xs - 1) p \<le> xs ! rank (length xs - 1) p'"
proof -
  have "rank (length xs - 1) p' < length xs"
    using assms(1) rank_le [of "length xs - 1" p'] by (cases xs) (auto simp: less_Suc_eq_le simp del: rank_le)
  then show ?thesis using assms(3,5) rank_mono by (intro sorted_nth_mono) auto
qed

end

subsection \<open>IEEE rounding to nearest\<close>

function halvings :: "rat \<Rightarrow> nat" where
  "halvings x = (if x < 2 then 0 else Suc (halvings (x / 2)))"
  by auto
termination
proof (relation "measure (\<lambda>x. nat \<lfloor>x\<rfloor>)", simp)
  fix x :: rat
  assume "\<not> x < 2"
  then have "\<lfloor>x / 2\<rfloor> < \<lfloor>x\<rfloor>" "0 < \<lfloor>x\<rfloor>" by linarith+
  then show "(x / 2, x) \<in> measure (\<lambda>x. nat \<lfloor>x\<rfloor>)" by simp
qed

function doublings :: "rat \<Rightarrow> nat" where
  "doublings x = (if 1 \<le> x \<or> x \<le> 0 then 0 else Suc (doublings (2 * x)))"
  by auto
termination
proof (relation "measure (\<lambda>x. nat \<lceil>1 / x\<rceil>)", simp)
  fix x :: rat
  assume "\<not> (1 \<le> x \<or> x \<le> 0)"
  then have "1 < 1 / x" and "1 / (2 * x) = (1 / x) / 2" by (simp_all add: field_simps)
  moreover have "\<lceil>y / 2\<rceil> < \<lceil>y\<rceil> \<and> 0 < \<lceil>y\<rceil>" if y: "1 < y" for y :: rat
  proof (cases "y \<le> 2")
    case True
    then have "\<lceil>y / 2\<rceil> \<le> 1" by (simp add: ceiling_le_iff)
    moreover have "1 < \<lceil>y\<rceil>" using y by (simp add: less_ceiling_iff)
    ultimately show ?thesis by linarith
  next
    case False
    then have "\<lceil>y / 2\<rceil> \<le> \<lceil>y - 1\<rceil>" by (intro ceiling_mono) simp
    moreover have "1 < \<lceil>y\<rceil>" using y by (simp add: less_ceiling_iff)
    ultimately show ?thesis by simp
  qed
  ultimately have "\<lceil>1 / (2 * x)\<rceil> < \<lceil>1 / x\<rceil> \<and> 0 < \<lceil>1 / x\<rceil>" by metis
  then show "(2 * x, x) \<in> measure (\<lambda>x. nat \<lceil>1 / x\<rceil>)" by simp
qed

declare halvings.simps [simp del] doublings.simps [simp del]

text \<open>The binary exponent of a positive number: \<open>2^e \<le> x < 2^(e + 1)\<close>.\<close>

definition exponent :: "rat \<Rightarrow> int" where
  "exponent x = (if 1 \<le> x then int (halvings x) else - int (doublings x))"

definition round_even :: "rat \<Rightarrow> int" where
  "round_even m = (let f = \<lfloor>m\<rfloor>; d = m - of_int f in
     if d < 1 / 2 \<or> (d = 1 / 2 \<and> even f) then f else f + 1)"

definition round_double :: "rat \<Rightarrow> rat" where
  "round_double x =
     (if x = 0 then 0
      else let u = 2 powi (exponent \<bar>x\<bar> - 52) in
        sgn x * of_int (round_even (\<bar>x\<bar> / u)) * u)"

lemma halvings_bound: "1 \<le> x \<Longrightarrow> 2 ^ halvings x \<le> x \<and> x < 2 ^ Suc (halvings x)"
proof (induction x rule: halvings.induct)
  case (1 x)
  then show ?case by (cases "x < 2") (auto simp: halvings.simps [of x])
qed

lemma doublings_bound: "0 < x \<Longrightarrow> x < 1 \<Longrightarrow> 1 \<le> x * 2 ^ doublings x \<and> x * 2 ^ doublings x < 2"
proof (induction x rule: doublings.induct)
  case (1 x)
  have d: "doublings x = Suc (doublings (2 * x))" using 1(2,3) by (simp add: doublings.simps [of x])
  show ?case
  proof (cases "2 * x < 1")
    case True
    then show ?thesis using 1 by (simp add: d mult.assoc)
  next
    case False
    then have "doublings (2 * x) = 0" by (simp add: doublings.simps [of "2 * x"])
    then show ?thesis using False 1(3) by (simp add: d)
  qed
qed

lemma exponent_bound:
  assumes "0 < x"
  shows "2 powi exponent x \<le> x" and "x < 2 powi (exponent x + 1)"
proof -
  have "2 powi exponent x \<le> x \<and> x < 2 powi (exponent x + 1)"
  proof (cases "1 \<le> x")
    case True
    then show ?thesis
      using halvings_bound [OF True] by (simp add: exponent_def power_int_add)
  next
    case False
    then have b: "1 \<le> x * 2 ^ doublings x" "x * 2 ^ doublings x < 2" using doublings_bound assms by auto
    then show ?thesis
      using False by (simp add: exponent_def power_int_minus power_int_add power_int_diff field_simps)
  qed
  then show "2 powi exponent x \<le> x" and "x < 2 powi (exponent x + 1)" by blast+
qed

lemma exponent_mono:
  assumes "0 < x" and "x \<le> y"
  shows "exponent x \<le> exponent y"
proof (rule ccontr)
  assume "\<not> exponent x \<le> exponent y"
  then have "(2 :: rat) powi (exponent y + 1) \<le> 2 powi exponent x"
    by (intro power_int_increasing) simp_all
  then show False using exponent_bound [OF assms(1)] exponent_bound [of y] assms by linarith
qed

lemma round_even_mono:
  assumes "x \<le> y"
  shows "round_even x \<le> round_even y"
proof (cases "\<lfloor>x\<rfloor> = \<lfloor>y\<rfloor>")
  case True
  then show ?thesis using assms by (auto simp: round_even_def Let_def)
next
  case False
  then have "\<lfloor>x\<rfloor> + 1 \<le> \<lfloor>y\<rfloor>" using floor_mono [OF assms] by simp
  moreover have "round_even x \<le> \<lfloor>x\<rfloor> + 1" "\<lfloor>y\<rfloor> \<le> round_even y" by (simp_all add: round_even_def Let_def)
  ultimately show ?thesis by linarith
qed

lemma round_even_int [simp]: "round_even (of_int n) = n"
  by (simp add: round_even_def)

text \<open>The significand of \<open>x\<close> has 53 bits before rounding, and at most one more after.\<close>

lemma significand_bound:
  assumes "0 < x"
  defines "m \<equiv> x / 2 powi (exponent x - 52)"
  shows "2 ^ 52 \<le> round_even m" and "round_even m \<le> 2 ^ 53"
proof -
  have u: "(0 :: rat) < 2 powi (exponent x - 52)" by simp
  have e: "(2 :: rat) powi exponent x = 2 ^ 52 * 2 powi (exponent x - 52)"
    "(2 :: rat) powi (exponent x + 1) = 2 ^ 53 * 2 powi (exponent x - 52)"
  proof -
    have "(2 :: rat) powi (exponent x + 1) = 2 powi (53 + (exponent x - 52))" by (rule arg_cong) simp
    also have "\<dots> = 2 powi 53 * 2 powi (exponent x - 52)" by (rule power_int_add) simp
    finally show "(2 :: rat) powi (exponent x + 1) = 2 ^ 53 * 2 powi (exponent x - 52)" by simp
    have "(2 :: rat) powi exponent x = 2 powi (52 + (exponent x - 52))" by (rule arg_cong) simp
    also have "\<dots> = 2 powi 52 * 2 powi (exponent x - 52)" by (rule power_int_add) simp
    finally show "(2 :: rat) powi exponent x = 2 ^ 52 * 2 powi (exponent x - 52)" by simp
  qed
  have "of_int (2 ^ 52) \<le> m" "m \<le> of_int (2 ^ 53)"
    using exponent_bound [OF assms(1)] u unfolding e m_def by (simp_all add: field_simps)
  then show "2 ^ 52 \<le> round_even m" and "round_even m \<le> 2 ^ 53"
    using round_even_mono [of "of_int (2 ^ 52)" m] round_even_mono [of m "of_int (2 ^ 53)"]
    unfolding round_even_int by blast+
qed

lemma round_double_pos:
  "0 < x \<Longrightarrow> round_double x = of_int (round_even (x / 2 powi (exponent x - 52))) * 2 powi (exponent x - 52)"
  by (simp add: round_double_def Let_def)

lemma round_double_mono_pos:
  assumes "0 < x" and "x \<le> y"
  shows "round_double x \<le> round_double y"
proof -
  let ?ux = "(2 :: rat) powi (exponent x - 52)" and ?uy = "(2 :: rat) powi (exponent y - 52)"
  have y: "0 < y" using assms by simp
  note rx = round_double_pos [OF assms(1)] and ry = round_double_pos [OF y]
  show ?thesis
  proof (cases "exponent x = exponent y")
    case True
    have "x / ?ux \<le> y / ?ux" using assms(2) by (simp add: divide_right_mono)
    then have "(of_int (round_even (x / ?ux)) :: rat) \<le> of_int (round_even (y / ?ux))"
      using round_even_mono by (simp only: of_int_le_iff)
    then show ?thesis unfolding rx ry True [symmetric] by (simp add: mult_right_mono)
  next
    case False
    then have "exponent x + 1 \<le> exponent y" using exponent_mono [OF assms] by simp
    then have le: "2 * ?ux \<le> ?uy"
      using power_int_increasing [of "exponent x - 51" "exponent y - 52" "2 :: rat"]
        power_int_add [of "2 :: rat" 1 "exponent x - 52"] by simp
    have "(of_int (round_even (x / ?ux)) :: rat) \<le> of_int (2 ^ 53)"
      "(of_int (2 ^ 52) :: rat) \<le> of_int (round_even (y / ?uy))"
      using significand_bound [OF assms(1)] significand_bound [OF y] by (simp_all only: of_int_le_iff)
    then have "of_int (round_even (x / ?ux)) * ?ux \<le> of_int (2 ^ 53) * ?ux"
      "of_int (2 ^ 52) * ?uy \<le> of_int (round_even (y / ?uy)) * ?uy"
      by (simp_all only: mult_right_mono zero_le_power_int zero_le_numeral)
    moreover have "of_int (2 ^ 53) * ?ux \<le> of_int (2 ^ 52) * ?uy" using le by simp
    ultimately show ?thesis unfolding rx ry by (blast intro: order_trans)
  qed
qed

lemma round_double_sign:
  "0 \<le> x \<Longrightarrow> 0 \<le> round_double x" "x \<le> 0 \<Longrightarrow> round_double x \<le> 0" "round_double (- x) = - round_double x"
proof -
  have pos: "0 \<le> round_double x" if "0 \<le> x" for x
    using that significand_bound(1) [of x] by (cases "x = 0") (auto simp: round_double_pos, simp add: round_double_def)
  have neg: "round_double (- x) = - round_double x" for x by (simp add: round_double_def Let_def)
  show "0 \<le> x \<Longrightarrow> 0 \<le> round_double x" by (rule pos)
  show "round_double (- x) = - round_double x" by (rule neg)
  show "x \<le> 0 \<Longrightarrow> round_double x \<le> 0" using pos [of "- x"] neg [of x] by simp
qed

lemma round_double_mono:
  assumes "x \<le> y"
  shows "round_double x \<le> round_double y"
proof -
  consider "0 < x" | "x \<le> 0" "0 \<le> y" | "y < 0" using assms by linarith
  then show ?thesis
  proof cases
    case 1
    then show ?thesis using round_double_mono_pos assms by blast
  next
    case 2
    then show ?thesis using round_double_sign(1,2) order_trans by blast
  next
    case 3
    then have "round_double (- y) \<le> round_double (- x)" using assms by (intro round_double_mono_pos) simp_all
    then show ?thesis by (simp add: round_double_sign(3))
  qed
qed

lemma round_double_int:
  assumes "n \<le> 2 ^ 53"
  shows "round_double (rat_of_nat n) = rat_of_nat n"
proof (cases "n = 0")
  case True
  then show ?thesis by (simp add: round_double_def)
next
  case False
  let ?x = "rat_of_nat n"
  have x: "0 < ?x" using False by simp
  show ?thesis
  proof (cases "exponent ?x \<le> 52")
    case True
    have "?x / 2 powi (exponent ?x - 52) = ?x * 2 powi (52 - exponent ?x)"
      using power_int_minus [of "2 :: rat" "52 - exponent ?x"] by (simp add: divide_inverse)
    also have "\<dots> = of_int (int n * 2 ^ nat (52 - exponent ?x))"
      using True by (simp add: power_int_def)
    finally have "of_int (round_even (?x / 2 powi (exponent ?x - 52))) = ?x / 2 powi (exponent ?x - 52)"
      by (simp only: round_even_int)
    then show ?thesis using x by (simp add: round_double_pos)
  next
    case False
    have "(2 :: rat) powi 53 \<le> 2 powi exponent ?x" using False by (intro power_int_increasing) simp_all
    then have "2 ^ 53 \<le> ?x" using exponent_bound(1) [OF x] by simp
    then have "rat_of_nat (2 ^ 53) \<le> rat_of_nat n" by simp
    then have n: "n = 2 ^ 53" using assms by (simp only: of_nat_le_iff le_antisym)
    have "exponent ?x = 53"
    proof (rule antisym)
      show "53 \<le> exponent ?x" using False by simp
      show "exponent ?x \<le> 53"
      proof (rule ccontr)
        assume "\<not> exponent ?x \<le> 53"
        then have "(2 :: rat) powi 54 \<le> 2 powi exponent ?x" by (intro power_int_increasing) simp_all
        then show False using exponent_bound(1) [OF x] n by simp
      qed
    qed
    then have "?x / 2 powi (exponent ?x - 52) = of_int (2 ^ 52)" by (simp add: n)
    then have "of_int (round_even (?x / 2 powi (exponent ?x - 52))) = ?x / 2 powi (exponent ?x - 52)"
      by (simp only: round_even_int)
    then show ?thesis using x by (simp add: round_double_pos)
  qed
qed

interpretation ieee: rounding round_double
  by unfold_locales (simp_all add: round_double_mono round_double_int)

subsection \<open>What the statistics promise\<close>

text \<open>C39: a percentile is an order statistic. For \<open>p\<close> between 0 and 1 it is the sample of rank
  \<open>\<lfloor>p (n - 1)\<rfloor>\<close> in sorted order, the product rounded to a double; the samples are unchanged
  and the sorted copy is then up to date.\<close>

theorem percentile_order_statistic:
  assumes "stats_inv st" and "samples st \<noteq> []" and "length (samples st) \<le> 2 ^ 53" and "0 \<le> p" and "p \<le> 1"
  defines "k \<equiv> nat \<lfloor>round_double (p * rat_of_nat (length (samples st) - 1))\<rfloor>"
  shows "\<exists>st'. percentile round_double st p = Some (sort (samples st) ! k, st') \<and> k < length (samples st) \<and>
    samples st' = samples st \<and> sorted_samples st' = sort (samples st) \<and> stats_inv st'"
proof -
  let ?n = "length (samples st) - 1"
  have n: "?n \<le> 2 ^ 53" "0 < length (samples st)" using assms(2,3) by (cases "samples st"; simp)+
  have "round_double (p * rat_of_nat ?n) \<le> rat_of_nat ?n" by (rule ieee.rnd_unit(2) [OF n(1) assms(4,5)])
  then have "k \<le> ?n" unfolding k_def by (metis floor_mono floor_of_nat nat_int nat_mono)
  moreover from this have "k < length (samples st)" using n(2) by linarith
  moreover have "ieee.rank ?n p = k" using \<open>k \<le> ?n\<close> by (simp add: ieee.rank_def k_def)
  ultimately show ?thesis
    using ieee.percentile_run [OF assms(1-5)] ensure_sorted_sorts(1) [OF assms(1)] ensure_sorted_sorts(2) [of st] assms(1)
    by simp
qed

theorem percentile_order_statistic_witness:
  "\<exists>st'. percentile round_double (stats_add (stats_add (stats_add stats_new 30) 10) 20) (1 / 2) = Some (20, st')"
proof -
  have h: "round_double (1 / 2 * rat_of_nat 2) = 1" using round_double_int [of 1] by simp
  have srt: "sort [30, 10, 20 :: 64 word] = [10, 20, 30]" by code_simp
  let ?st = "stats_add (stats_add (stats_add stats_new 30) 10) 20"
  have st: "stats_inv ?st" "samples ?st = [30, 10, 20]" by simp_all (simp add: stats_add_def stats_new_def)
  from percentile_order_statistic [OF st(1), of "1 / 2"] show ?thesis
    by (simp add: st(2) srt h [simplified]) blast
qed

lemma sorted_ends:
  assumes "xs \<noteq> []" and "sorted (xs :: 64 word list)"
  shows "xs ! 0 = Min (set xs)" and "xs ! (length xs - 1) = Max (set xs)"
proof -
  have len: "0 < length xs" using assms(1) by simp
  show "xs ! 0 = Min (set xs)"
    using assms(2) len by (intro Min_eqI [symmetric]) (auto simp: in_set_conv_nth intro: sorted_nth_mono)
  show "xs ! (length xs - 1) = Max (set xs)"
    using assms(2) len by (intro Max_eqI [symmetric]) (auto simp: in_set_conv_nth intro: sorted_nth_mono exI [of _ "length xs - 1"])
qed

text \<open>Percentiles are monotone in \<open>p\<close>; the 0th is the smallest sample and the 100th the
  largest.\<close>

theorem percentiles_ordered:
  assumes "stats_inv st" and "samples st \<noteq> []" and "length (samples st) \<le> 2 ^ 53" and "0 \<le> p" "p \<le> p'" "p' \<le> 1"
  shows "\<exists>x x' st1 st2. percentile round_double st p = Some (x, st1) \<and> percentile round_double st1 p' = Some (x', st2) \<and>
    x \<le> x' \<and> x \<in> set (samples st) \<and> (p = 0 \<longrightarrow> x = Min (set (samples st))) \<and> (p' = 1 \<longrightarrow> x' = Max (set (samples st)))"
proof -
  let ?xs = "sort (samples st)" and ?n = "length (samples st) - 1" and ?st = "ensure_sorted st"
  have st: "stats_inv ?st" "samples ?st = samples st" "ensure_sorted ?st = ?st"
    using assms(1) by (simp_all add: ensure_sorted_sorts(2)) (simp add: ensure_sorted_def)
  have p: "p \<le> 1" "0 \<le> p'" using assms(4-6) by simp_all
  have 1: "percentile round_double st p = Some (?xs ! ieee.rank ?n p, ?st)"
    by (rule ieee.percentile_run [OF assms(1-4) p(1)])
  have 2: "percentile round_double ?st p' = Some (?xs ! ieee.rank ?n p', ?st)"
    using ieee.percentile_run [OF st(1) _ _ p(2) assms(6)] assms(2,3) st(2,3) by simp
  have xs: "?xs \<noteq> []" "length ?xs \<le> 2 ^ 53" "sorted ?xs" using assms(2,3) by (simp_all flip: length_greater_0_conv)
  have le: "?xs ! ieee.rank ?n p \<le> ?xs ! ieee.rank ?n p'"
    using ieee.percentile_mono [OF xs assms(4-6)] by simp
  have len: "0 < length (samples st)" using assms(2) by simp
  have "ieee.rank ?n p < length ?xs" using ieee.rank_le [of ?n p] len unfolding length_sort by linarith
  then have mem: "?xs ! ieee.rank ?n p \<in> set (samples st)" by (metis nth_mem set_sort)
  have n: "?n \<le> 2 ^ 53" using assms(3) by simp
  have Min: "?xs ! 0 = Min (set (samples st))" and Max: "?xs ! ?n = Max (set (samples st))"
    using sorted_ends [OF xs(1,3)] by simp_all
  show ?thesis
    using 1 2 le mem Min Max ieee.rank_ends [OF n] by (intro exI conjI) auto
qed

theorem percentiles_ordered_witness:
  "\<exists>x x' st1 st2. percentile round_double (stats_add (stats_add (stats_add stats_new 30) 10) 20) 0 = Some (x, st1) \<and>
    percentile round_double st1 1 = Some (x', st2) \<and> x = 10 \<and> x' = 30"
proof -
  let ?st = "stats_add (stats_add (stats_add stats_new 30) 10) 20"
  have st: "stats_inv ?st" "samples ?st = [30, 10, 20]" by simp_all (simp add: stats_add_def stats_new_def)
  have "Min (set [30, 10, 20 :: 64 word]) = 10" "Max (set [30, 10, 20 :: 64 word]) = 30" by code_simp+
  then show ?thesis using percentiles_ordered [OF st(1), of 0 1] by (simp only: st(2)) fastforce
qed

text \<open>Recording and querying in any order.\<close>

datatype stats_op = Add "64 word" | Percentile rat

fun stats_run :: "(rat \<Rightarrow> rat) \<Rightarrow> LatencyStats \<Rightarrow> stats_op list \<Rightarrow> (64 word list \<times> LatencyStats) option" where
  "stats_run rnd st [] = Some ([], st)"
| "stats_run rnd st (Add ns # ops) = stats_run rnd (stats_add st ns) ops"
| "stats_run rnd st (Percentile p # ops) = do {
     (x, st) \<leftarrow> percentile rnd st p;
     (xs, st) \<leftarrow> stats_run rnd st ops;
     Some (x # xs, st)
   }"

text \<open>The same without the cached copy: every query sorts the samples recorded so far.\<close>

fun stats_spec :: "(rat \<Rightarrow> rat) \<Rightarrow> 64 word list \<Rightarrow> stats_op list \<Rightarrow> 64 word list option" where
  "stats_spec rnd xs [] = Some []"
| "stats_spec rnd xs (Add ns # ops) = stats_spec rnd (xs @ [ns]) ops"
| "stats_spec rnd xs (Percentile p # ops) = do {
     x \<leftarrow> percentile_sorted rnd (sort xs) p;
     ys \<leftarrow> stats_spec rnd xs ops;
     Some (x # ys)
   }"

lemma fst_cons_run:
  "map_option fst (do { (ys, s) \<leftarrow> m; Some (x # ys, s) }) = do { ys \<leftarrow> map_option fst m; Some (x # ys) }"
  by (cases m) auto

lemma stats_run_spec:
  "stats_inv st \<Longrightarrow> map_option fst (stats_run rnd st ops) = stats_spec rnd (samples st) ops"
proof (induction ops arbitrary: st)
  case (Cons c ops)
  show ?case
  proof (cases c)
    case (Add ns)
    then show ?thesis using Cons.IH [of "stats_add st ns"] by (simp add: stats_add_def stats_inv_def)
  next
    case (Percentile p)
    show ?thesis
    proof (cases "samples st = []")
      case True
      then show ?thesis
        using Cons Percentile by (simp add: percentile_def percentile_sorted_def fst_cons_run)
    next
      case False
      have "stats_inv (ensure_sorted st)" using Cons.prems by simp
      note IH = Cons.IH [OF this]
      show ?thesis
      proof (cases "percentile_sorted rnd (sort (samples st)) p")
        case (Some x)
        then show ?thesis
          using IH False Percentile ensure_sorted_sorts(1) [OF Cons.prems] ensure_sorted_sorts(2) [of st]
          by (simp add: percentile_def Let_def fst_cons_run)
      qed (use False Percentile ensure_sorted_sorts(1) [OF Cons.prems] in \<open>simp add: percentile_def Let_def\<close>)
    qed
  qed
qed simp

text \<open>C40: the cached sorted copy is never stale: any sequence of recordings and queries on a new
  object answers as if each query sorted all samples recorded before it, for any rounding.\<close>

theorem stats_cache_invisible:
  "map_option fst (stats_run rnd stats_new ops) = stats_spec rnd [] ops"
proof -
  have "samples stats_new = []" by (simp add: stats_new_def)
  then show ?thesis using stats_run_spec [of stats_new rnd ops] by simp
qed

end
