(* ===== verification/Latency_Profile.thy ===== *)
theory Latency_Profile
  imports Pipeline_Runs Latency_Stats
begin

text \<open>
  \<open>profile_pipeline_latency.cpp\<close>: the pipeline with a time stamp on every command and three
  latency records per run. The clock is a parameter: \<open>clock k\<close> is what the \<open>k\<close>-th reading
  of the run returns, the readings of all threads counted together. \<open>std::exit\<close> is a flag:
  a run whose consumer has exited does nothing more and ends with that code. The printed
  table and the elapsed wall-clock time of the host are left out; \<open>print_result\<close> only prints.
\<close>

record TimedOrderCommand =
  timed_cmd :: OrderCommand
  sent_ns :: "64 word"

definition default_timed :: TimedOrderCommand where
  "default_timed = \<lparr>timed_cmd = default_command, sent_ns = 0\<rparr>"

record ProfileResult =
  res_capacity :: size_t
  elapsed_ms :: rat
  queue_p50_ns :: "64 word"
  queue_p99_ns :: "64 word"
  service_p50_ns :: "64 word"
  service_p99_ns :: "64 word"
  end_to_end_p99_ns :: "64 word"

record profile_work =
  readings :: nat
  prof_book :: FixedClob
  prof_sink :: ExecutionBuffer
  queue_latency :: LatencyStats
  service_latency :: LatencyStats
  end_to_end_latency :: LatencyStats
  exit_code :: "int option"

definition now_ns :: "(nat \<Rightarrow> 64 word) \<Rightarrow> profile_work \<Rightarrow> 64 word \<times> profile_work" where
  "now_ns clock w = (clock (readings w), w\<lparr>readings := Suc (readings w)\<rparr>)"

definition timed_item ::
    "(nat \<Rightarrow> 64 word) \<Rightarrow> OrderCommand list \<Rightarrow> size_t \<Rightarrow> profile_work \<Rightarrow> (TimedOrderCommand \<times> profile_work) option" where
  "timed_item clock commands i w = do {
     command \<leftarrow> read_at commands (unat i);
     let (t, w) = now_ns clock w;
     Some (\<lparr>timed_cmd = command, sent_ns = t\<rparr>, w)
   }"

definition handle_timed :: "(nat \<Rightarrow> 64 word) \<Rightarrow> TimedOrderCommand \<Rightarrow> profile_work \<Rightarrow> profile_work option" where
  "handle_timed clock timed w =
     (if exit_code w \<noteq> None then Some w
      else do {
        let (received_ns, w) = now_ns clock w;
        let w = w\<lparr>queue_latency := stats_add (queue_latency w) (received_ns - sent_ns timed)\<rparr>;
        (ok, b, ex) \<leftarrow> handle_command FastOrderIdHash buffer_emplace_back (prof_book w) (timed_cmd timed) (prof_sink w);
        let w = w\<lparr>prof_book := b, prof_sink := ex\<rparr>;
        if \<not> ok then Some (w\<lparr>exit_code := Some 1\<rparr>)
        else do {
          let (done_ns, w) = now_ns clock w;
          Some (w\<lparr>service_latency := stats_add (service_latency w) (done_ns - received_ns),
            end_to_end_latency := stats_add (end_to_end_latency w) (done_ns - sent_ns timed)\<rparr>)
        }
      })"

definition profile_start :: "FixedClob \<Rightarrow> ExecutionBuffer \<Rightarrow> size_t \<Rightarrow> profile_work" where
  "profile_start b executions n = \<lparr>readings = 0, prof_book = b, prof_sink = executions,
     queue_latency = stats_reserve stats_new n, service_latency = stats_reserve stats_new n,
     end_to_end_latency = stats_reserve stats_new n, exit_code = None\<rparr>"

text \<open>\<open>static_cast<double>(end_ns - start_ns) / 1e6\<close> and the percentiles at 0.5 and 0.99.\<close>

definition profile_result ::
    "(rat \<Rightarrow> rat) \<Rightarrow> size_t \<Rightarrow> 64 word \<Rightarrow> 64 word \<Rightarrow> profile_work \<Rightarrow> ProfileResult option" where
  "profile_result rnd cap start_ns end_ns w = do {
     (q50, queue_lat) \<leftarrow> percentile rnd (queue_latency w) (rnd (1 / 2));
     (q99, queue_lat) \<leftarrow> percentile rnd queue_lat (rnd (99 / 100));
     (s50, service_lat) \<leftarrow> percentile rnd (service_latency w) (rnd (1 / 2));
     (s99, service_lat) \<leftarrow> percentile rnd service_lat (rnd (99 / 100));
     (e99, end_lat) \<leftarrow> percentile rnd (end_to_end_latency w) (rnd (99 / 100));
     Some \<lparr>res_capacity = cap, elapsed_ms = rnd (rnd (rat_of_nat (unat (end_ns - start_ns))) / 1000000),
       queue_p50_ns = q50, queue_p99_ns = q99, service_p50_ns = s50, service_p99_ns = s99, end_to_end_p99_ns = e99\<rparr>
   }"

text \<open>The inner option is None while a thread still runs; \<open>Inl\<close> is a call of \<open>std::exit\<close>.\<close>

definition run_profile ::
    "(rat \<Rightarrow> rat) \<Rightarrow> (nat \<Rightarrow> 64 word) \<Rightarrow> (nat \<Rightarrow> OrderId) \<Rightarrow> (nat \<Rightarrow> OrderIndex) \<Rightarrow> size_t \<Rightarrow> OrderCommand list \<Rightarrow> size_t
     \<Rightarrow> thread list \<Rightarrow> (int + ProfileResult) option option" where
  "run_profile rnd clock ks vs cap commands expected_executions ts = do {
     let queue = ring_new default_timed cap;
     b \<leftarrow> fixed_clob_new ks vs (2 ^ 20) 8000 12000;
     let executions = buffer_reserve buffer_new expected_executions;
     let (start_ns, w) = now_ns clock (profile_start b executions (commands_size commands));
     p \<leftarrow> run_turns
       (producer_turn ring_push (timed_item clock commands) (commands_size commands))
       (consumer_turn ring_pop (handle_timed clock) (commands_size commands))
       False ts (pipe_init queue default_timed [] w);
     case exit_code (work p) of
       Some code \<Rightarrow> Some (Some (Inl code))
     | None \<Rightarrow> (case joined_work (commands_size commands) p of
         None \<Rightarrow> Some None
       | Some w \<Rightarrow> do {
           let (end_ns, w) = now_ns clock w;
           if buffer_size (prof_sink w) \<noteq> expected_executions then Some (Some (Inl 1))
           else if \<not> clob_empty (prof_book w) then Some (Some (Inl 1))
           else do {
             r \<leftarrow> profile_result rnd cap start_ns end_ns w;
             Some (Some (Inr r))
           }
         })
   }"

text \<open>\<open>main\<close> runs one profile per capacity; each has its own schedule, clock and memory.\<close>

fun profile_runs ::
    "(rat \<Rightarrow> rat) \<Rightarrow> (size_t \<Rightarrow> nat \<Rightarrow> 64 word) \<Rightarrow> (size_t \<Rightarrow> nat \<Rightarrow> OrderId) \<Rightarrow> (size_t \<Rightarrow> nat \<Rightarrow> OrderIndex)
     \<Rightarrow> OrderCommand list \<Rightarrow> size_t \<Rightarrow> (size_t \<Rightarrow> thread list) \<Rightarrow> size_t list \<Rightarrow> (int + ProfileResult list) option option" where
  "profile_runs rnd clock ks vs commands n ts [] = Some (Some (Inr []))"
| "profile_runs rnd clock ks vs commands n ts (c # cs) = do {
     r \<leftarrow> run_profile rnd (clock c) (ks c) (vs c) c commands n (ts c);
     case r of
       None \<Rightarrow> Some None
     | Some (Inl code) \<Rightarrow> Some (Some (Inl code))
     | Some (Inr res) \<Rightarrow> do {
         rs \<leftarrow> profile_runs rnd clock ks vs commands n ts cs;
         Some (map_option (map_sum id (Cons res)) rs)
       }
   }"

definition profile_pipeline_latency_main ::
    "(rat \<Rightarrow> rat) \<Rightarrow> (size_t \<Rightarrow> nat \<Rightarrow> 64 word) \<Rightarrow> (size_t \<Rightarrow> nat \<Rightarrow> OrderId) \<Rightarrow> (size_t \<Rightarrow> nat \<Rightarrow> OrderIndex)
     \<Rightarrow> (size_t \<Rightarrow> thread list) \<Rightarrow> int option option" where
  "profile_pipeline_latency_main rnd clock ks vs ts = do {
     let n = 100000;
     let commands = make_full_match_commands n;
     rs \<leftarrow> profile_runs rnd clock ks vs commands n ts [64, 256, 1024, 4096, 65536, 1048576];
     Some (map_option (case_sum (\<lambda>code. code) (\<lambda>results. 0)) rs)
   }"

subsection \<open>Order statistics of pointwise larger samples\<close>

lemma sorted_nth_le_iff:
  assumes "sorted (zs :: 'a::linorder list)" and "k < length zs"
  shows "zs ! k \<le> v \<longleftrightarrow> k < length (filter (\<lambda>x. x \<le> v) zs)"
  using assms
proof (induction zs arbitrary: k)
  case (Cons z zs)
  show ?case
  proof (cases "z \<le> v")
    case True
    then show ?thesis using Cons by (cases k) auto
  next
    case False
    then have "filter (\<lambda>x. x \<le> v) (z # zs) = []" using Cons.prems(1) by (force simp: filter_empty_conv)
    moreover have "z \<le> (z # zs) ! k" using Cons.prems by (cases k) auto
    ultimately show ?thesis using False by auto
  qed
qed simp

lemma length_filter_sort: "length (filter P (sort xs)) = length (filter P xs)"
  by (metis mset_filter mset_sort size_mset)

lemma sort_nth_mono:
  assumes "list_all2 (\<le>) xs (ys :: 'a::linorder list)" and "k < length xs"
  shows "sort xs ! k \<le> sort ys ! k"
proof -
  have len: "length ys = length xs" using assms(1) by (simp add: list_all2_lengthD)
  have "length (filter (\<lambda>x. x \<le> v) ys) \<le> length (filter (\<lambda>x. x \<le> v) xs)" for v
    using assms(1) by (induction rule: list_all2_induct) auto
  moreover have "k < length (filter (\<lambda>x. x \<le> sort ys ! k) (sort ys))"
    using sorted_nth_le_iff [of "sort ys" k "sort ys ! k"] assms(2) len by simp
  ultimately have "k < length (filter (\<lambda>x. x \<le> sort ys ! k) (sort xs))"
    unfolding length_filter_sort by (meson less_le_trans)
  then show ?thesis using sorted_nth_le_iff [of "sort xs" k] assms(2) by simp
qed

subsection \<open>What holds during a run\<close>

definition latencies_ok :: "nat \<Rightarrow> profile_work \<Rightarrow> bool" where
  "latencies_ok k w \<longleftrightarrow>
     stats_inv (queue_latency w) \<and> stats_inv (service_latency w) \<and> stats_inv (end_to_end_latency w) \<and>
     length (samples (end_to_end_latency w)) = k \<and>
     list_all2 (\<le>) (samples (queue_latency w)) (samples (end_to_end_latency w)) \<and>
     list_all2 (\<le>) (samples (service_latency w)) (samples (end_to_end_latency w))"

definition timed_after ::
    "(nat \<Rightarrow> 64 word) \<Rightarrow> FixedClob \<Rightarrow> ExecutionBuffer \<Rightarrow> OrderCommand list \<Rightarrow> TimedOrderCommand list \<Rightarrow> nat
     \<Rightarrow> profile_work \<Rightarrow> bool" where
  "timed_after clock b0 ex0 cs made k w \<longleftrightarrow>
     map timed_cmd made = take (length made) cs \<and> length made \<le> length cs \<and>
     (\<forall>x \<in> set made. \<exists>t < readings w. sent_ns x = clock t) \<and> exit_code w = None \<and>
     replay FastOrderIdHash buffer_emplace_back b0 (take k cs) ex0 = Some (replicate k True, prof_book w, prof_sink w) \<and>
     latencies_ok k w"

lemma timed_item_makes: "makes (timed_after clock b0 ex0 cs) (length cs) (timed_item clock cs)"
  unfolding makes_def
proof (intro allI impI)
  fix made k w and c :: size_t
  assume a: "timed_after clock b0 ex0 cs made k w" "length made < length cs" "unat c = length made"
  let ?x = "\<lparr>timed_cmd = cs ! length made, sent_ns = clock (readings w)\<rparr>" and ?w = "w\<lparr>readings := Suc (readings w)\<rparr>"
  have "timed_item clock cs c w = Some (?x, ?w)"
    using a(2,3) by (simp add: timed_item_def now_ns_def)
  moreover have "timed_after clock b0 ex0 cs made k ?w"
    using a(1) by (auto simp: timed_after_def latencies_ok_def intro: less_SucI)
  moreover have "timed_after clock b0 ex0 cs (made @ [?x]) k ?w"
    using a(1,2) by (auto simp: timed_after_def latencies_ok_def take_Suc_conv_app_nth intro: less_SucI)
  ultimately show "\<exists>x w'. timed_item clock cs c w = Some (x, w') \<and> timed_after clock b0 ex0 cs made k w' \<and>
      timed_after clock b0 ex0 cs (made @ [x]) k w'" by blast
qed

lemma replay_true_step:
  assumes total: "replay hash em b0 cs ex0 = Some (replicate (length cs) True, r)" and k: "k < length cs"
    and w: "replay hash em b0 (take k cs) ex0 = Some (replicate k True, b, ex)"
  obtains b' ex' where "handle_command hash em b (cs ! k) ex = Some (True, b', ex')"
    "replay hash em b0 (take (Suc k) cs) ex0 = Some (replicate (Suc k) True, b', ex')"
proof -
  have "replay hash em b0 (take (Suc k) cs @ drop (Suc k) cs) ex0 = Some (replicate (length cs) True, r)"
    using total by (simp only: append_take_drop_id)
  then obtain oks b' ex' oks' where s: "replay hash em b0 (take (Suc k) cs) ex0 = Some (oks, b', ex')"
      "oks @ oks' = replicate (length cs) True"
    unfolding replay_append by (auto simp: bind_eq_Some_conv)
  have "length oks = Suc k" using length_replay [OF s(1)] k by simp
  moreover have "\<forall>y \<in> set oks. y = True"
    using arg_cong [OF s(2), of set] by (auto simp: set_replicate_conv_if split: if_splits)
  ultimately have "oks = replicate (Suc k) True" using replicate_length_same by metis
  moreover have snoc: "replicate (Suc k) True = replicate k True @ [True]" by (simp add: replicate_append_same)
  ultimately have "replay hash em b0 (take k cs @ [cs ! k]) ex0 = Some (replicate k True @ [True], b', ex')"
    using s(1) k by (simp only: take_Suc_conv_app_nth)
  then have "handle_command hash em b (cs ! k) ex = Some (True, b', ex')"
    using w by (auto simp: replay_append bind_eq_Some_conv)
  then show ?thesis using s(1) \<open>oks = _\<close> by (intro that) simp_all
qed

lemma word_diff_mono:
  assumes "(a :: 64 word) \<le> b" and "b \<le> c"
  shows "b - a \<le> c - a" and "c - b \<le> c - a"
proof -
  have "a \<le> c" using assms by simp
  then show "b - a \<le> c - a" "c - b \<le> c - a"
    using assms by (simp_all add: word_le_nat_alt unat_sub diff_le_mono diff_le_mono2)
qed

lemma handle_timed_handles:
  assumes mono: "\<And>i j. i \<le> j \<Longrightarrow> clock i \<le> clock j"
    and total: "replay FastOrderIdHash buffer_emplace_back b0 cs ex0 = Some (replicate (length cs) True, r)"
  shows "handles (timed_after clock b0 ex0 cs) (handle_timed clock)"
  unfolding handles_def
proof (intro allI impI)
  fix made k w assume a: "timed_after clock b0 ex0 cs made k w" and k: "k < length made"
  let ?x = "made ! k" and ?t = "readings w"
  have cmd: "timed_cmd ?x = cs ! k"
    using a k by (metis timed_after_def nth_map nth_take)
  obtain t where t: "t < ?t" "sent_ns ?x = clock t" using a k unfolding timed_after_def by (meson nth_mem)
  have kl: "k < length cs" using a k by (simp add: timed_after_def)
  obtain b ex where h: "handle_command FastOrderIdHash buffer_emplace_back (prof_book w) (cs ! k) (prof_sink w) = Some (True, b, ex)"
      "replay FastOrderIdHash buffer_emplace_back b0 (take (Suc k) cs) ex0 = Some (replicate (Suc k) True, b, ex)"
    using replay_true_step [OF total kl] a unfolding timed_after_def by blast
  let ?q = "clock ?t - clock t" and ?s = "clock (Suc ?t) - clock ?t" and ?e = "clock (Suc ?t) - clock t"
  let ?w = "w\<lparr>readings := Suc (Suc ?t), queue_latency := stats_add (queue_latency w) ?q, prof_book := b, prof_sink := ex,
      service_latency := stats_add (service_latency w) ?s, end_to_end_latency := stats_add (end_to_end_latency w) ?e\<rparr>"
  have run: "handle_timed clock ?x w = Some ?w"
    using a h(1) t(2) cmd by (simp add: timed_after_def handle_timed_def now_ns_def Let_def)
  have "?q \<le> ?e" "?s \<le> ?e" using word_diff_mono [OF mono mono, of t ?t "Suc ?t"] t(1) by simp_all
  then have "latencies_ok (Suc k) ?w"
    using a by (simp add: timed_after_def latencies_ok_def stats_add_def stats_inv_def list_all2_appendI)
  moreover have "\<forall>x \<in> set made. \<exists>t < Suc (Suc ?t). sent_ns x = clock t"
    using a unfolding timed_after_def by (meson less_SucI)
  ultimately have "timed_after clock b0 ex0 cs made (Suc k) ?w"
    using a h(2) by (simp add: timed_after_def)
  with run show "\<exists>w'. handle_timed clock (made ! k) w = Some w' \<and> timed_after clock b0 ex0 cs made (Suc k) w'" by blast
qed

subsection \<open>The percentiles of a finished run\<close>

definition result_ok :: "size_t \<Rightarrow> ProfileResult \<Rightarrow> bool" where
  "result_ok cap r \<longleftrightarrow> res_capacity r = cap \<and> queue_p50_ns r \<le> queue_p99_ns r \<and> service_p50_ns r \<le> service_p99_ns r \<and>
     queue_p99_ns r \<le> end_to_end_p99_ns r \<and> service_p99_ns r \<le> end_to_end_p99_ns r"

lemma round_fractions:
  "0 \<le> round_double (1 / 2)" "round_double (1 / 2) \<le> round_double (99 / 100)" "round_double (99 / 100) \<le> 1"
  "0 \<le> round_double (99 / 100)" "round_double (1 / 2) \<le> 1"
  using ieee.rnd_mono [of 0 "1 / 2"] ieee.rnd_mono [of "1 / 2" "99 / 100"] ieee.rnd_mono [of "99 / 100" 1]
    ieee.rnd_int [of 0] ieee.rnd_int [of 1] by simp_all

lemma two_percentiles:
  assumes "stats_inv st" and "samples st \<noteq> []" and "length (samples st) \<le> 2 ^ 53" and p: "0 \<le> p" "p \<le> p'" "p' \<le> 1"
  shows "percentile round_double st p = Some (sort (samples st) ! ieee.rank (length (samples st) - 1) p, ensure_sorted st)"
    and "percentile round_double (ensure_sorted st) p' =
      Some (sort (samples st) ! ieee.rank (length (samples st) - 1) p', ensure_sorted st)"
proof -
  have "p \<le> 1" "0 \<le> p'" using p by simp_all
  show "percentile round_double st p = Some (sort (samples st) ! ieee.rank (length (samples st) - 1) p, ensure_sorted st)"
    by (rule ieee.percentile_run [OF assms(1-3) p(1) \<open>p \<le> 1\<close>])
  have "ensure_sorted (ensure_sorted st) = ensure_sorted st" by (simp add: ensure_sorted_def)
  then show "percentile round_double (ensure_sorted st) p' =
      Some (sort (samples st) ! ieee.rank (length (samples st) - 1) p', ensure_sorted st)"
    using ieee.percentile_run [of "ensure_sorted st" p'] assms \<open>0 \<le> p'\<close> by (simp add: ensure_sorted_sorts(2))
qed

lemma finished_result:
  assumes l: "latencies_ok k w" and k: "0 < k" "k \<le> 2 ^ 53"
  obtains r where "profile_result round_double cap t0 t1 w = Some r" "result_ok cap r"
proof -
  let ?q = "samples (queue_latency w)" and ?s = "samples (service_latency w)" and ?e = "samples (end_to_end_latency w)"
  let ?i = "ieee.rank (k - 1) (round_double (1 / 2))" and ?j = "ieee.rank (k - 1) (round_double (99 / 100))"
  have le: "list_all2 (\<le>) ?q ?e" "list_all2 (\<le>) ?s ?e" using l by (simp_all add: latencies_ok_def)
  then have len: "length ?q = k" "length ?s = k" "length ?e = k"
    using l by (auto simp: latencies_ok_def dest: list_all2_lengthD)
  have inv: "stats_inv (queue_latency w)" "stats_inv (service_latency w)" "stats_inv (end_to_end_latency w)"
    using l by (simp_all add: latencies_ok_def)
  have ne: "?q \<noteq> []" "?s \<noteq> []" "?e \<noteq> []" using len k(1) by auto
  have bound: "length ?q \<le> 2 ^ 53" "length ?s \<le> 2 ^ 53" "length ?e \<le> 2 ^ 53" using len k(2) by simp_all
  have j: "?j < k" "?i \<le> ?j" using ieee.rank_le [of "k - 1" "round_double (99 / 100)"] k(1)
    by (simp_all del: ieee.rank_le add: ieee.rank_mono [OF round_fractions(2)])
  have mono: "sort ?q ! ?i \<le> sort ?q ! ?j" "sort ?s ! ?i \<le> sort ?s ! ?j"
    using j len by (auto intro: sorted_nth_mono)
  have pw: "sort ?q ! ?j \<le> sort ?e ! ?j" "sort ?s ! ?j \<le> sort ?e ! ?j"
    using sort_nth_mono [OF le(1)] sort_nth_mono [OF le(2)] j(1) len by simp_all
  note q = two_percentiles [OF inv(1) ne(1) bound(1) round_fractions(1-3), unfolded len]
    and s = two_percentiles [OF inv(2) ne(2) bound(2) round_fractions(1-3), unfolded len]
    and e = two_percentiles(1) [OF inv(3) ne(3) bound(3) round_fractions(4) order_refl round_fractions(3), unfolded len]
  show ?thesis
    by (rule that [unfolded result_ok_def profile_result_def, unfolded q s e bind.bind_lunit prod.case])
      (rule refl, use mono pw in simp)
qed

subsection \<open>What the tool shows\<close>

text \<open>C29: a latency profile over any ring capacity, with a clock that never runs backwards: whatever
  the schedule of the two threads, the run never exits with an error; once both threads have been
  joined it has executed every match, the book is empty, and the reported percentiles are in order:
  the median is at most the 99th percentile, and neither the queueing nor the service 99th
  percentile exceeds the one of the end-to-end latency. Enough turns after the start finish it.\<close>

theorem latency_profile_consistent:
  assumes "0 < n" "unat n \<le> 2 ^ 20" and "capacity_ok cap" and mono: "\<And>i j. i \<le> j \<Longrightarrow> clock i \<le> clock j"
  shows "\<exists>x. run_profile round_double clock ks vs cap (make_full_match_commands n) n ts = Some x \<and>
    (\<forall>y. x = Some y \<longrightarrow> (\<exists>r. y = Inr r \<and> result_ok cap r)) \<and> (enough_turns (2 * unat n) ts \<longrightarrow> x \<noteq> None)"
proof -
  let ?cs = "make_full_match_commands n" and ?es = "map (fm_execution n) [0..<unat n]" and ?ex = "buffer_reserve buffer_new n"
  have n: "2 * unat n < 2 ^ 64" "unat n \<le> unat queue_capacity" using assms(2) by (simp_all add: queue_capacity_def)
  have len: "length ?cs = 2 * unat n" by simp
  have ids: "\<forall>c \<in> set ?cs. cmd_order_id c \<noteq> 0"
    using fm_ids_nonzero [OF n(1)] by (auto simp: full_match_halves fm_sell_def fm_buy_def)
  have spec: "spec_replay (spec_new queue_capacity 8000 12000) ?cs =
      (replicate (2 * unat n) True, spec_new queue_capacity 8000 12000, ?es)"
    by (rule full_match_replay [OF n]) (simp_all add: word_le_nat_alt)
  have "length ?es \<le> unat n" by simp
  obtain b0 b' ex' where r: "fixed_clob_new ks vs queue_capacity 8000 12000 = Some b0"
      "replay FastOrderIdHash buffer_emplace_back b0 ?cs ?ex = Some (replicate (2 * unat n) True, b', ex')"
      "clob_empty b' \<longleftrightarrow> book_ids (spec_new queue_capacity 8000 12000) = {}" "unat (buffer_size ex') = length ?es"
    by (rule driver_book [OF ids spec \<open>length ?es \<le> unat n\<close>, of ks vs FastOrderIdHash]) (rule that)
  then have fin: "clob_empty b'" "buffer_size ex' = n" by (simp_all add: spec_new_def book_ids_def)
  let ?w0 = "snd (now_ns clock (profile_start b0 ?ex (commands_size ?cs)))"
  let ?W = "timed_after clock b0 ?ex ?cs"
  have w0: "?W [] 0 ?w0"
    by (simp add: timed_after_def latencies_ok_def now_ns_def profile_start_def stats_reserve_def)
      (simp add: stats_new_def)
  have total: "replay FastOrderIdHash buffer_emplace_back b0 ?cs ?ex = Some (replicate (length ?cs) True, b', ex')"
    using r(2) by (simp only: len)
  have l64: "length ?cs < 2 ^ 64" "length ?cs < 2 ^ LENGTH(64)" using n by (simp_all only: len) simp
  show ?thesis
  proof (rule ring_stale.threads_join [where batch = "[]" and ts = ts and x = default_timed and start = ?w0,
        OF ring_stale.producer_turn_produces [OF timed_item_makes l64]
           ring_stale.consumer_turn_consumes [OF handle_timed_handles [OF mono total] l64(1)]
           ring_inv_new [OF assms(3)] ring_items_new w0 l64, folded commands_size_def])
    fix p
    assume run: "run_turns (producer_turn ring_push (timed_item clock ?cs) (commands_size ?cs))
        (consumer_turn ring_pop (handle_timed clock) (commands_size ?cs)) False ts
        (pipe_init (ring_new default_timed cap) default_timed [] ?w0) = Some p"
      and joined: "\<And>w. joined_work (commands_size ?cs) p = Some w \<Longrightarrow> \<exists>made. length made = length ?cs \<and> ?W made (length ?cs) w"
      and enough: "enough_turns (length ?cs) ts \<Longrightarrow> joined_work (commands_size ?cs) p \<noteq> None"
      and always: "\<exists>made k. ?W made k (work p)"
    have alive: "exit_code (work p) = None" using always by (auto simp: timed_after_def)
    have run': "run_profile round_double clock ks vs cap ?cs n ts = (case joined_work (commands_size ?cs) p of
        None \<Rightarrow> Some None
      | Some w \<Rightarrow> (let (end_ns, w) = now_ns clock w in
          if buffer_size (prof_sink w) \<noteq> n then Some (Some (Inl 1))
          else if \<not> clob_empty (prof_book w) then Some (Some (Inl 1))
          else do { res \<leftarrow> profile_result round_double cap (clock 0) end_ns w; Some (Some (Inr res)) }))"
      using r(1) run alive
      by (simp add: run_profile_def Let_def now_ns_def profile_start_def queue_capacity_def)
    show ?thesis
    proof (cases "joined_work (commands_size ?cs) p")
      case None
      then show ?thesis using run' enough by (auto simp: len)
    next
      case (Some w)
      obtain made where W: "?W made (length ?cs) w" using joined [OF Some] by blast
      then have book: "prof_book w = b'" "prof_sink w = ex'" and lat: "latencies_ok (length ?cs) w"
        using total by (simp_all add: timed_after_def)
      let ?w = "snd (now_ns clock w)"
      have lat': "latencies_ok (length ?cs) ?w" using lat by (simp add: latencies_ok_def now_ns_def)
      have "0 < length ?cs" "length ?cs \<le> 2 ^ 53" using assms(1,2) by (simp_all add: word_less_nat_alt)
      then obtain res where "profile_result round_double cap (clock 0) (fst (now_ns clock w)) ?w = Some res" "result_ok cap res"
        by (rule finished_result [OF lat'])
      then show ?thesis using run' Some book fin by (simp add: now_ns_def)
    qed
  qed
qed

text \<open>Before the start nothing happens; the smallest ring and a clock that stands still.\<close>

theorem latency_profile_consistent_witness:
  "\<exists>r. run_profile round_double (\<lambda>k. word_of_nat (min k 5)) (\<lambda>_. 3) (\<lambda>_. 4) 64 (make_full_match_commands 1000) 1000
      (Consumer 5 # Main # concat (replicate 2000 [Producer 0, Consumer 0])) = Some (Some (Inr r)) \<and> result_ok 64 r"
proof -
  have cap: "capacity_ok 64" by (simp add: capacity_ok_def) code_simp
  have small: "unat (word_of_nat (min k 5) :: 64 word) = min k 5" for k by (rule unat_of_nat_less) simp
  have mono: "(word_of_nat (min i 5) :: 64 word) \<le> word_of_nat (min j 5)" if "i \<le> j" for i j
    using that unfolding word_le_nat_alt small by simp
  show ?thesis
    using latency_profile_consistent [where n = 1000 and clock = "\<lambda>k. word_of_nat (min k 5)" and ks = "\<lambda>_. 3" and vs = "\<lambda>_. 4"
          and ts = "Consumer 5 # Main # concat (replicate 2000 [Producer 0, Consumer 0])", OF _ _ cap mono]
      alternating_turns [of 2000] by fastforce
qed

lemma profile_runs_ok:
  assumes n: "0 < n" "unat n \<le> 2 ^ 20" and mono: "\<And>c i j. i \<le> j \<Longrightarrow> clock c i \<le> clock c j"
  shows "\<forall>c \<in> set cs. capacity_ok c \<Longrightarrow>
    \<exists>x. profile_runs round_double clock ks vs (make_full_match_commands n) n ts cs = Some x \<and>
      (\<forall>y. x = Some y \<longrightarrow> (\<exists>rs. y = Inr rs \<and> list_all2 result_ok cs rs)) \<and>
      ((\<forall>c \<in> set cs. enough_turns (2 * unat n) (ts c)) \<longrightarrow> x \<noteq> None)"
proof (induction cs)
  case (Cons c cs)
  have cap: "capacity_ok c" using Cons.prems by simp
  obtain x where x: "run_profile round_double (clock c) (ks c) (vs c) c (make_full_match_commands n) n (ts c) = Some x"
      "\<And>y. x = Some y \<Longrightarrow> \<exists>r. y = Inr r \<and> result_ok c r" "enough_turns (2 * unat n) (ts c) \<Longrightarrow> x \<noteq> None"
    using latency_profile_consistent [where clock = "clock c" and ks = "ks c" and vs = "vs c" and ts = "ts c", OF n cap mono] by blast
  obtain y where y: "profile_runs round_double clock ks vs (make_full_match_commands n) n ts cs = Some y"
      "\<And>z. y = Some z \<Longrightarrow> \<exists>rs. z = Inr rs \<and> list_all2 result_ok cs rs"
      "\<forall>c \<in> set cs. enough_turns (2 * unat n) (ts c) \<Longrightarrow> y \<noteq> None"
    using Cons by auto
  show ?case
  proof (cases x)
    case None
    then show ?thesis using x by auto
  next
    case (Some z)
    then obtain r where r: "z = Inr r" "result_ok c r" using x(2) by blast
    show ?thesis
    proof (cases y)
      case None
      then show ?thesis using x(1) y Some r by auto
    next
      case y': (Some z')
      then obtain rs where "z' = Inr rs" "list_all2 result_ok cs rs" using y(2) by blast
      then show ?thesis using x(1) y(1) Some r y' by simp
    qed
  qed
qed simp

text \<open>C30: the latency tool, with clocks that never run backwards: whatever the schedules of its six
  runs, it never takes an error exit, and it returns 0 once every run has had enough turns.\<close>

theorem latency_tool_succeeds:
  assumes "\<And>c i j. i \<le> j \<Longrightarrow> clock c i \<le> clock c j"
  shows "profile_pipeline_latency_main round_double clock ks vs ts \<in> {Some None, Some (Some 0)} \<and>
    ((\<forall>c. enough_turns 200000 (ts c)) \<longrightarrow> profile_pipeline_latency_main round_double clock ks vs ts = Some (Some 0))"
proof -
  let ?caps = "[64, 256, 1024, 4096, 65536, 1048576] :: size_t list"
  have caps: "\<forall>c \<in> set ?caps. capacity_ok c" by (simp add: capacity_ok_def) code_simp
  have n: "(0 :: size_t) < 100000" "unat (100000 :: size_t) \<le> 2 ^ 20" by simp_all
  obtain x where x: "profile_runs round_double clock ks vs (make_full_match_commands 100000) 100000 ts ?caps = Some x"
      "\<And>y. x = Some y \<Longrightarrow> \<exists>rs. y = Inr rs" "(\<forall>c. enough_turns 200000 (ts c)) \<Longrightarrow> x \<noteq> None"
    using profile_runs_ok [where clock = clock and ks = ks and vs = vs and ts = ts, OF n assms caps] by auto
  have main: "profile_pipeline_latency_main round_double clock ks vs ts = Some (map_option (case_sum (\<lambda>code. code) (\<lambda>results. 0)) x)"
    unfolding profile_pipeline_latency_main_def Let_def x(1) by simp
  show ?thesis
  proof (cases x)
    case (Some y)
    then obtain rs where "y = Inr rs" using x(2) by blast
    then show ?thesis using main Some by simp
  qed (use main x(3) in auto)
qed

theorem latency_tool_succeeds_witness:
  "profile_pipeline_latency_main round_double (\<lambda>_ _. 7) (\<lambda>_ _. 3) (\<lambda>_ _. 4)
    (\<lambda>_. Consumer 5 # Main # concat (replicate 200000 [Producer 0, Consumer 0])) = Some (Some 0)"
  by (rule latency_tool_succeeds [THEN conjunct2, THEN mp]) (rule order_refl, rule allI, rule alternating_turns)

end
