(* ===== verification/Index_Runs.thy ===== *)
theory Index_Runs
  imports Order_Index "HOL-Library.AList"
begin

text \<open>
  \<open>bench_order_index.cpp\<close>: the two id patterns and one iteration of the insert, find and
  erase drivers over any index type. The index type is a template parameter; here its
  constructed value and its operations are arguments. Both \<open>FixedOrderIndex\<close> and the
  standard library's \<open>std::unordered_map\<close>, as an association list without duplicate keys,
  satisfy the contract \<open>id_map\<close>, so the drivers are verified once.
\<close>

definition make_sequential_ids :: "size_t \<Rightarrow> OrderId list" where
  "make_sequential_ids n = map (\<lambda>k. word_of_nat k + 1) [0..<unat n]"

definition make_bad_low_bit_ids :: "size_t \<Rightarrow> OrderId list" where
  "make_bad_low_bit_ids n = map (\<lambda>k. push_bit 10 (word_of_nat k + 1)) [0..<unat n]"

datatype IdPattern = Sequential | BadLowBits

definition make_ids :: "IdPattern \<Rightarrow> size_t \<Rightarrow> OrderId list" where
  "make_ids pat n = (if pat = Sequential then make_sequential_ids n else make_bad_low_bit_ids n)"

definition bench_index_capacity :: size_t where
  "bench_index_capacity = 2 ^ 21"

subsection \<open>The drivers\<close>

fun insert_all :: "('t \<Rightarrow> 'k \<Rightarrow> (bool \<times> 't) option) \<Rightarrow> 't \<Rightarrow> 'k list \<Rightarrow> (bool list \<times> 't) option" where
  "insert_all insert_order index [] = Some ([], index)"
| "insert_all insert_order index (k # ks) = do {
     (ok, index) \<leftarrow> insert_order index k;
     (oks, index) \<leftarrow> insert_all insert_order index ks;
     Some (ok # oks, index)
   }"

fun find_all :: "('t \<Rightarrow> 'k \<Rightarrow> 'f option) \<Rightarrow> 't \<Rightarrow> 'k list \<Rightarrow> 'f list option" where
  "find_all find_id index [] = Some []"
| "find_all find_id index (k # ks) = do {
     r \<leftarrow> find_id index k;
     rs \<leftarrow> find_all find_id index ks;
     Some (r # rs)
   }"

fun erase_all :: "('t \<Rightarrow> 'k \<Rightarrow> ('e \<times> 't) option) \<Rightarrow> 't \<Rightarrow> 'k list \<Rightarrow> ('e list \<times> 't) option" where
  "erase_all erase index [] = Some ([], index)"
| "erase_all erase index (k # ks) = do {
     (r, index) \<leftarrow> erase index k;
     (rs, index) \<leftarrow> erase_all erase index ks;
     Some (r # rs, index)
   }"

definition run_index_insert ::
    "'t \<Rightarrow> ('t \<Rightarrow> OrderId \<Rightarrow> (bool \<times> 't) option) \<Rightarrow> ('t \<Rightarrow> size_t) \<Rightarrow> IdPattern \<Rightarrow> size_t
     \<Rightarrow> (bool list \<times> size_t) option" where
  "run_index_insert index insert_order size_of pat n = do {
     let ids = make_ids pat n;
     (oks, index) \<leftarrow> insert_all insert_order index ids;
     Some (oks, size_of index)
   }"

definition run_index_find ::
    "'t \<Rightarrow> ('t \<Rightarrow> OrderId \<Rightarrow> (bool \<times> 't) option) \<Rightarrow> ('t \<Rightarrow> OrderId \<Rightarrow> 'f option) \<Rightarrow> IdPattern \<Rightarrow> size_t
     \<Rightarrow> (bool list \<times> 'f list) option" where
  "run_index_find index insert_order find_id pat n = do {
     let ids = make_ids pat n;
     (oks, index) \<leftarrow> insert_all insert_order index ids;
     found \<leftarrow> find_all find_id index ids;
     Some (oks, found)
   }"

definition run_index_erase ::
    "'t \<Rightarrow> ('t \<Rightarrow> OrderId \<Rightarrow> (bool \<times> 't) option) \<Rightarrow> ('t \<Rightarrow> OrderId \<Rightarrow> ('e \<times> 't) option) \<Rightarrow> IdPattern \<Rightarrow> size_t
     \<Rightarrow> (bool list \<times> 'e list) option" where
  "run_index_erase index insert_order erase pat n = do {
     let ids = make_ids pat n;
     (oks, index) \<leftarrow> insert_all insert_order index ids;
     (erased, index) \<leftarrow> erase_all erase index ids;
     Some (oks, erased)
   }"

subsection \<open>The three index types\<close>

text \<open>\<open>insert_order\<close> of a \<open>FixedOrderIndex\<close> stores the value 1.\<close>

definition insert_order :: "hash_fn \<Rightarrow> FixedOrderIndex \<Rightarrow> OrderId \<Rightarrow> (bool \<times> FixedOrderIndex) option" where
  "insert_order hash index oid = index_insert hash index oid 1"

type_synonym unordered_map = "(OrderId \<times> OrderIndex) list"

definition unordered_insert :: "unordered_map \<Rightarrow> OrderId \<Rightarrow> OrderIndex \<Rightarrow> (bool \<times> unordered_map) option" where
  "unordered_insert m k v = Some (if map_of m k = None then (True, (k, v) # m) else (False, m))"

definition unordered_find :: "unordered_map \<Rightarrow> OrderId \<Rightarrow> OrderIndex option option" where
  "unordered_find m k = Some (map_of m k)"

text \<open>\<open>erase\<close> returns how many elements it removed.\<close>

definition unordered_erase :: "unordered_map \<Rightarrow> OrderId \<Rightarrow> (size_t \<times> unordered_map) option" where
  "unordered_erase m k = Some (if map_of m k = None then (0, m) else (1, AList.delete k m))"

definition unordered_size :: "unordered_map \<Rightarrow> size_t" where
  "unordered_size m = word_of_nat (length m)"

definition insert_order_unordered :: "unordered_map \<Rightarrow> OrderId \<Rightarrow> (bool \<times> unordered_map) option" where
  "insert_order_unordered index oid = unordered_insert index oid 1"

subsection \<open>The ids\<close>

lemma make_ids_length [simp]: "length (make_ids pat n) = unat n"
  by (simp add: make_ids_def make_sequential_ids_def make_bad_low_bit_ids_def)

lemma unat_index_Suc: "k < 2 ^ 53 \<Longrightarrow> unat (word_of_nat k + 1 :: size_t) = Suc k"
  by (subst unat_plus_if') (simp add: unat_of_nat_less)

lemma unat_bad_low_bits:
  assumes "k < 2 ^ 53"
  shows "unat (push_bit 10 (word_of_nat k + 1 :: size_t)) = 1024 * Suc k"
proof -
  have "unat (push_bit 10 (word_of_nat k + 1 :: size_t)) = (unat (word_of_nat k + 1 :: size_t) * 1024) mod 2 ^ 64"
    by (simp only: push_bit_eq_mult unat_word_ariths) simp
  then show ?thesis using assms by (simp add: unat_index_Suc del: unat_plus_simple)
qed

lemma make_ids_ok:
  assumes "unat n \<le> 2 ^ 53"
  shows "distinct (make_ids pat n)" and "\<forall>k \<in> set (make_ids pat n). k \<noteq> 0"
proof -
  have b: "k < 2 ^ 53" if "k \<in> set [0..<unat n]" for k using that assms by simp
  have seq: "inj_on (\<lambda>k. word_of_nat k + 1 :: size_t) (set [0..<unat n])"
    by (rule inj_onI) (metis b unat_index_Suc nat.inject)
  have low: "inj_on (\<lambda>k. push_bit 10 (word_of_nat k + 1 :: size_t)) (set [0..<unat n])"
    by (rule inj_onI) (metis b unat_bad_low_bits nat.inject mult_cancel1 zero_neq_numeral)
  show "distinct (make_ids pat n)"
    using seq low by (simp add: make_ids_def make_sequential_ids_def make_bad_low_bit_ids_def distinct_map)
  have "word_of_nat k + 1 \<noteq> (0 :: size_t)" "push_bit 10 (word_of_nat k + 1) \<noteq> (0 :: size_t)"
    if "k \<in> set [0..<unat n]" for k
    using unat_index_Suc [OF b [OF that]] unat_bad_low_bits [OF b [OF that]] by (metis nat.distinct(1) unat_0 mult_is_0 zero_neq_numeral)+
  then show "\<forall>k \<in> set (make_ids pat n). k \<noteq> 0"
    by (auto simp: make_ids_def make_sequential_ids_def make_bad_low_bit_ids_def)
qed

subsection \<open>The drivers over any map\<close>

context id_map
begin

lemma insert_all_run:
  fixes v :: 'v
  assumes "\<And>t k. add t k = ins t k v"
  shows "inv t \<Longrightarrow> distinct ks \<Longrightarrow> \<forall>k \<in> set ks. ok k \<and> lookup t k = None \<Longrightarrow>
    card (dom (lookup t)) + length ks \<le> room t \<Longrightarrow> finite (dom (lookup t)) \<Longrightarrow>
    \<exists>t'. insert_all add t ks = Some (replicate (length ks) True, t') \<and> inv t' \<and>
      lookup t' = (\<lambda>k. if k \<in> set ks then Some v else lookup t k) \<and>
      card (dom (lookup t')) = card (dom (lookup t)) + length ks"
proof (induction ks arbitrary: t)
  case Nil
  then show ?case by (intro exI [of _ t]) auto
next
  case (Cons k ks)
  obtain t1 where 1: "ins t k v = Some (True, t1)" "inv t1" "lookup t1 = (lookup t)(k \<mapsto> v)" "room t1 = room t"
    using ins_new [of t "k" v] Cons.prems by auto
  have card: "card (dom (lookup t1)) = Suc (card (dom (lookup t)))"
    using 1(3) Cons.prems(3,5) by (simp add: domIff)
  have "\<forall>x \<in> set ks. ok x \<and> lookup t1 x = None"
    using Cons.prems(2,3) 1(3) by auto
  moreover have "finite (dom (lookup t1))" "card (dom (lookup t1)) + length ks \<le> room t1" "distinct ks"
    using Cons.prems(2,4,5) 1(3,4) card by simp_all
  ultimately obtain t' where "insert_all add t1 ks = Some (replicate (length ks) True, t')" "inv t'"
      "lookup t' = (\<lambda>x. if x \<in> set ks then Some v else lookup t1 x)"
      "card (dom (lookup t')) = card (dom (lookup t1)) + length ks"
    using Cons.IH [OF 1(2)] by blast
  note rest = this
  have "add t k = Some (True, t1)" using 1(1) assms(1) by simp
  then have "insert_all add t (k # ks) = Some (replicate (length (k # ks)) True, t')" using rest(1) by simp
  moreover have "lookup t' = (\<lambda>x. if x \<in> set (k # ks) then Some v else lookup t x)"
    unfolding rest(3) 1(3) by (auto simp: fun_eq_iff)
  moreover have "card (dom (lookup t')) = card (dom (lookup t)) + length (k # ks)" using rest(4) card by simp
  ultimately show ?case using rest(2) by blast
qed

lemma find_all_run:
  "inv t \<Longrightarrow> \<forall>k \<in> set ks. ok k \<and> lookup t k = Some v \<Longrightarrow>
   find_all find t ks = Some (replicate (length ks) (Some v))"
  by (induction ks) (simp_all add: find_lookup)

lemma erase_all_run:
  "inv t \<Longrightarrow> distinct ks \<Longrightarrow> \<forall>k \<in> set ks. ok k \<and> lookup t k \<noteq> None \<Longrightarrow>
    \<exists>t'. erase_all del t ks = Some (replicate (length ks) True, t') \<and> inv t'"
proof (induction ks arbitrary: t)
  case (Cons k ks)
  obtain t1 where 1: "del t k = Some (True, t1)" "inv t1" "lookup t1 = (lookup t)(k := None)"
    using del_hit [of t "k"] Cons.prems by auto
  have "\<forall>x \<in> set ks. ok x \<and> lookup t1 x \<noteq> None"
    using Cons.prems(2,3) 1(3) by auto
  then show ?case using Cons.IH [OF 1(2)] Cons.prems(2) 1(1) by auto
qed simp

end

subsection \<open>Both kinds of index keep the contract\<close>

text \<open>A map with 64-bit keys never runs out of room for a new key.\<close>

lemma card_dom_ids: "card (dom (m :: OrderId \<rightharpoonup> 'v)) \<le> 2 ^ 64"
proof -
  have "card (dom m) \<le> card (UNIV :: OrderId set)" by (rule card_mono) simp_all
  then show ?thesis by (simp add: card_word)
qed

lemma card_dom_ids_less:
  assumes "(m :: OrderId \<rightharpoonup> 'v) k = None"
  shows "card (dom m) < 2 ^ 64"
proof -
  have "dom m \<subset> (UNIV :: OrderId set)" using assms by blast
  then have "card (dom m) < card (UNIV :: OrderId set)" by (rule psubset_card_mono [rotated]) simp
  then show ?thesis by (simp add: card_word)
qed

definition unordered_erased :: "unordered_map \<Rightarrow> OrderId \<Rightarrow> (bool \<times> unordered_map) option" where
  "unordered_erased m k = map_option (\<lambda>(n, m). (n \<noteq> 0, m)) (unordered_erase m k)"

interpretation unordered: id_map unordered_insert unordered_find unordered_erased
    "\<lambda>m. distinct (map fst m)" map_of "\<lambda>m. 2 ^ 64" "\<lambda>k. True"
proof unfold_locales
  fix m :: unordered_map and k v
  assume inv: "distinct (map fst m)"
  show "card (dom (map_of m)) \<le> 2 ^ 64" by (rule card_dom_ids)
  show "unordered_find m k = Some (map_of m k)" by (simp add: unordered_find_def)
  show "unordered_insert m k v = Some (False, m)" if "map_of m k \<noteq> None"
    using that by (simp add: unordered_insert_def)
  show "unordered_insert m k v = Some (False, m)" if "map_of m k = None" "card (dom (map_of m)) = 2 ^ 64"
    using card_dom_ids_less [of "map_of m" k] that by simp
  show "\<exists>m'. unordered_insert m k v = Some (True, m') \<and> distinct (map fst m') \<and>
      map_of m' = (map_of m)(k \<mapsto> v) \<and> (2 :: nat) ^ 64 = 2 ^ 64" if "map_of m k = None"
    using that inv by (simp add: unordered_insert_def map_of_eq_None_iff)
  show "\<exists>m'. unordered_erased m k = Some (True, m') \<and> distinct (map fst m') \<and>
      map_of m' = (map_of m)(k := None) \<and> (2 :: nat) ^ 64 = 2 ^ 64" if "map_of m k \<noteq> None"
    using that inv by (simp add: unordered_erased_def unordered_erase_def AList.distinct_delete AList.delete_conv')
  show "unordered_erased m k = Some (False, m)" if "map_of m k = None"
    using that by (simp add: unordered_erased_def unordered_erase_def)
qed

lemma erase_all_counts:
  "erase_all unordered_erased m ks = Some (replicate (length ks) True, m') \<Longrightarrow>
   erase_all unordered_erase m ks = Some (replicate (length ks) 1, m')"
proof (induction ks arbitrary: m)
  case (Cons k ks)
  then show ?case
    by (auto simp: unordered_erased_def unordered_erase_def bind_eq_Some_conv split: if_splits)
qed simp

subsection \<open>What the drivers show\<close>

text \<open>C35: for up to \<open>2^21\<close> ids of either pattern, each of the three index types takes every id,
  finds every id with the value stored for it and erases every id once; in particular ids that
  collide in all their low bits cost the open-addressing table time but no answer.\<close>

theorem index_drivers:
  assumes "unat n \<le> 2 ^ 21"
  shows "run_index_insert (order_index_new ks vs bench_index_capacity) (insert_order hash) index_size pat n = Some (replicate (unat n) True, n) \<and>
    run_index_find (order_index_new ks vs bench_index_capacity) (insert_order hash) (index_find hash) pat n =
      Some (replicate (unat n) True, replicate (unat n) (Some 1)) \<and>
    run_index_erase (order_index_new ks vs bench_index_capacity) (insert_order hash) (index_erase hash) pat n =
      Some (replicate (unat n) True, replicate (unat n) True) \<and>
    run_index_insert [] insert_order_unordered unordered_size pat n = Some (replicate (unat n) True, n) \<and>
    run_index_find [] insert_order_unordered unordered_find pat n =
      Some (replicate (unat n) True, replicate (unat n) (Some 1)) \<and>
    run_index_erase [] insert_order_unordered unordered_erase pat n =
      Some (replicate (unat n) True, replicate (unat n) 1)"
proof -
  let ?ids = "make_ids pat n" and ?t = "order_index_new ks vs bench_index_capacity"
  have len: "length ?ids = unat n" by simp
  have n: "unat n \<le> 2 ^ 53" using assms(1) by simp
  note ids = make_ids_ok [OF n, of pat]
  have cap: "has_single_bit bench_index_capacity" by (simp add: bench_index_capacity_def) code_simp
  have cap1: "1 < unat bench_index_capacity" by (simp add: bench_index_capacity_def)
  have new: "index_inv hash ?t" "index_map ?t = Map.empty" "capacity ?t = bench_index_capacity"
    by (rule index_inv_new [OF cap cap1])+
  have start: "\<forall>k \<in> set ?ids. k \<noteq> 0 \<and> index_map ?t k = None" "finite (dom (index_map ?t))"
      "card (dom (index_map ?t)) + length ?ids \<le> unat (capacity ?t)"
    using ids(2) assms(1) by (simp_all add: new(2,3)) (simp add: bench_index_capacity_def)
  obtain t where t: "insert_all (insert_order hash) ?t ?ids = Some (replicate (unat n) True, t)" "index_inv hash t"
      "index_map t = (\<lambda>k. if k \<in> set ?ids then Some 1 else index_map ?t k)" "card (dom (index_map t)) = unat n"
    using foi.insert_all_run [where add = "insert_order hash" and v = 1, OF _ new(1) ids(1) start(1,3,2)]
    by (auto simp: insert_order_def new(2))
  have hit: "\<forall>k \<in> set ?ids. k \<noteq> 0 \<and> index_map t k = Some 1" "\<forall>k \<in> set ?ids. k \<noteq> 0 \<and> index_map t k \<noteq> None"
    using ids(2) t(3) by simp_all
  have size: "index_size t = n"
  proof -
    have "unat (index_size t) = unat n"
      using t(2,4) card_dom_index_map [OF t(2)] by (simp add: index_size_def index_inv_def)
    then show ?thesis by simp
  qed
  obtain t' where erased: "erase_all (index_erase hash) t ?ids = Some (replicate (unat n) True, t')"
    using foi.erase_all_run [OF t(2) ids(1) hit(2)] by auto
  have found: "find_all (index_find hash) t ?ids = Some (replicate (unat n) (Some 1))"
    using foi.find_all_run [OF t(2) hit(1)] by simp
  have ustart: "\<forall>k \<in> set ?ids. True \<and> map_of [] k = None" "finite (dom (map_of ([] :: unordered_map)))"
      "card (dom (map_of ([] :: unordered_map))) + length ?ids \<le> 2 ^ 64" "distinct (map fst ([] :: unordered_map))"
    using assms(1) by simp_all
  obtain m where m: "insert_all insert_order_unordered [] ?ids = Some (replicate (unat n) True, m)" "distinct (map fst m)"
      "map_of m = (\<lambda>k. if k \<in> set ?ids then Some 1 else map_of [] k)" "card (dom (map_of m)) = unat n"
    using unordered.insert_all_run [where add = insert_order_unordered and v = 1, OF _ ustart(4) ids(1) ustart(1,3,2)]
    by (auto simp: insert_order_unordered_def)
  have mhit: "\<forall>k \<in> set ?ids. True \<and> map_of m k = Some 1" "\<forall>k \<in> set ?ids. True \<and> map_of m k \<noteq> None"
    using m(3) by simp_all
  have "length m = unat n"
    using m(2,4) by (metis dom_map_of_conv_image_fst distinct_card length_map set_map)
  then have msize: "unordered_size m = n" by (simp add: unordered_size_def)
  obtain m' where "erase_all unordered_erased m ?ids = Some (replicate (length ?ids) True, m')"
    using unordered.erase_all_run [OF m(2) ids(1) mhit(2)] by auto
  then have merased: "erase_all unordered_erase m ?ids = Some (replicate (unat n) 1, m')"
    using erase_all_counts len by metis
  have mfound: "find_all unordered_find m ?ids = Some (replicate (unat n) (Some 1))"
    using unordered.find_all_run [OF m(2) mhit(1)] by simp
  show ?thesis
    using t(1) size erased found m(1) msize merased mfound
    by (simp add: run_index_insert_def run_index_find_def run_index_erase_def Let_def)
qed

theorem index_drivers_witness:
  "run_index_find (order_index_new (\<lambda>_. 3) (\<lambda>_. 4) bench_index_capacity) (insert_order FastOrderIdHash)
     (index_find FastOrderIdHash) BadLowBits 1000 = Some (replicate 1000 True, replicate 1000 (Some 1))"
  using index_drivers [of 1000] by simp

end
