(* ===== verification/Simd_Scan.thy ===== *)
theory Simd_Scan
  imports Prelude
begin

text \<open>
  \<open>simd_scan.hpp\<close>: finding the next non-zero word of an array, once with a scalar loop
  and once with AVX2, \<open>NumBlocks\<close> vectors of eight lanes per step. The vector intrinsics
  are parameters, grouped in a record; the locale \<open>avx2_lanes\<close> states what the vendor's
  documentation says of them, lane by lane. Under it the two functions are equal.
\<close>

subsection \<open>The scalar function\<close>

function scan_loop :: "32 word list \<Rightarrow> size_t \<Rightarrow> size_t \<Rightarrow> size_t option option" where
  "scan_loop a n i =
     (if i < n then do {
        x \<leftarrow> read_at a (unat i);
        if x \<noteq> 0 then Some (Some i) else scan_loop a n (i + 1)
      } else Some None)"
  by auto
termination
proof (relation "measure (\<lambda>(a, n, i). unat n - unat i)", simp)
  fix a :: "32 word list" and n i :: size_t and x :: "32 word"
  assume "i < n"
  then show "((a, n, i + 1), a, n, i) \<in> measure (\<lambda>(a, n, i). unat n - unat i)"
    by (simp add: unat_inc word_less_nat_alt diff_less_mono2)
qed

declare scan_loop.simps [simp del]

definition scalar_find_next_nonzero :: "32 word list \<Rightarrow> size_t \<Rightarrow> size_t \<Rightarrow> size_t option option" where
  "scalar_find_next_nonzero a n start = scan_loop a n start"

subsection \<open>The AVX2 function\<close>

record ('v, 'f) avx2 =
  mm256_setzero_si256 :: 'v
  mm256_loadu_si256 :: "32 word list \<Rightarrow> size_t \<Rightarrow> 'v option"
  mm256_cmpeq_epi32 :: "'v \<Rightarrow> 'v \<Rightarrow> 'v"
  mm256_castsi256_ps :: "'v \<Rightarrow> 'f"
  mm256_movemask_ps :: "'f \<Rightarrow> 32 word"

text \<open>\<open>std::countr_one\<close>: the number of consecutive one bits from the lowest on.\<close>

definition countr_one :: "'a::len word \<Rightarrow> nat" where
  "countr_one w = length (takeWhile (bit w) [0..<LENGTH('a)])"

definition scan_full :: "nat \<Rightarrow> 64 word" where
  "scan_full nb = (if nb = 8 then NOT 0 else push_bit (nb * 8) 1 - 1)"

text \<open>The mask of the zero lanes of the block at \<open>i\<close>; \<open>k\<close> vectors to go from \<open>b\<close>.\<close>

fun block_mask :: "('v, 'f) avx2 \<Rightarrow> 'v \<Rightarrow> 32 word list \<Rightarrow> size_t \<Rightarrow> nat \<Rightarrow> nat \<Rightarrow> 64 word \<Rightarrow> 64 word option" where
  "block_mask I zero a i b 0 msk = Some msk"
| "block_mask I zero a i b (Suc k) msk = do {
     vec \<leftarrow> mm256_loadu_si256 I a (i + word_of_nat (b * 8));
     let eq = mm256_cmpeq_epi32 I vec zero;
     let zero_mask = mm256_movemask_ps I (mm256_castsi256_ps I eq);
     block_mask I zero a i (Suc b) k (msk OR push_bit (b * 8) (scast zero_mask))
   }"

text \<open>A loop that returns from the function yields \<open>Inl\<close>, one that falls through \<open>Inr\<close>.\<close>

partial_function (option) blocks_loop ::
    "('v, 'f) avx2 \<Rightarrow> 'v \<Rightarrow> nat \<Rightarrow> 32 word list \<Rightarrow> size_t \<Rightarrow> size_t \<Rightarrow> (size_t + size_t) option" where
  "blocks_loop I zero nb a n i =
     (if i + word_of_nat (nb * 8) \<le> n then do {
        msk \<leftarrow> block_mask I zero a i 0 nb 0;
        if msk \<noteq> scan_full nb then Some (Inl (i + word_of_nat (countr_one msk)))
        else blocks_loop I zero nb a n (i + word_of_nat (nb * 8))
      } else Some (Inr i))"

partial_function (option) lanes_loop ::
    "('v, 'f) avx2 \<Rightarrow> 'v \<Rightarrow> 32 word list \<Rightarrow> size_t \<Rightarrow> size_t \<Rightarrow> (size_t + size_t) option" where
  "lanes_loop I zero a n i =
     (if i + 8 \<le> n then do {
        vec \<leftarrow> mm256_loadu_si256 I a i;
        let eq = mm256_cmpeq_epi32 I vec zero;
        let zero_mask = mm256_movemask_ps I (mm256_castsi256_ps I eq);
        if zero_mask \<noteq> 255 then Some (Inl (i + word_of_nat (countr_one zero_mask)))
        else lanes_loop I zero a n (i + 8)
      } else Some (Inr i))"

definition avx2_find_next_nonzero ::
    "('v, 'f) avx2 \<Rightarrow> nat \<Rightarrow> 32 word list \<Rightarrow> size_t \<Rightarrow> size_t \<Rightarrow> size_t option option" where
  "avx2_find_next_nonzero I nb a n start =
     (if start \<ge> n then Some None
      else do {
        let zero = mm256_setzero_si256 I;
        r \<leftarrow> blocks_loop I zero nb a n start;
        case r of
          Inl i \<Rightarrow> Some (Some i)
        | Inr i \<Rightarrow> do {
            r \<leftarrow> lanes_loop I zero a n i;
            case r of
              Inl i \<Rightarrow> Some (Some i)
            | Inr i \<Rightarrow> scan_loop a n i
          }
      })"

declare blocks_loop.simps [code] lanes_loop.simps [code]

subsection \<open>The first non-zero element\<close>

definition first_nonzero :: "32 word list \<Rightarrow> nat \<Rightarrow> nat \<Rightarrow> size_t option" where
  "first_nonzero a n i = map_option word_of_nat (List.find (\<lambda>k. a ! k \<noteq> 0) [i..<n])"

lemma first_nonzero_end [simp]: "n \<le> i \<Longrightarrow> first_nonzero a n i = None"
  by (simp add: first_nonzero_def)

lemma first_nonzero_step:
  "i < n \<Longrightarrow> first_nonzero a n i = (if a ! i \<noteq> 0 then Some (word_of_nat i) else first_nonzero a n (Suc i))"
  by (simp add: first_nonzero_def upt_conv_Cons)

lemma first_nonzero_skip:
  "\<forall>k < m. a ! (i + k) = 0 \<Longrightarrow> i + m \<le> n \<Longrightarrow> first_nonzero a n i = first_nonzero a n (i + m)"
proof (induction m arbitrary: i)
  case (Suc m)
  have "\<forall>k < m. a ! (Suc i + k) = 0" using Suc.prems(1) by (metis Suc_less_eq add_Suc_shift)
  then have "first_nonzero a n (Suc i) = first_nonzero a n (Suc i + m)" using Suc.IH [of "Suc i"] Suc.prems(2) by simp
  then show ?case using Suc.prems first_nonzero_step [of i n a] by force
qed simp

lemma first_nonzero_hit:
  assumes "\<forall>k < m. a ! (i + k) = 0" and "i + m < n" and "a ! (i + m) \<noteq> 0"
  shows "first_nonzero a n i = Some (word_of_nat (i + m))"
  using first_nonzero_skip [of m a i n] first_nonzero_step [of "i + m" n a] assms by simp

lemma scan_loop_run: "unat n \<le> length a \<Longrightarrow> scan_loop a n i = Some (first_nonzero a (unat n) (unat i))"
proof (induction a n i rule: scan_loop.induct)
  case (1 a n i)
  show ?case
  proof (cases "i < n")
    case False
    then show ?thesis by (simp add: scan_loop.simps [of a n i] word_less_nat_alt not_less)
  next
    case True
    then have i: "unat i < unat n" "unat (i + 1) = Suc (unat i)" by (simp_all add: word_less_nat_alt unat_inc [OF True])
    then show ?thesis
      using 1 True first_nonzero_step [OF i(1), of a]
      by (simp add: scan_loop.simps [of a n i])
  qed
qed

subsection \<open>Masks\<close>

lemma countr_one_first:
  fixes w :: "'a::len word"
  assumes "m < LENGTH('a)" and "\<not> bit w m"
  shows "countr_one w \<le> m" and "\<not> bit w (countr_one w)" and "\<forall>k < countr_one w. bit w k"
proof -
  let ?t = "takeWhile (bit w) [0..<LENGTH('a)]"
  have pre: "?t = [0..<countr_one w]"
    using takeWhile_eq_take [of "bit w" "[0..<LENGTH('a)]"] length_takeWhile_le [of "bit w" "[0..<LENGTH('a)]"]
    by (simp add: countr_one_def take_upt)
  then have all: "\<forall>k < countr_one w. bit w k" using set_takeWhileD [of _ "bit w"] by (metis atLeast_upt lessThan_iff)
  then show "\<forall>k < countr_one w. bit w k" .
  show le: "countr_one w \<le> m" using all assms(2) by (meson not_le)
  then have "countr_one w < length [0..<LENGTH('a)]" using assms(1) by simp
  then show "\<not> bit w (countr_one w)"
    using nth_length_takeWhile [of "bit w" "[0..<LENGTH('a)]"] by (simp add: countr_one_def)
qed

lemma bit_scan_full: "0 < nb \<Longrightarrow> nb \<le> 8 \<Longrightarrow> m < 64 \<Longrightarrow> bit (scan_full nb) m \<longleftrightarrow> m < nb * 8"
  by (auto simp: scan_full_def push_bit_eq_mult bit_simps simp flip: mask_eq_exp_minus_1)

lemma index_add:
  assumes "unat (i :: size_t) + m < 2 ^ 64"
  shows "unat (i + word_of_nat m) = unat i + m" and "word_of_nat (unat i + m) = i + word_of_nat m"
proof -
  have "unat (word_of_nat m :: size_t) = m" using assms by (intro unat_of_nat_less) simp
  then show "unat (i + word_of_nat m) = unat i + m" using assms by (subst unat_plus_if') simp
  show "word_of_nat (unat i + m) = i + word_of_nat m" by simp
qed

locale avx2_lanes =
  fixes I :: "('v, 'f) avx2"
    and lane :: "'v \<Rightarrow> nat \<Rightarrow> 32 word"
    and flane :: "'f \<Rightarrow> nat \<Rightarrow> 32 word"
  assumes setzero: "k < 8 \<Longrightarrow> lane (mm256_setzero_si256 I) k = 0"
    and loadu: "unat i + 8 \<le> length a \<Longrightarrow>
      \<exists>v. mm256_loadu_si256 I a i = Some v \<and> (\<forall>k < 8. lane v k = a ! (unat i + k))"
    and cmpeq: "k < 8 \<Longrightarrow> lane (mm256_cmpeq_epi32 I u v) k = (if lane u k = lane v k then - 1 else 0)"
    and cast: "k < 8 \<Longrightarrow> flane (mm256_castsi256_ps I v) k = lane v k"
    and movemask: "bit (mm256_movemask_ps I f) k \<longleftrightarrow> k < 8 \<and> bit (flane f k) 31"
begin

abbreviation zero_lanes :: "'v \<Rightarrow> 32 word" where
  "zero_lanes v \<equiv> mm256_movemask_ps I (mm256_castsi256_ps I (mm256_cmpeq_epi32 I v (mm256_setzero_si256 I)))"

lemma bit_zero_lanes: "bit (zero_lanes v) k \<longleftrightarrow> k < 8 \<and> lane v k = 0"
  by (cases "lane v k = 0") (auto simp: movemask cast cmpeq setzero bit_simps)

lemma bit_scast_zero_lanes: "bit (scast (zero_lanes v) :: 64 word) k \<longleftrightarrow> k < 8 \<and> lane v k = 0"
  by (auto simp: bit_simps bit_zero_lanes min_def)

lemma zero_lanes_all: "zero_lanes v = 255 \<longleftrightarrow> (\<forall>k < 8. lane v k = 0)"
proof -
  have "bit (255 :: 32 word) k \<longleftrightarrow> k < 8" if "k < 32" for k
    using that mask_eq_exp_minus_1 [of 8, where 'a = "32 word"] bit_mask_iff [of 8 k, where 'a = "32 word"] by simp
  moreover have "zero_lanes v = 255 \<longleftrightarrow> (\<forall>k < 32. bit (zero_lanes v) k \<longleftrightarrow> bit (255 :: 32 word) k)"
    by (auto simp: bit_eq_iff bit_imp_le_length intro: bit_word_eqI)
  ultimately have "zero_lanes v = 255 \<longleftrightarrow> (\<forall>k < 32. k < 8 \<longrightarrow> lane v k = 0)"
    by (auto simp: bit_zero_lanes)
  also have "\<dots> \<longleftrightarrow> (\<forall>k < 8. lane v k = 0)"
  proof (intro iffI allI impI)
    fix k :: nat assume "\<forall>k < 32. k < 8 \<longrightarrow> lane v k = 0" and "k < 8"
    moreover from this have "k < 32" by simp
    ultimately show "lane v k = 0" by blast
  qed blast
  finally show ?thesis .
qed

text \<open>After \<open>b\<close> vectors, bit \<open>m\<close> of the mask says that element \<open>m\<close> of the block is zero.\<close>

lemma block_mask_run:
  assumes len: "unat i + (b + k) * 8 \<le> length a" "unat i + (b + k) * 8 < 2 ^ 64" and "b + k \<le> 8"
    and "\<forall>m. bit msk m \<longleftrightarrow> m < b * 8 \<and> a ! (unat i + m) = 0"
  shows "\<exists>msk'. block_mask I (mm256_setzero_si256 I) a i b k msk = Some msk' \<and>
    (\<forall>m. bit msk' m \<longleftrightarrow> m < (b + k) * 8 \<and> a ! (unat i + m) = 0)"
  using assms
proof (induction k arbitrary: b msk)
  case (Suc k)
  have off: "unat (i + word_of_nat (b * 8)) = unat i + b * 8"
    by (rule index_add(1)) (use Suc.prems(2) in simp)
  then obtain v where v: "mm256_loadu_si256 I a (i + word_of_nat (b * 8)) = Some v"
      "\<forall>k < 8. lane v k = a ! (unat i + b * 8 + k)"
    using loadu [of "i + word_of_nat (b * 8)" a] Suc.prems(1) by auto
  let ?msk = "msk OR push_bit (b * 8) (scast (zero_lanes v))"
  have "bit ?msk m \<longleftrightarrow> m < Suc b * 8 \<and> a ! (unat i + m) = 0" for m
  proof (cases "m < b * 8")
    case True
    then show ?thesis using Suc.prems(4) by (simp add: bit_or_iff bit_push_bit_iff)
  next
    case False
    then obtain j where j: "m = b * 8 + j" using le_Suc_ex not_less by blast
    have "m < 64 \<Longrightarrow> bit ?msk m \<longleftrightarrow> j < 8 \<and> lane v j = 0"
      using False Suc.prems(4) by (simp add: j bit_or_iff bit_push_bit_iff bit_scast_zero_lanes)
    moreover have "bit ?msk m \<Longrightarrow> m < 64" using bit_imp_le_length [of ?msk m] by simp
    moreover have "j < 8 \<Longrightarrow> m < 64" using Suc.prems(3) by (simp add: j)
    moreover have "j < 8 \<Longrightarrow> lane v j = a ! (unat i + m)" using v(2) by (simp add: j add.assoc)
    ultimately show ?thesis using j by auto
  qed
  then show ?case
    using Suc.IH [of "Suc b" ?msk] Suc.prems v(1) by simp
qed simp

text \<open>What a loop may report: the answer itself, or a later index with the same answer.\<close>

definition scans :: "32 word list \<Rightarrow> size_t \<Rightarrow> size_t \<Rightarrow> (size_t + size_t) option \<Rightarrow> bool" where
  "scans a n i r \<longleftrightarrow> (case r of
      Some (Inl j) \<Rightarrow> first_nonzero a (unat n) (unat i) = Some j
    | Some (Inr j) \<Rightarrow> j \<le> n \<and> first_nonzero a (unat n) (unat j) = first_nonzero a (unat n) (unat i)
    | None \<Rightarrow> False)"

lemma scans_skip:
  assumes "\<forall>k < m. a ! (unat i + k) = 0" and "unat i + m \<le> unat n"
    and "scans a n (i + word_of_nat m) r"
  shows "scans a n i r"
proof -
  have "unat i + m < 2 ^ 64" using assms(2) unat_less_2p64 [of n] by simp
  then show ?thesis
    using assms first_nonzero_skip [OF assms(1,2)] index_add(1) [of i m]
    by (auto simp: scans_def split: option.splits sum.splits)
qed

lemma scans_hit:
  assumes "\<forall>k < m. a ! (unat i + k) = 0" and "unat i + m < unat n" and "a ! (unat i + m) \<noteq> 0"
  shows "scans a n i (Some (Inl (i + word_of_nat m)))"
  using first_nonzero_hit [OF assms] by (simp add: scans_def)

lemma blocks_loop_run:
  assumes "unat n \<le> length a" "unat n + 64 < 2 ^ 64" and nb: "0 < nb" "nb \<le> 8" and "i \<le> n"
  shows "scans a n i (blocks_loop I (mm256_setzero_si256 I) nb a n i)"
  using assms(5)
proof (induction "unat n - unat i" arbitrary: i rule: less_induct)
  case less
  let ?m = "nb * 8"
  have m: "0 < ?m" "?m \<le> 64" using nb by auto
  have "unat i \<le> unat n" using less.prems by (simp add: word_le_nat_alt)
  then have b: "unat i + ?m < 2 ^ 64" using assms(2) m by simp
  note add = index_add(1) [OF b]
  show ?case
  proof (cases "i + word_of_nat ?m \<le> n")
    case False
    then show ?thesis using less.prems by (subst blocks_loop.simps) (simp add: scans_def)
  next
    case True
    then have fit: "unat i + ?m \<le> unat n" unfolding word_le_nat_alt add .
    obtain msk where msk: "block_mask I (mm256_setzero_si256 I) a i 0 nb 0 = Some msk"
        "\<forall>m. bit msk m \<longleftrightarrow> m < ?m \<and> a ! (unat i + m) = 0"
      using block_mask_run [of i 0 nb a 0] fit assms(1) b nb(2) by auto
    have full: "msk = scan_full nb \<longleftrightarrow> (\<forall>k < ?m. a ! (unat i + k) = 0)"
    proof
      assume "msk = scan_full nb"
      then show "\<forall>k < ?m. a ! (unat i + k) = 0"
        using bit_scan_full [OF nb] msk(2) m(2) by (metis order_less_le_trans)
    next
      assume "\<forall>k < ?m. a ! (unat i + k) = 0"
      then show "msk = scan_full nb"
        using bit_scan_full [OF nb] msk(2) by (intro bit_word_eqI) auto
    qed
    show ?thesis
    proof (cases "msk = scan_full nb")
      case True
      then have zero: "\<forall>k < ?m. a ! (unat i + k) = 0" using full by blast
      have "scans a n (i + word_of_nat ?m) (blocks_loop I (mm256_setzero_si256 I) nb a n (i + word_of_nat ?m))"
        using less.hyps [of "i + word_of_nat ?m"] fit m(1) add by (simp add: word_le_nat_alt)
      then have "scans a n i (blocks_loop I (mm256_setzero_si256 I) nb a n (i + word_of_nat ?m))"
        by (rule scans_skip [OF zero fit])
      then show ?thesis
        using True msk(1) \<open>i + word_of_nat ?m \<le> n\<close> by (subst blocks_loop.simps) simp
    next
      case False
      then obtain k where k: "k < ?m" "a ! (unat i + k) \<noteq> 0" using full by blast
      then have "\<not> bit msk k" "k < LENGTH(64)" using msk(2) m(2) by auto
      note c = countr_one_first [OF this(2,1)]
      have "scans a n i (Some (Inl (i + word_of_nat (countr_one msk))))"
        using c msk(2) k(1) fit by (intro scans_hit) auto
      then show ?thesis
        using False msk(1) \<open>i + word_of_nat ?m \<le> n\<close> by (subst blocks_loop.simps) simp
    qed
  qed
qed

lemma lanes_loop_run:
  assumes "unat n \<le> length a" "unat n + 64 < 2 ^ 64" and "i \<le> n"
  shows "scans a n i (lanes_loop I (mm256_setzero_si256 I) a n i)"
  using assms(3)
proof (induction "unat n - unat i" arbitrary: i rule: less_induct)
  case less
  have "unat i \<le> unat n" using less.prems by (simp add: word_le_nat_alt)
  then have b: "unat i + 8 < 2 ^ 64" using assms(2) by simp
  have add: "unat (i + 8) = unat i + 8" using index_add(1) [OF b] by simp
  show ?case
  proof (cases "i + 8 \<le> n")
    case False
    then show ?thesis using less.prems by (subst lanes_loop.simps) (simp add: scans_def)
  next
    case True
    then have fit: "unat i + 8 \<le> unat n" by (simp add: word_le_nat_alt add)
    obtain v where v: "mm256_loadu_si256 I a i = Some v" "\<forall>k < 8. lane v k = a ! (unat i + k)"
      using loadu [of i a] fit assms(1) by auto
    show ?thesis
    proof (cases "zero_lanes v = 255")
      case z: True
      then have zero: "\<forall>k < 8. a ! (unat i + k) = 0" using v(2) by (simp add: zero_lanes_all)
      have "scans a n (i + 8) (lanes_loop I (mm256_setzero_si256 I) a n (i + 8))"
        using less.hyps [of "i + 8"] fit add by (simp add: word_le_nat_alt)
      then have "scans a n i (lanes_loop I (mm256_setzero_si256 I) a n (i + 8))"
        using scans_skip [OF zero fit] by simp
      then show ?thesis using z v(1) True by (subst lanes_loop.simps) simp
    next
      case nz: False
      then obtain k where k: "k < 8" "lane v k \<noteq> 0" by (auto simp: zero_lanes_all)
      then have "\<not> bit (zero_lanes v) k" "k < LENGTH(32)" by (simp_all add: bit_zero_lanes)
      note c = countr_one_first [OF this(2,1)]
      have lt: "countr_one (zero_lanes v) < 8" using c(1) k(1) by simp
      have "scans a n i (Some (Inl (i + word_of_nat (countr_one (zero_lanes v)))))"
        using c(2,3) lt v(2) fit by (intro scans_hit) (auto simp: bit_zero_lanes)
      then show ?thesis using nz v(1) True by (subst lanes_loop.simps) simp
    qed
  qed
qed

lemma avx2_scan:
  assumes a: "unat n \<le> length a" "unat n + 64 < 2 ^ 64" and nb: "0 < nb" "nb \<le> 8"
  shows "avx2_find_next_nonzero I nb a n start = Some (first_nonzero a (unat n) (unat start))"
proof (cases "start \<ge> n")
  case True
  then show ?thesis by (simp add: avx2_find_next_nonzero_def word_le_nat_alt)
next
  case False
  then have "start \<le> n" by simp
  note blocks = blocks_loop_run [OF a nb this]
  then show ?thesis
  proof (cases "blocks_loop I (mm256_setzero_si256 I) nb a n start")
    case (Some r)
    show ?thesis
    proof (cases r)
      case (Inl i)
      then show ?thesis
        using False Some blocks by (simp add: avx2_find_next_nonzero_def scans_def)
    next
      case (Inr i)
      then have i: "i \<le> n" "first_nonzero a (unat n) (unat i) = first_nonzero a (unat n) (unat start)"
        using Some blocks by (simp_all add: scans_def)
      note lanes = lanes_loop_run [OF a i(1)]
      show ?thesis
        using False Some Inr i(2) lanes scan_loop_run [OF a(1)]
        by (auto simp: avx2_find_next_nonzero_def scans_def split: option.splits sum.splits)
    qed
  qed (simp add: scans_def)
qed

end

subsection \<open>An instance of the intrinsics\<close>

text \<open>Vectors as lists of lanes, computed the way the documentation describes them.\<close>

definition list_lane :: "32 word list \<Rightarrow> nat \<Rightarrow> 32 word" where
  "list_lane v k = (if k < length v then v ! k else 0)"

definition list_avx2 :: "(32 word list, 32 word list) avx2" where
  "list_avx2 = \<lparr>mm256_setzero_si256 = replicate 8 0,
     mm256_loadu_si256 = (\<lambda>a i. if unat i + 8 \<le> length a then Some (take 8 (drop (unat i) a)) else None),
     mm256_cmpeq_epi32 = (\<lambda>u v. map (\<lambda>k. if list_lane u k = list_lane v k then - 1 else 0) [0..<8]),
     mm256_castsi256_ps = (\<lambda>v. v),
     mm256_movemask_ps = (\<lambda>f. horner_sum of_bool 2 (map (\<lambda>k. bit (list_lane f k) 31) [0..<8]))\<rparr>"

interpretation list_lanes: avx2_lanes list_avx2 list_lane list_lane
proof unfold_locales
  fix f k
  show "bit (mm256_movemask_ps list_avx2 f) k \<longleftrightarrow> k < 8 \<and> bit (list_lane f k) 31"
    by (auto simp: list_avx2_def bit_horner_sum_bit_iff)
qed (auto simp: list_avx2_def list_lane_def)

subsection \<open>What the two functions promise\<close>

text \<open>C38: for any intrinsics that behave as documented lane by lane, any number of blocks per
  step and any start, the AVX2 function neither faults nor reads outside the array and returns
  what the scalar function returns.\<close>

theorem avx2_equals_scalar:
  assumes "avx2_lanes I lane flane" and "unat n \<le> length a" and "unat n + 64 < 2 ^ 64" and "0 < nb" "nb \<le> 8"
  shows "avx2_find_next_nonzero I nb a n start = scalar_find_next_nonzero a n start \<and>
    scalar_find_next_nonzero a n start \<noteq> None"
  using avx2_lanes.avx2_scan [OF assms] scan_loop_run [OF assms(2)]
  by (simp add: scalar_find_next_nonzero_def)

theorem avx2_equals_scalar_witness:
  "avx2_find_next_nonzero list_avx2 1 [0, 0, 0, 0, 0, 0, 0, 0, 0, 4, 0, 0, 0, 0, 0, 0, 0, 7] 18 2 =
   scalar_find_next_nonzero [0, 0, 0, 0, 0, 0, 0, 0, 0, 4, 0, 0, 0, 0, 0, 0, 0, 7] 18 2"
  by (rule avx2_equals_scalar [OF list_lanes.avx2_lanes_axioms, THEN conjunct1]) simp_all

text \<open>The scalar function returns the first position from \<open>start\<close> on that holds a non-zero
  word, and nothing exactly when there is none.\<close>

theorem scalar_finds_first:
  assumes "unat n \<le> length a"
  shows "\<exists>r. scalar_find_next_nonzero a n start = Some r \<and>
    (case r of
       None \<Rightarrow> \<forall>k. unat start \<le> k \<and> k < unat n \<longrightarrow> a ! k = 0
     | Some i \<Rightarrow> start \<le> i \<and> i < n \<and> a ! unat i \<noteq> 0 \<and> (\<forall>k. unat start \<le> k \<and> k < unat i \<longrightarrow> a ! k = 0))"
proof -
  have run: "scalar_find_next_nonzero a n start = Some (first_nonzero a (unat n) (unat start))"
    using scan_loop_run [OF assms] by (simp add: scalar_find_next_nonzero_def)
  show ?thesis
  proof (cases "List.find (\<lambda>k. a ! k \<noteq> 0) [unat start..<unat n]")
    case None
    then have "first_nonzero a (unat n) (unat start) = None" by (simp add: first_nonzero_def)
    moreover have "\<forall>k. unat start \<le> k \<and> k < unat n \<longrightarrow> a ! k = 0" using None by (auto simp: find_None_iff)
    ultimately show ?thesis using run by simp
  next
    case (Some k)
    then obtain m where m: "m < unat n - unat start" "a ! k \<noteq> 0" "k = unat start + m"
        "\<forall>j < m. a ! (unat start + j) = 0"
      by (auto simp: find_Some_iff)
    then have k: "unat start \<le> k" "k < unat n" by auto
    then have u: "unat (word_of_nat k :: size_t) = k" using unat_less_2p64 [of n] by (intro unat_of_nat_less) simp
    have "a ! j = 0" if "unat start \<le> j" "j < k" for j
      using m(3,4) that by (metis le_add_diff_inverse nat_add_left_cancel_less)
    then show ?thesis
      using run Some m(2) k u by (auto simp: first_nonzero_def word_le_nat_alt word_less_nat_alt)
  qed
qed

theorem scalar_finds_first_witness:
  "scalar_find_next_nonzero [5, 0, 0, 9, 1] 5 1 = Some (Some 3)"
proof -
  obtain r where r: "scalar_find_next_nonzero [5, 0, 0, 9, 1] 5 1 = Some r"
    "case r of
       None \<Rightarrow> \<forall>k. unat (1 :: size_t) \<le> k \<and> k < unat (5 :: size_t) \<longrightarrow> [5, 0, 0, 9, 1 :: 32 word] ! k = 0
     | Some i \<Rightarrow> 1 \<le> i \<and> i < 5 \<and> [5, 0, 0, 9, 1 :: 32 word] ! unat i \<noteq> 0 \<and>
         (\<forall>k. unat (1 :: size_t) \<le> k \<and> k < unat i \<longrightarrow> [5, 0, 0, 9, 1 :: 32 word] ! k = 0)"
    using scalar_finds_first [of 5 "[5, 0, 0, 9, 1]" 1] by auto
  obtain i where i: "r = Some i"
  proof (cases r)
    case None
    then have "unat (1 :: size_t) \<le> 3 \<and> 3 < unat (5 :: size_t) \<longrightarrow> [5, 0, 0, 9, 1 :: 32 word] ! 3 = 0"
      using r(2) unfolding None option.case by blast
    then show thesis by simp
  qed
  have "\<not> 3 < unat i" using r(2) by (auto simp: i dest: spec [of _ 3])
  moreover have "unat i \<noteq> 1" "unat i \<noteq> 2" "1 \<le> unat i"
    using r(2) by (auto simp: i word_le_nat_alt)
  ultimately have "unat i = unat (3 :: size_t)" by simp
  then have "i = 3" unfolding unat_inject .
  then show ?thesis using r(1) i by simp
qed

end
