(* ===== verification/Scan_Runs.thy ===== *)
theory Scan_Runs
  imports Simd_Scan
begin

text \<open>
  \<open>bench_simd_scan.cpp\<close>: the arrays the scan benchmarks search and one iteration of each
  benchmark. \<open>make_sparse_every\<close> does not return for a step of 0, so its loop is a partial
  function; the benchmarks use a step of 64. \<open>nb\<close> is the template parameter \<open>NumBlocks\<close>
  and \<open>I\<close> the vector intrinsics.
\<close>

definition make_all_zero :: "size_t \<Rightarrow> 32 word list" where
  "make_all_zero n = replicate (unat n) 0"

definition make_one_nonzero :: "size_t \<Rightarrow> size_t \<Rightarrow> 32 word list option" where
  "make_one_nonzero n pos = (
     let a = replicate (unat n) 0 in
     if pos < n then write_at a (unat pos) 1 else Some a)"

partial_function (option) sparse_loop :: "size_t \<Rightarrow> size_t \<Rightarrow> size_t \<Rightarrow> 32 word list \<Rightarrow> 32 word list option" where
  "sparse_loop n step i a =
     (if i < n then do {
        a \<leftarrow> write_at a (unat i) 1;
        sparse_loop n step (i + step) a
      } else Some a)"

declare sparse_loop.simps [code]

definition make_sparse_every :: "size_t \<Rightarrow> size_t \<Rightarrow> 32 word list option" where
  "make_sparse_every n step = sparse_loop n step 0 (replicate (unat n) 0)"

definition array_size :: "32 word list \<Rightarrow> size_t" where
  "array_size a = word_of_nat (length a)"

subsection \<open>The benchmarks\<close>

definition bm_scalar_all_zero :: "size_t \<Rightarrow> size_t option option" where
  "bm_scalar_all_zero n = (
     let a = make_all_zero n in
     scalar_find_next_nonzero a (array_size a) 0)"

definition bm_avx2_all_zero :: "('v, 'f) avx2 \<Rightarrow> nat \<Rightarrow> size_t \<Rightarrow> size_t option option" where
  "bm_avx2_all_zero I nb n = (
     let a = make_all_zero n in
     avx2_find_next_nonzero I nb a (array_size a) 0)"

definition bm_scalar_hit_far :: "size_t \<Rightarrow> size_t option option" where
  "bm_scalar_hit_far n = do {
     a \<leftarrow> make_one_nonzero n (n - 1);
     scalar_find_next_nonzero a (array_size a) 0
   }"

definition bm_avx2_hit_far :: "('v, 'f) avx2 \<Rightarrow> nat \<Rightarrow> size_t \<Rightarrow> size_t option option" where
  "bm_avx2_hit_far I nb n = do {
     a \<leftarrow> make_one_nonzero n (n - 1);
     avx2_find_next_nonzero I nb a (array_size a) 0
   }"

definition bm_scalar_hit_near :: "size_t \<Rightarrow> size_t option option" where
  "bm_scalar_hit_near n = do {
     a \<leftarrow> make_one_nonzero n 8;
     scalar_find_next_nonzero a (array_size a) 0
   }"

definition bm_avx2_hit_near :: "('v, 'f) avx2 \<Rightarrow> nat \<Rightarrow> size_t \<Rightarrow> size_t option option" where
  "bm_avx2_hit_near I nb n = do {
     a \<leftarrow> make_one_nonzero n 8;
     avx2_find_next_nonzero I nb a (array_size a) 0
   }"

definition bm_scalar_sparse_every_64 :: "size_t \<Rightarrow> size_t option option" where
  "bm_scalar_sparse_every_64 n = do {
     a \<leftarrow> make_sparse_every n 64;
     scalar_find_next_nonzero a (array_size a) 1
   }"

definition bm_avx2_sparse_every_64 :: "('v, 'f) avx2 \<Rightarrow> nat \<Rightarrow> size_t \<Rightarrow> size_t option option" where
  "bm_avx2_sparse_every_64 I nb n = do {
     a \<leftarrow> make_sparse_every n 64;
     avx2_find_next_nonzero I nb a (array_size a) 1
   }"

subsection \<open>The arrays\<close>

lemma array_size_unat: "length a = unat n \<Longrightarrow> array_size a = n"
  by (simp add: array_size_def)

lemma one_nonzero_run:
  "\<exists>a. make_one_nonzero n pos = Some a \<and> length a = unat n \<and>
     (\<forall>k < unat n. a ! k = (if k = unat pos then 1 else 0))"
proof (cases "pos < n")
  case True
  then have "unat pos < unat n" by (simp add: word_less_nat_alt)
  then show ?thesis using True by (auto simp: make_one_nonzero_def Let_def write_at_def nth_list_update)
qed (auto simp: make_one_nonzero_def word_less_nat_alt)

lemma sparse_loop_run:
  assumes step: "0 < step" and n: "unat n + unat step < 2 ^ 64"
  shows "length a = unat n \<Longrightarrow> unat i < unat n + unat step \<Longrightarrow>
    \<exists>a'. sparse_loop n step i a = Some a' \<and> length a' = unat n \<and>
      (\<forall>k < unat n. a' ! k = (if unat i \<le> k \<and> (k - unat i) mod unat step = 0 then 1 else a ! k))"
proof (induction "unat n - unat i" arbitrary: i a rule: less_induct)
  case less
  show ?case
  proof (cases "i < n")
    case False
    then show ?thesis using less.prems by (subst sparse_loop.simps) (auto simp: word_less_nat_alt)
  next
    case True
    then have i: "unat i < unat n" by (simp add: word_less_nat_alt)
    have st: "0 < unat step" using step by (simp add: word_less_nat_alt)
    have u: "unat (i + step) = unat i + unat step" using i n by (subst unat_plus_if') simp
    have dec: "unat n - unat (i + step) < unat n - unat i" using i st u by linarith
    have pre: "length (a[unat i := 1]) = unat n" "unat (i + step) < unat n + unat step" using less.prems u i by simp_all
    obtain a' where a': "sparse_loop n step (i + step) (a[unat i := 1]) = Some a'" "length a' = unat n"
        "\<forall>k < unat n. a' ! k =
          (if unat (i + step) \<le> k \<and> (k - unat (i + step)) mod unat step = 0 then 1 else a[unat i := 1] ! k)"
      using less.hyps [OF dec pre] by blast
    have "a' ! k = (if unat i \<le> k \<and> (k - unat i) mod unat step = 0 then 1 else a ! k)" if k: "k < unat n" for k
    proof -
      consider "k < unat i" | "k = unat i" | "unat i < k" "k < unat i + unat step" | "unat i + unat step \<le> k" by linarith
      then show ?thesis
      proof cases
        case 3
        then have "(k - unat i) mod unat step = k - unat i" by (intro mod_less) linarith
        then show ?thesis using a'(3) k 3 u by simp
      next
        case 4
        then have "(k - unat i) mod unat step = (k - unat (i + step)) mod unat step"
          unfolding u by (metis Nat.le_diff_conv2 add.commute add_leD1 diff_diff_left le_mod_geq)
        then show ?thesis using a'(3) k 4 u st by auto
      qed (use a'(3) k u st less.prems(1) in auto)
    qed
    then show ?thesis using True i a'(1,2) less.prems(1) by (subst sparse_loop.simps) (auto simp: write_at_def)
  qed
qed

lemma sparse_every_run:
  assumes "0 < step" and "unat n + unat step < 2 ^ 64"
  shows "\<exists>a. make_sparse_every n step = Some a \<and> length a = unat n \<and>
    (\<forall>k < unat n. a ! k = (if k mod unat step = 0 then 1 else 0))"
  using sparse_loop_run [OF assms, of "replicate (unat n) 0" 0] assms
  by (auto simp: make_sparse_every_def word_less_nat_alt)

lemma scan_hit:
  assumes "length a = unat n" and "unat s \<le> k" and "k < unat n" and "a ! k \<noteq> 0"
    and "\<And>j. unat s \<le> j \<Longrightarrow> j < k \<Longrightarrow> a ! j = 0"
  shows "scalar_find_next_nonzero a n s = Some (Some (word_of_nat k))"
proof -
  have "first_nonzero a (unat n) (unat s) = Some (word_of_nat (unat s + (k - unat s)))"
    by (rule first_nonzero_hit) (use assms in simp_all)
  then show ?thesis using scan_loop_run [of n a s] assms(1,2) by (simp add: scalar_find_next_nonzero_def)
qed

subsection \<open>What the benchmarks find\<close>

text \<open>C36: the scan benchmarks, for more than 64 elements: the scalar and, with intrinsics that behave
  as documented and 1 to 8 blocks per step, the vectorised search of every pair return the same, and
  what the array was built for: nothing, the last position, position 8, and position 64 when the
  search of the sparse array starts behind its first hit.\<close>

theorem scan_drivers:
  assumes "avx2_lanes I lane flane" and "64 < n" "unat n + 64 < 2 ^ 64" and "0 < nb" "nb \<le> 8"
  shows "bm_scalar_all_zero n = Some None \<and> bm_avx2_all_zero I nb n = Some None \<and>
    bm_scalar_hit_far n = Some (Some (n - 1)) \<and> bm_avx2_hit_far I nb n = Some (Some (n - 1)) \<and>
    bm_scalar_hit_near n = Some (Some 8) \<and> bm_avx2_hit_near I nb n = Some (Some 8) \<and>
    bm_scalar_sparse_every_64 n = Some (Some 64) \<and> bm_avx2_sparse_every_64 I nb n = Some (Some 64)"
proof -
  have n: "64 < unat n" using assms(2) by (simp add: word_less_nat_alt)
  have same: "avx2_find_next_nonzero I nb a n s = scalar_find_next_nonzero a n s" if "length a = unat n" for a s
    using avx2_lanes.avx2_scan [OF assms(1) _ assms(3,4,5), of a s] scan_loop_run [of n a s] that
    by (simp add: scalar_find_next_nonzero_def)
  have zero: "scalar_find_next_nonzero (make_all_zero n) n 0 = Some None" "length (make_all_zero n) = unat n"
  proof -
    have "first_nonzero (make_all_zero n) (unat n) 0 = None"
      using first_nonzero_skip [of "unat n" "make_all_zero n" 0 "unat n"] by (simp add: make_all_zero_def)
    then show "scalar_find_next_nonzero (make_all_zero n) n 0 = Some None"
      using scan_loop_run [of n "make_all_zero n" 0] by (simp add: scalar_find_next_nonzero_def make_all_zero_def)
  qed (simp add: make_all_zero_def)
  have one: "\<exists>a. make_one_nonzero n pos = Some a \<and> length a = unat n \<and>
      scalar_find_next_nonzero a n 0 = Some (Some pos)" if "pos < n" for pos
  proof -
    obtain a where a: "make_one_nonzero n pos = Some a" "length a = unat n"
        "\<forall>k < unat n. a ! k = (if k = unat pos then 1 else 0)"
      using one_nonzero_run by blast
    have "scalar_find_next_nonzero a n 0 = Some (Some (word_of_nat (unat pos)))"
      by (rule scan_hit [OF a(2)]) (use a(3) that in \<open>simp_all add: word_less_nat_alt\<close>)
    then show ?thesis using a by simp
  qed
  obtain s where s: "make_sparse_every n 64 = Some s" "length s = unat n"
      "\<forall>k < unat n. s ! k = (if k mod 64 = 0 then 1 else 0)"
    using sparse_every_run [of 64 n] assms(3) by auto
  have sparse: "scalar_find_next_nonzero s n 1 = Some (Some (word_of_nat 64))"
    by (rule scan_hit [OF s(2)]) (use s(3) n in simp_all)
  have "n \<noteq> 0" using n by auto
  then have "n - 1 < n" "8 < n" using n unat_dec [of n] by (simp_all add: word_less_nat_alt)
  note far = one [OF this(1)] and near = one [OF this(2)]
  show ?thesis
    using zero far near s(1,2) sparse same array_size_unat
    by (fastforce simp: bm_scalar_all_zero_def bm_avx2_all_zero_def bm_scalar_hit_far_def bm_avx2_hit_far_def
        bm_scalar_hit_near_def bm_avx2_hit_near_def bm_scalar_sparse_every_64_def bm_avx2_sparse_every_64_def Let_def)
qed

theorem scan_drivers_witness: "bm_avx2_sparse_every_64 list_avx2 4 1024 = Some (Some 64)"
  using scan_drivers [OF list_lanes.avx2_lanes_axioms, of 1024 4] by (simp add: word_less_nat_alt)

end
