(* ===== verification/Spec2Isabelle.thy ===== *)
theory Spec2Isabelle
  imports Clob_Promises Index_Sessions Latency_Profile Index_Runs Scan_Runs
begin

text \<open>
  A verification of the low-latency matching engine: a limit order book of fixed capacity,
  the queues that feed it, the statistics that measure it, and the benchmarks and profiling
  tools that drive all of them. Paths below are relative to the repository.

  \<^bold>\<open>How the program is put together.\<close> \<open>FixedClob\<close> (\<open>src/fixed_clob.hpp\<close>) owns an
  \<open>OrderPool\<close> (\<open>order_pool.hpp\<close>), a slot array with a free stack; two arrays of \<open>PriceLevel\<close>
  (\<open>price_level.hpp\<close>), each the head, tail and totals of a doubly linked list through the
  pool; a \<open>FixedOrderIndex\<close> (\<open>order_index.hpp\<close>), an open-addressing table from order ids to
  slots; and the best prices. A submission matches against the opposite side, reports
  executions to a sink (\<open>execution_sink.hpp\<close>) and rests what is left. In the pipelines a
  producer thread sends commands through \<open>SpscRing\<close> (\<open>spsc_ring.hpp\<close>) to a consumer
  thread that owns the book. \<open>LatencyStats\<close> (\<open>latency_stats.hpp\<close>) collects samples.
  \<open>SpscRingCached\<close> and \<open>simd_scan.hpp\<close> are experiments beside the engine.

  \<^bold>\<open>Conventions.\<close> Integers keep their width as words (\<open>size_t\<close> is 64 bits), so sums,
  differences and counters wrap as in C++. Every operation returns an \<open>option\<close>: None is a
  fault, that is, an out-of-range access or a failed \<open>assert\<close>, or a loop that does not end.
  All theorems about operations therefore also say that they return. State is passed
  explicitly; an operation on a reference to an order or level reads it, changes it and
  writes it back. Memory that the source leaves uninitialised (the key and value arrays of
  the index) is an argument. Hash functions, execution sinks and queues are parameters
  where they are template parameters.

  \<^bold>\<open>Theories and what they show.\<close>
  \<^item> \<open>Prelude\<close>: checked list access, the option monad's rules, words.
  \<^item> \<open>Clob_Types\<close>: \<open>types.hpp\<close>, \<open>order.hpp\<close>, \<open>price_level.hpp\<close>, \<open>order_command.hpp\<close>, \<open>execution.hpp\<close>.
  \<^item> \<open>Order_Pool\<close>: allocation and release; the free slots and the live slots partition the
    pool, a fresh slot was free, and \<open>n\<close> slots serve exactly \<open>n\<close> allocations.
  \<^item> \<open>Order_Index\<close>, \<open>Index_Sessions\<close>: the probe loops; the table is a finite map of bounded
    size (locale \<open>id_map\<close>) for any hash, through deletion marks, reuse and a full table.
  \<^item> \<open>Price_Queue\<close>: append and unlink on the intrusive list refine a list of slots, the empty one included.
  \<^item> \<open>Execution_Sink\<close>: the raw buffer, the vector and the null sink; the first two as
    instances of the locale \<open>recording_sink\<close>.
  \<^item> \<open>Fixed_Clob\<close>: every member function of the book. \<open>Clob_Inv\<close> states the invariant
    \<open>wf_clob\<close> and the abstraction to \<open>book\<close>; \<open>Clob_Steps\<close>, \<open>Clob_Refine\<close>, \<open>Clob_Match\<close> and
    \<open>Clob_Correct\<close> prove operation by operation that the book simulates the specification.
  \<^item> \<open>Book_Spec\<close>, \<open>Book_Laws\<close>: the specification, two lists of resting orders in price-time
    order with \<open>fill\<close>, \<open>enqueue\<close> and deletion by id, and its laws (conservation, priority,
    no crossed prices). \<open>Clob_Promises\<close> carries them over to the code.
  \<^item> \<open>Replay\<close>, \<open>Workload\<close>, \<open>Workload_Runs\<close>: sequences of commands, the generators of
    \<open>workload.hpp\<close>, and what the specification does with each workload.
  \<^item> \<open>Fifo_Queue\<close>: the contract of a bounded queue, single (\<open>fifo_queue\<close>) and batched
    (\<open>batch_queue\<close>), and \<open>exact_queue\<close> for batches that move all they can. \<open>Spsc_Ring\<close> interprets
    \<open>exact_queue\<close>: every sequence of single and batch operations answers as a list;
    \<open>Spsc_Ring_Cached\<close> interprets \<open>batch_queue\<close>, since an old copy may shorten a batch.
    \<open>Ring_Threads\<close> runs the ring one memory access at a time with two threads and stale loads.
  \<^item> \<open>Pipeline\<close>: producer and consumer loops over any queue of the contract, under any
    schedule and with stale loads (locale \<open>stale_queue\<close>, which both rings interpret); \<open>Pipeline_Runs\<close>: the nine benchmarks of \<open>bench/bench_pipeline.cpp\<close>.
  \<^item> \<open>Latency_Stats\<close>: percentiles in rounded arithmetic (locale \<open>rounding\<close>, interpreted by
    IEEE rounding to nearest); \<open>Latency_Profile\<close>: \<open>tools/profile_pipeline_latency.cpp\<close>.
  \<^item> \<open>Simd_Scan\<close>, \<open>Scan_Runs\<close>: scalar and AVX2 search (locale \<open>avx2_lanes\<close> for the vendor's
    intrinsics, interpreted on a list model) and \<open>bench/bench_simd_scan.cpp\<close>.
  \<^item> \<open>Direct_Runs\<close>, \<open>Index_Runs\<close>: \<open>bench/bench_fixed_clob.cpp\<close>, \<open>bench_matching.cpp\<close>,
    \<open>bench_matching_hot.cpp\<close>, \<open>bench_order_index.cpp\<close> and the \<open>tools/profile_full_match\<close> programs.

  \<^bold>\<open>Bounds.\<close> \<open>params_ok\<close> asks for at least one and fewer than \<open>2^32\<close> slots, twice that number a
  power of two as the index requires, and a price range whose size does not wrap. Order ids are
  nonzero, as the index asserts. The matching and refresh loops need no fuel: the first are
  partial functions shown to return, the second end by a measure. A driver theorem holds up to
  the capacity it was built with, \<open>2^20\<close> orders for the books. A schedule of a pipeline has
  enough turns when, after the start, it gives the producer and then the consumer a turn with
  a fresh load at least once per command (\<open>enough_turns\<close>); every schedule is safe.

  \<^bold>\<open>Not modelled.\<close> The memory model beyond stale acquire loads: a turn of a pipeline loop is
  one atomic step apart from the age of its load, which \<open>Ring_Threads\<close> justifies for the queue, the only shared state besides
  the start flag. Wall-clock time, the host's clock (a parameter of the latency tool), the
  benchmark library's loop and registration, stream output, and allocation failure. Builds
  without assertions are covered where no assertion fails, which the theorems show.
\<close>

end
